(* ===== verification/Prelude.thy ===== *)
theory Prelude
  imports "HOL-Library.Word" "HOL-Library.Sublist" "HOL-Library.Monad_Syntax"
begin

unbundle bit_operations_syntax

text \<open>
  What every component shares: bytes and Go strings, slices and indexing with the run-time
  bounds check as \<open>None\<close>, the \<^verbatim>\<open>encoding/binary\<close> accessors the program uses, decimal formatting
  (\<^verbatim>\<open>%d\<close>), and the \<^verbatim>\<open>strings\<close> functions. Throughout the development a result of type \<open>'a option\<close>
  is \<open>None\<close> when the Go code would panic or never return; an ordinary Go error is a value.
\<close>

section \<open>Names and collections\<close>

type_synonym byte = "8 word"
type_synonym uint16 = "16 word"
type_synonym uint32 = "32 word"
type_synonym int64 = "64 word"

named_theorems wire \<open>encoders and decoders of fixed-width fields\<close>
named_theorems io_simps \<open>evaluation of the connection primitives\<close>

section \<open>Slices\<close>

text \<open>\<open>xs[i:j]\<close> and \<open>xs[i]\<close>: out of range is a run-time panic.\<close>

definition go_slice :: "'a list \<Rightarrow> nat \<Rightarrow> nat \<Rightarrow> 'a list option" where
  "go_slice xs i j = (if i \<le> j \<and> j \<le> length xs then Some (take (j - i) (drop i xs)) else None)"

definition go_index :: "'a list \<Rightarrow> nat \<Rightarrow> 'a option" where
  "go_index xs i = (if i < length xs then Some (xs ! i) else None)"

text \<open>A part of a byte string whose bounds are known to be in range.\<close>

definition seg :: "nat \<Rightarrow> nat \<Rightarrow> 'a list \<Rightarrow> 'a list" where
  "seg i j xs = take (j - i) (drop i xs)"

lemma go_slice_Some [simp]: "i \<le> j \<Longrightarrow> j \<le> length xs \<Longrightarrow> go_slice xs i j = Some (seg i j xs)"
  by (simp add: go_slice_def seg_def)

lemma go_index_Some [simp]: "i < length xs \<Longrightarrow> go_index xs i = Some (xs ! i)"
  by (simp add: go_index_def)

text \<open>Go's built-in \<^verbatim>\<open>copy\<close>: as many bytes as both slices have.\<close>

definition go_copy :: "byte list \<Rightarrow> byte list \<Rightarrow> byte list" where
  "go_copy dst src = take (length dst) src @ drop (length src) dst"

lemma length_seg [simp]: "length (seg i j xs) = min (j - i) (length xs - i)"
  by (simp add: seg_def)

lemma seg_append1: "j \<le> length xs \<Longrightarrow> seg i j (xs @ ys) = seg i j xs"
  by (simp add: seg_def)

lemma seg_append2: "length xs \<le> i \<Longrightarrow> seg i j (xs @ ys) = seg (i - length xs) (j - length xs) ys"
  by (cases "i \<le> j") (simp_all add: seg_def)

lemma seg_all: "seg 0 (length xs) xs = xs"
  by (simp add: seg_def)

lemma seg_seg_append: "i \<le> j \<Longrightarrow> j \<le> k \<Longrightarrow> seg i j xs @ seg j k xs = seg i k xs"
proof -
  assume a: "i \<le> j" "j \<le> k"
  have "drop j xs = drop (j - i) (drop i xs)" using a by simp
  moreover have "k - i = (j - i) + (k - j)" using a by simp
  ultimately show ?thesis by (simp only: seg_def take_add)
qed

section \<open>Strings are byte strings\<close>

text \<open>
  A Go string is a sequence of bytes, as an Isabelle \<^typ>\<open>string\<close> is: \<^typ>\<open>char\<close> has 256 values.
\<close>

definition string_of_bytes :: "byte list \<Rightarrow> string" where
  "string_of_bytes bs = map (\<lambda>b. char_of (unat b)) bs"

definition bytes_of_string :: "string \<Rightarrow> byte list" where
  "bytes_of_string s = map (\<lambda>c. of_nat (of_char c)) s"

lemma unat_of_char: "unat (of_nat (of_char c) :: byte) = of_char c"
proof -
  have "(of_char c :: nat) < 256" by simp
  then show ?thesis by (simp add: unat_of_nat)
qed

lemma string_of_bytes_of_string [simp]: "string_of_bytes (bytes_of_string s) = s"
  by (simp add: string_of_bytes_def bytes_of_string_def unat_of_char o_def)

lemma bytes_of_string_of_bytes [simp]: "bytes_of_string (string_of_bytes bs) = bs"
proof -
  have "of_nat (of_char (char_of (unat b) :: char)) = b" for b :: byte
  proof -
    have "unat b < 256" using unsigned_less [of b] by simp
    then show ?thesis by simp
  qed
  then show ?thesis by (simp add: string_of_bytes_def bytes_of_string_def o_def)
qed

lemma length_string_of_bytes [simp]: "length (string_of_bytes bs) = length bs"
  by (simp add: string_of_bytes_def)

lemma length_bytes_of_string [simp]: "length (bytes_of_string s) = length s"
  by (simp add: bytes_of_string_def)

lemma string_of_bytes_Nil [simp]: "string_of_bytes bs = [] \<longleftrightarrow> bs = []"
  by (simp add: string_of_bytes_def)

lemma bytes_of_string_Nil [simp]: "bytes_of_string s = [] \<longleftrightarrow> s = []"
  by (simp add: bytes_of_string_def)

lemma string_of_bytes_inject [simp]: "string_of_bytes a = string_of_bytes b \<longleftrightarrow> a = b"
  by (metis bytes_of_string_of_bytes)

lemma bytes_of_string_inject [simp]: "bytes_of_string a = bytes_of_string b \<longleftrightarrow> a = b"
  by (metis string_of_bytes_of_string)

lemma take_bytes_of_string: "take n (bytes_of_string s) = bytes_of_string (take n s)"
  by (simp add: bytes_of_string_def take_map)

lemma drop_bytes_of_string: "drop n (bytes_of_string s) = bytes_of_string (drop n s)"
  by (simp add: bytes_of_string_def drop_map)

lemma bytes_of_string_append: "bytes_of_string (a @ b) = bytes_of_string a @ bytes_of_string b"
  by (simp add: bytes_of_string_def)

section \<open>Fixed-width integers on the wire (encoding/binary)\<close>

definition be_uint16 :: "byte list \<Rightarrow> uint16" where
  "be_uint16 b = push_bit 8 (ucast (b ! 0)) OR ucast (b ! 1)"

definition put_uint16 :: "uint16 \<Rightarrow> byte list" where
  "put_uint16 v = [ucast (drop_bit 8 v), ucast v]"

definition put_uint32 :: "uint32 \<Rightarrow> byte list" where
  "put_uint32 v = [ucast (drop_bit 24 v), ucast (drop_bit 16 v), ucast (drop_bit 8 v), ucast v]"

definition put_uint64 :: "64 word \<Rightarrow> byte list" where
  "put_uint64 v = map (\<lambda>i. ucast (drop_bit (8 * i) v)) [7, 6, 5, 4, 3, 2, 1, 0]"

definition le_uint32 :: "byte list \<Rightarrow> uint32" where
  "le_uint32 b = ucast (b ! 0) OR push_bit 8 (ucast (b ! 1))
     OR push_bit 16 (ucast (b ! 2)) OR push_bit 24 (ucast (b ! 3))"

definition le_put_uint32 :: "uint32 \<Rightarrow> byte list" where
  "le_put_uint32 v = [ucast v, ucast (drop_bit 8 v), ucast (drop_bit 16 v), ucast (drop_bit 24 v)]"

text \<open>\<open>uint16(n)\<close> of an \<open>int\<close> that is not negative keeps the low 16 bits.\<close>

definition to_uint16 :: "nat \<Rightarrow> uint16" where
  "to_uint16 n = of_nat n"

lemma length_put [simp, wire]:
  "length (put_uint16 v) = 2" "length (put_uint32 w) = 4" "length (put_uint64 x) = 8"
  "length (le_put_uint32 w) = 4"
  by (simp_all add: put_uint16_def put_uint32_def put_uint64_def le_put_uint32_def)

lemma be_uint16_put [simp, wire]: "be_uint16 (put_uint16 v) = v"
  by (rule bit_word_eqI)
    (auto simp add: be_uint16_def put_uint16_def bit_simps not_less)

lemma put_be_uint16 [wire]: "put_uint16 (be_uint16 [a, b]) = [a, b]"
proof -
  have "\<not> bit b (8 + n)" for n using bit_imp_le_length [of b "8 + n"] by auto
  then show ?thesis
    by (auto simp add: be_uint16_def put_uint16_def bit_simps intro!: bit_word_eqI)
qed

lemma le_uint32_put [simp, wire]: "le_uint32 (le_put_uint32 v) = v"
proof (rule bit_word_eqI)
  fix n assume "n < LENGTH(32)"
  then show "bit (le_uint32 (le_put_uint32 v)) n = bit v n"
    by (cases "n < 8"; cases "n < 16"; cases "n < 24")
      (auto simp add: le_uint32_def le_put_uint32_def bit_simps not_less less_diff_conv2)
qed

lemma unat_to_uint16 [simp, wire]: "unat (to_uint16 n) = n mod 65536"
  by (simp add: to_uint16_def unat_of_nat)

lemma unat_be_uint16: "unat (be_uint16 [a, b]) = 256 * unat a + unat b"
proof -
  have disj: "push_bit 8 (ucast a :: uint16) AND ucast b = 0"
    by (rule bit_word_eqI) (auto simp add: bit_simps dest: bit_imp_le_length)
  have "be_uint16 [a, b] = push_bit 8 (ucast a) + ucast b"
    by (simp add: be_uint16_def disjunctive_add_eq_or [OF disj])
  also have "\<dots> = of_nat (256 * unat a + unat b)"
    by (simp add: push_bit_eq_mult mult.commute)
  finally have "unat (be_uint16 [a, b]) = (256 * unat a + unat b) mod 65536"
    by (simp only: unat_of_nat) simp
  moreover have "unat a < 256" "unat b < 256"
    using unsigned_less [of a] unsigned_less [of b] by simp_all
  ultimately show ?thesis by simp
qed

section \<open>Decimal formatting (fmt verb d) and strconv.Atoi\<close>

definition digit :: "nat \<Rightarrow> char" where
  "digit d = char_of (48 + d)"

definition is_digit :: "char \<Rightarrow> bool" where
  "is_digit c \<longleftrightarrow> 48 \<le> (of_char c :: nat) \<and> (of_char c :: nat) \<le> 57"

definition digit_val :: "char \<Rightarrow> nat" where
  "digit_val c = of_char c - 48"

fun dec :: "nat \<Rightarrow> string" where
  "dec n = (if n < 10 then [digit n] else dec (n div 10) @ [digit (n mod 10)])"

declare dec.simps [simp del]

definition dec_int :: "int \<Rightarrow> string" where
  "dec_int i = (if i < 0 then ''-'' @ dec (nat (- i)) else dec (nat i))"

definition undec :: "string \<Rightarrow> nat" where
  "undec s = foldl (\<lambda>v c. 10 * v + digit_val c) 0 s"

lemma digit_val_digit [simp]: "d < 10 \<Longrightarrow> digit_val (digit d) = d"
  by (simp add: digit_val_def digit_def)

lemma is_digit_digit [simp]: "d < 10 \<Longrightarrow> is_digit (digit d)"
  by (simp add: is_digit_def digit_def)

lemma dec_digits: "c \<in> set (dec n) \<Longrightarrow> is_digit c"
proof (induction n rule: dec.induct)
  case (1 n)
  then show ?case by (subst (asm) (2) dec.simps) (auto split: if_splits)
qed

lemma dec_nonempty [simp]: "dec n \<noteq> []"
  by (subst dec.simps) simp

lemma undec_dec [simp]: "undec (dec n) = n"
proof (induction n rule: dec.induct)
  case (1 n)
  show ?case
  proof (cases "n < 10")
    case True
    then show ?thesis by (subst dec.simps) (simp add: undec_def)
  next
    case False
    with 1 have "undec (dec (n div 10)) = n div 10" by simp
    with False show ?thesis by (subst dec.simps) (simp add: undec_def)
  qed
qed

lemma dec_inject [simp]: "dec m = dec n \<longleftrightarrow> m = n"
  by (metis undec_dec)

lemma length_dec_le: "n < 10 ^ k \<Longrightarrow> 0 < k \<Longrightarrow> length (dec n) \<le> k"
proof (induction n arbitrary: k rule: dec.induct)
  case (1 n)
  show ?case
  proof (cases "n < 10")
    case True
    with "1.prems" show ?thesis by (subst dec.simps) simp
  next
    case False
    then obtain j where k: "k = Suc (Suc j)"
      using "1.prems" by (cases k; cases "k - 1") auto
    with False "1.prems" have "length (dec (n div 10)) \<le> Suc j"
      by (intro "1.IH") auto
    with False k show ?thesis by (subst dec.simps) simp
  qed
qed

text \<open>A text that ends in a colon and a decimal number determines both parts.\<close>

lemma colon_dec_inject:
  assumes "h @ '':'' @ dec p = h' @ '':'' @ dec p'"
  shows "h = h' \<and> p = p'"
proof -
  have colon: "\<not> is_digit (CHR '':'')" by (simp add: is_digit_def)
  have *: "takeWhile is_digit (rev (g @ '':'' @ dec q)) = rev (dec q)" for g q
    using dec_digits [of _ q] colon by (simp add: takeWhile_append takeWhile_eq_all_conv)
  have "rev (dec p) = rev (dec p')"
    using * [of h p] * [of h' p'] by (simp only: assms)
  then show ?thesis using assms by simp
qed

text \<open>
  \<^verbatim>\<open>strconv.Atoi\<close>: an optional sign, then at least one digit and nothing else; a value that does
  not fit an \<open>int\<close> (64 bits) is an error.
\<close>

definition atoi :: "string \<Rightarrow> int option" where
  "atoi s =
     (let neg = (s \<noteq> [] \<and> hd s = CHR ''-'');
          ds = (if s \<noteq> [] \<and> (hd s = CHR ''-'' \<or> hd s = CHR ''+'') then tl s else s)
      in if ds = [] \<or> \<not> list_all is_digit ds then None
         else let v = (if neg then - int (undec ds) else int (undec ds))
              in if - (2 ^ 63) \<le> v \<and> v < 2 ^ 63 then Some v else None)"

lemma atoi_dec: "n < 2 ^ 63 \<Longrightarrow> atoi (dec n) = Some (int n)"
proof -
  assume n: "n < 2 ^ 63"
  have all: "list_all is_digit (dec n)"
    using dec_digits by (simp add: list_all_iff)
  have "hd (dec n) \<noteq> CHR ''-''" "hd (dec n) \<noteq> CHR ''+''"
    using dec_digits [of "hd (dec n)" n] by (auto simp add: is_digit_def)
  moreover have "int n < 2 ^ 63" using n by (simp add: zless_nat_eq_int_zless)
  ultimately show ?thesis using all by (simp add: atoi_def Let_def)
qed

section \<open>The strings package\<close>

fun contains :: "string \<Rightarrow> string \<Rightarrow> bool" where
  "contains [] p = (p = [])"
| "contains (c # cs) p = (prefix p (c # cs) \<or> contains cs p)"

lemma contains_iff_sublist: "contains s p \<longleftrightarrow> sublist p s"
  by (induction s) (auto simp add: sublist_Cons_right)

definition is_ascii :: "char \<Rightarrow> bool" where
  "is_ascii c \<longleftrightarrow> (of_char c :: nat) < 128"

definition ascii_lower :: "char \<Rightarrow> char" where
  "ascii_lower c =
     (if 65 \<le> (of_char c :: nat) \<and> (of_char c :: nat) \<le> 90 then char_of ((of_char c :: nat) + 32) else c)"

text \<open>
  \<^verbatim>\<open>strings.ToLower\<close> and \<^verbatim>\<open>strings.EqualFold\<close> work byte by byte while the text is ASCII; where it
  is not they consult the Unicode tables, which are the parameters \<open>ul\<close> and \<open>uf\<close>.
\<close>

definition to_lower :: "(string \<Rightarrow> string) \<Rightarrow> string \<Rightarrow> string" where
  "to_lower ul s = (if list_all is_ascii s then map ascii_lower s else ul s)"

fun equal_fold :: "(string \<Rightarrow> string \<Rightarrow> bool) \<Rightarrow> string \<Rightarrow> string \<Rightarrow> bool" where
  "equal_fold uf (a # s) (b # t) =
     (if \<not> is_ascii a \<or> \<not> is_ascii b then uf (a # s) (b # t)
      else if ascii_lower a = ascii_lower b then equal_fold uf s t
      else False)"
| "equal_fold uf s t = (length s = length t)"

lemma equal_fold_ascii:
  "list_all is_ascii s \<Longrightarrow> list_all is_ascii t \<Longrightarrow>
   equal_fold uf s t \<longleftrightarrow> map ascii_lower s = map ascii_lower t"
  by (induction uf s t rule: equal_fold.induct) auto

lemma is_ascii_ascii_lower [simp]: "is_ascii (ascii_lower c) \<longleftrightarrow> is_ascii c"
  by (auto simp add: is_ascii_def ascii_lower_def)

lemma ascii_lower_idem [simp]: "ascii_lower (ascii_lower c) = ascii_lower c"
  by (auto simp add: ascii_lower_def)

text \<open>\<^verbatim>\<open>strings.IndexByte\<close>, \<^verbatim>\<open>strings.Split\<close> with a one-byte separator.\<close>

fun index_byte :: "string \<Rightarrow> char \<Rightarrow> nat option" where
  "index_byte [] c = None"
| "index_byte (x # xs) c = (if x = c then Some 0 else map_option Suc (index_byte xs c))"

fun split_on :: "char \<Rightarrow> string \<Rightarrow> string list" where
  "split_on c [] = [[]]"
| "split_on c (x # xs) =
     (if x = c then [] # split_on c xs
      else (case split_on c xs of [] \<Rightarrow> [[x]] | y # ys \<Rightarrow> (x # y) # ys))"

text \<open>
  \<^verbatim>\<open>strings.TrimSpace\<close>: the six ASCII white spaces and the UTF-8 encodings of the Unicode ones.
\<close>

definition space_encodings :: "string list" where
  "space_encodings =
     [[CHR 0x09], [CHR 0x0A], [CHR 0x0B], [CHR 0x0C], [CHR 0x0D], [CHR 0x20], [CHR 0xC2, CHR
      0x85], [CHR 0xC2, CHR 0xA0], [CHR 0xE1, CHR 0x9A, CHR 0x80], [CHR 0xE2, CHR 0x80, CHR
      0x80], [CHR 0xE2, CHR 0x80, CHR 0x81], [CHR 0xE2, CHR 0x80, CHR 0x82], [CHR 0xE2, CHR
      0x80, CHR 0x83], [CHR 0xE2, CHR 0x80, CHR 0x84], [CHR 0xE2, CHR 0x80, CHR 0x85], [CHR
      0xE2, CHR 0x80, CHR 0x86], [CHR 0xE2, CHR 0x80, CHR 0x87], [CHR 0xE2, CHR 0x80, CHR 0x88],
      [CHR 0xE2, CHR 0x80, CHR 0x89], [CHR 0xE2, CHR 0x80, CHR 0x8A], [CHR 0xE2, CHR 0x80, CHR
      0xA8], [CHR 0xE2, CHR 0x80, CHR 0xA9], [CHR 0xE2, CHR 0x80, CHR 0xAF], [CHR 0xE2, CHR
      0x81, CHR 0x9F], [CHR 0xE3, CHR 0x80, CHR 0x80]]"

fun strip_first :: "string list \<Rightarrow> string \<Rightarrow> string option" where
  "strip_first [] s = None"
| "strip_first (p # ps) s = (if prefix p s then Some (drop (length p) s) else strip_first ps s)"

lemma strip_first_shorter:
  "strip_first ps s = Some t \<Longrightarrow> [] \<notin> set ps \<Longrightarrow> length t < length s"
proof (induction ps)
  case (Cons p ps)
  have "prefix p s \<Longrightarrow> 0 < length s" using Cons.prems by (cases s) auto
  then show ?case using Cons by (auto split: if_splits)
qed simp

lemma space_encodings_nonempty: "[] \<notin> set space_encodings"
  by (simp add: space_encodings_def)

function trim_left_with :: "string list \<Rightarrow> string \<Rightarrow> string" where
  "trim_left_with ps s =
     (if [] \<in> set ps then s
      else case strip_first ps s of None \<Rightarrow> s | Some t \<Rightarrow> trim_left_with ps t)"
  by pat_completeness auto
termination
  by (relation "measure (\<lambda>(ps, s). length s)") (auto intro: strip_first_shorter)

declare trim_left_with.simps [simp del]

definition trim_space :: "string \<Rightarrow> string" where
  "trim_space s =
     rev (trim_left_with (map rev space_encodings) (rev (trim_left_with space_encodings s)))"

lemma trim_left_with_id: "strip_first ps s = None \<Longrightarrow> trim_left_with ps s = s"
  by (subst trim_left_with.simps) simp

lemma strip_first_None: "strip_first ps s = None \<longleftrightarrow> (\<forall>p \<in> set ps. \<not> prefix p s)"
  by (induction ps) auto

end
