(* ===== verification/GoIO.thy ===== *)
theory GoIO
  imports Prelude
begin

text \<open>
  What the program uses of Go's \<^verbatim>\<open>errors\<close>, \<^verbatim>\<open>fmt.Errorf\<close>, \<^verbatim>\<open>io\<close> and \<^verbatim>\<open>net\<close>: error values, a socket (\<open>conn\<close>)
  with the bytes that will still arrive and the bytes already sent, \<^verbatim>\<open>io.ReadAtLeast\<close>,
  \<^verbatim>\<open>io.ReadFull\<close> and \<^verbatim>\<open>io.Copy\<close> over an arbitrary reader and writer. The contracts of
  \<^verbatim>\<open>io.Reader\<close> and \<^verbatim>\<open>io.Writer\<close> are the locales \<open>byte_source\<close>, \<open>exact_source\<close> and \<open>byte_sink\<close>: the loops
  are proved to return, and their results computed, once inside them.
\<close>

section \<open>Errors\<close>

text \<open>\<open>ErrWrap p e\<close> is \<^verbatim>\<open>fmt.Errorf("p: %w", e)\<close>; \<open>ErrText\<close> is \<^verbatim>\<open>errors.New\<close> or an error of the system.\<close>

datatype go_error = EOF | ErrUnexpectedEOF | ErrShortWrite | ErrText string | ErrWrap string go_error

fun err_text :: "go_error \<Rightarrow> string" where
  "err_text EOF = ''EOF''"
| "err_text ErrUnexpectedEOF = ''unexpected EOF''"
| "err_text ErrShortWrite = ''short write''"
| "err_text (ErrText s) = s"
| "err_text (ErrWrap p e) = p @ '': '' @ err_text e"

text \<open>\<^verbatim>\<open>errors.Is\<close> follows the chain of wrapped errors.\<close>

fun errors_is :: "go_error \<Rightarrow> go_error \<Rightarrow> bool" where
  "errors_is (ErrWrap p e) t = (ErrWrap p e = t \<or> errors_is e t)"
| "errors_is e t = (e = t)"

definition err_closed :: go_error where
  "err_closed = ErrText ''use of closed network connection''"

definition err_broken_pipe :: go_error where
  "err_broken_pipe = ErrText ''write: broken pipe''"

section \<open>Sockets\<close>

text \<open>
  \<open>rx\<close>: the chunks that successive reads will find, none of them empty; \<open>rx_end\<close>: the error after
  the last one (end of file, reset, timeout); \<open>rx_eager\<close>: the reader reports that error together with the
  last bytes, as \<^verbatim>\<open>io.Reader\<close> permits. \<open>tx\<close>: what the peer has been sent; \<open>tx_cap\<close>: how many more
  bytes it takes before a write fails with \<open>tx_err\<close>. \<open>deadline\<close> is what \<^verbatim>\<open>SetDeadline\<close> last set.
\<close>

record conn =
  rx :: "byte list list"
  rx_end :: go_error
  rx_eager :: bool
  tx :: "byte list"
  tx_cap :: "nat option"
  tx_err :: go_error
  closed :: bool
  wr_closed :: bool
  deadline :: "int option"

definition new_conn :: "byte list list \<Rightarrow> go_error \<Rightarrow> conn" where
  "new_conn chunks e =
     \<lparr>rx = chunks, rx_end = e, rx_eager = False, tx = [], tx_cap = None, tx_err = err_broken_pipe,
      closed = False, wr_closed = False, deadline = None\<rparr>"

type_synonym 's reader = "nat \<Rightarrow> 's \<Rightarrow> (byte list \<times> go_error option \<times> 's) option"
type_synonym 's writer = "byte list \<Rightarrow> 's \<Rightarrow> nat \<times> go_error option \<times> 's"

fun drop_chunks :: "nat \<Rightarrow> byte list list \<Rightarrow> byte list list" where
  "drop_chunks n [] = []"
| "drop_chunks n (c # cs) =
     (if n < length c then drop n c # cs else drop_chunks (n - length c) cs)"

definition conn_read :: "conn reader" where
  "conn_read k c =
     (if closed c then Some ([], Some err_closed, c)
      else if k = 0 then Some ([], None, c)
      else case rx c of
        [] \<Rightarrow> Some ([], Some (rx_end c), c)
      | ch # rest \<Rightarrow>
          if length ch \<le> k
          then Some (ch, (if rest = [] \<and> rx_eager c then Some (rx_end c) else None), c\<lparr>rx := rest\<rparr>)
          else Some (take k ch, None, c\<lparr>rx := drop k ch # rest\<rparr>))"

definition conn_write :: "conn writer" where
  "conn_write bs c =
     (if closed c then (0, Some err_closed, c)
      else if wr_closed c then (0, Some err_broken_pipe, c)
      else case tx_cap c of
        None \<Rightarrow> (length bs, None, c\<lparr>tx := tx c @ bs\<rparr>)
      | Some m \<Rightarrow>
          if length bs \<le> m
          then (length bs, None, c\<lparr>tx := tx c @ bs, tx_cap := Some (m - length bs)\<rparr>)
          else (m, Some (tx_err c), c\<lparr>tx := tx c @ take m bs, tx_cap := Some 0\<rparr>))"

definition conn_close :: "conn \<Rightarrow> conn" where
  "conn_close c = c\<lparr>closed := True\<rparr>"

definition conn_close_write :: "conn \<Rightarrow> conn" where
  "conn_close_write c = c\<lparr>wr_closed := True\<rparr>"

text \<open>The bytes still to come, the error after them, and the socket \<open>n\<close> bytes later.\<close>

definition conn_ok :: "conn \<Rightarrow> bool" where
  "conn_ok c \<longleftrightarrow> [] \<notin> set (rx c)"

definition conn_content :: "conn \<Rightarrow> byte list" where
  "conn_content c = (if closed c then [] else concat (rx c))"

definition conn_final :: "conn \<Rightarrow> go_error" where
  "conn_final c = (if closed c then err_closed else rx_end c)"

definition conn_skip :: "nat \<Rightarrow> conn \<Rightarrow> conn" where
  "conn_skip n c = (if closed c then c else c\<lparr>rx := drop_chunks n (rx c)\<rparr>)"

lemma concat_drop_chunks [simp]: "concat (drop_chunks n cs) = drop n (concat cs)"
  by (induction n cs rule: drop_chunks.induct) auto

lemma drop_chunks_0 [simp]: "[] \<notin> set cs \<Longrightarrow> drop_chunks 0 cs = cs"
  by (cases cs) auto

lemma drop_chunks_ok [simp]: "[] \<notin> set cs \<Longrightarrow> [] \<notin> set (drop_chunks n cs)"
  by (induction n cs rule: drop_chunks.induct) auto

lemma drop_chunks_add: "[] \<notin> set cs \<Longrightarrow> drop_chunks m (drop_chunks n cs) = drop_chunks (n + m) cs"
proof (induction n cs rule: drop_chunks.induct)
  case (2 n c cs)
  then show ?case by (cases "n < length c") (auto simp add: less_diff_conv add.commute)
qed simp

section \<open>The contract of a reader\<close>

text \<open>
  \<open>byte_source\<close> is the weak contract (\<^verbatim>\<open>io.Copy\<close> needs no more): reads deliver \<open>content\<close> in order, then
  \<open>final\<close> (after which the reader is done with), and do not stall for ever, since \<open>rank\<close> falls when
  a read reports no error. \<open>exact_source\<close>
  says in addition that the state is determined by how many bytes were taken.
\<close>

locale byte_source =
  fixes rd :: "nat \<Rightarrow> 's \<Rightarrow> (byte list \<times> go_error option \<times> 's) option"
    and content :: "'s \<Rightarrow> byte list"
    and final :: "'s \<Rightarrow> go_error"
    and rank :: "'s \<Rightarrow> nat"
    and ok :: "'s \<Rightarrow> bool"
  assumes rd_step: "ok s \<Longrightarrow> 0 < k \<Longrightarrow>
      \<exists>bs e s'. rd k s = Some (bs, e, s') \<and> length bs \<le> k
        \<and> (e = None \<longrightarrow>
             ok s' \<and> content s = bs @ content s' \<and> final s' = final s \<and> rank s' < rank s)
        \<and> (\<forall>er. e = Some er \<longrightarrow> er = final s \<and> content s = bs)"

locale exact_source =
  fixes rd :: "nat \<Rightarrow> 's \<Rightarrow> (byte list \<times> go_error option \<times> 's) option"
    and content :: "'s \<Rightarrow> byte list"
    and final :: "'s \<Rightarrow> go_error"
    and skip :: "nat \<Rightarrow> 's \<Rightarrow> 's"
    and ok :: "'s \<Rightarrow> bool"
  assumes content_skip: "ok s \<Longrightarrow> content (skip n s) = drop n (content s)"
    and final_skip: "ok s \<Longrightarrow> final (skip n s) = final s"
    and ok_skip: "ok s \<Longrightarrow> ok (skip n s)"
    and skip_0: "ok s \<Longrightarrow> skip 0 s = s"
    and skip_skip: "ok s \<Longrightarrow> skip m (skip n s) = skip (n + m) s"
    and rd_take: "ok s \<Longrightarrow> 0 < k \<Longrightarrow>
      \<exists>n e. n \<le> k \<and> n \<le> length (content s) \<and> rd k s = Some (take n (content s), e, skip n s)
        \<and> (e = None \<longrightarrow> 0 < n) \<and> (\<forall>er. e = Some er \<longrightarrow> er = final s \<and> n = length (content s))"

sublocale exact_source \<subseteq> source: byte_source rd content final "\<lambda>s. length (content s)" ok
proof
  fix s k assume "ok s" "0 < (k :: nat)"
  from rd_take [OF this] obtain n e where *: "n \<le> k" "n \<le> length (content s)"
    "rd k s = Some (take n (content s), e, skip n s)" "e = None \<longrightarrow> 0 < n"
    "\<forall>er. e = Some er \<longrightarrow> er = final s \<and> n = length (content s)" by blast
  show "\<exists>bs e s'. rd k s = Some (bs, e, s') \<and> length bs \<le> k
        \<and> (e = None \<longrightarrow> ok s' \<and> content s = bs @ content s' \<and> final s' = final s
             \<and> length (content s') < length (content s))
        \<and> (\<forall>er. e = Some er \<longrightarrow> er = final s \<and> content s = bs)"
    using * \<open>ok s\<close>
    by (intro exI [of _ "take n (content s)"] exI [of _ e] exI [of _ "skip n s"])
      (auto simp add: content_skip final_skip ok_skip)
qed

section \<open>io.ReadAtLeast and io.ReadFull\<close>

text \<open>
  The buffer has room for \<open>k\<close> bytes and at least \<open>mn\<close> are wanted; \<open>acc\<close> holds what has been read. The
  loop of \<^verbatim>\<open>io.ReadAtLeast\<close> has no bound of its own: against a reader that keeps returning no bytes
  and no error it does not return, and the result is \<open>None\<close>.
\<close>

partial_function (option) read_at_least_loop ::
  "'s reader \<Rightarrow> nat \<Rightarrow> nat \<Rightarrow> byte list \<Rightarrow> 's \<Rightarrow> (byte list \<times> go_error option \<times> 's) option"
  where
  "read_at_least_loop rd k mn acc s =
     (if length acc < mn
      then Option.bind (rd (k - length acc) s) (\<lambda>(bs, e, s').
             case e of
               None \<Rightarrow> read_at_least_loop rd k mn (acc @ bs) s'
             | Some er \<Rightarrow> Some (acc @ bs, Some er, s'))
      else Some (acc, None, s))"

definition read_at_least ::
  "'s reader \<Rightarrow> nat \<Rightarrow> nat \<Rightarrow> 's \<Rightarrow> (byte list \<times> go_error option \<times> 's) option"
  where
  "read_at_least rd k mn s =
     (if k < mn then Some ([], Some (ErrText ''short buffer''), s)
      else Option.bind (read_at_least_loop rd k mn [] s) (\<lambda>(bs, e, s').
        Some (bs,
              (if mn \<le> length bs then None
               else if bs \<noteq> [] \<and> e = Some EOF then Some ErrUnexpectedEOF
               else e),
              s')))"

definition read_full :: "'s reader \<Rightarrow> nat \<Rightarrow> 's \<Rightarrow> (byte list \<times> go_error option \<times> 's) option" where
  "read_full rd n s = read_at_least rd n n s"

text \<open>The error of a read that found only \<open>n\<close> bytes, fewer than it needed.\<close>

definition short_error :: "byte list \<Rightarrow> go_error \<Rightarrow> go_error" where
  "short_error bs e = (if bs \<noteq> [] \<and> e = EOF then ErrUnexpectedEOF else e)"

context exact_source
begin

lemma read_at_least_loop_result:
  assumes "ok s" "mn \<le> k" "length acc \<le> k"
  shows "\<exists>n e. read_at_least_loop rd k mn acc s = Some (acc @ take n (content s), e, skip n s)
    \<and> length acc + n \<le> k \<and> n \<le> length (content s)
    \<and> (mn \<le> length acc + n \<or> (n = length (content s) \<and> e = Some (final s)))
    \<and> (mn \<le> length acc \<longrightarrow> n = 0)"
  using assms
proof (induction "length (content s)" arbitrary: s acc rule: less_induct)
  case less
  show ?case
  proof (cases "length acc < mn")
    case False
    with less.prems show ?thesis
      by (intro exI [of _ 0] exI [of _ None])
        (auto simp add: read_at_least_loop.simps skip_0)
  next
    case True
    with less.prems have "0 < k - length acc" by simp
    from rd_take [OF \<open>ok s\<close> this] obtain n e where n: "n \<le> k - length acc"
      "n \<le> length (content s)" "e = None \<longrightarrow> 0 < n"
      "\<forall>er. e = Some er \<longrightarrow> er = final s \<and> n = length (content s)"
      and rd: "rd (k - length acc) s = Some (take n (content s), e, skip n s)" by blast
    show ?thesis
    proof (cases e)
      case (Some er)
      with rd n True less.prems show ?thesis
        by (intro exI [of _ n] exI [of _ e]) (auto simp add: read_at_least_loop.simps)
    next
      case None
      with n have pos: "0 < n" by simp
      let ?acc = "acc @ take n (content s)" and ?s = "skip n s"
      have "length (content ?s) < length (content s)" "ok ?s" "length ?acc \<le> k"
        using pos n less.prems by (auto simp add: content_skip ok_skip)
      from less.hyps [OF this(1,2) less.prems(2) this(3)] obtain m e' where
        m: "read_at_least_loop rd k mn ?acc ?s = Some (?acc @ take m (content ?s), e', skip m ?s)"
        "length ?acc + m \<le> k" "m \<le> length (content ?s)"
        "mn \<le> length ?acc + m \<or> (m = length (content ?s) \<and> e' = Some (final ?s))" by blast
      have "read_at_least_loop rd k mn acc s = read_at_least_loop rd k mn ?acc ?s"
        using True rd None by (subst read_at_least_loop.simps) simp
      also have "\<dots> = Some (acc @ take (n + m) (content s), e', skip (n + m) s)"
        using m(1) less.prems by (simp add: content_skip skip_skip take_add)
      finally have res: "read_at_least_loop rd k mn acc s =
        Some (acc @ take (n + m) (content s), e', skip (n + m) s)" .
      have "length acc + (n + m) \<le> k" "n + m \<le> length (content s)"
        "mn \<le> length acc + (n + m) \<or> (n + m = length (content s) \<and> e' = Some (final s))"
        using m(2,3,4) n(2) less.prems(1) by (auto simp add: content_skip final_skip)
      with res True show ?thesis by (intro exI [of _ "n + m"] exI [of _ e']) simp
    qed
  qed
qed

text \<open>
  \<^verbatim>\<open>io.ReadFull\<close> returns, whatever the sizes of the chunks, and its result is a function of the bytes
  to come alone.
\<close>

lemma read_full_enough:
  assumes "ok s" "n \<le> length (content s)"
  shows "read_full rd n s = Some (take n (content s), None, skip n s)"
proof -
  from read_at_least_loop_result [of s n n "[]"] assms obtain m e where
    m: "read_at_least_loop rd n n [] s = Some (take m (content s), e, skip m s)"
    "m \<le> n" "m \<le> length (content s)" "n \<le> m \<or> m = length (content s)" by auto
  then have "m = n" using assms by auto
  with m assms show ?thesis by (simp add: read_full_def read_at_least_def)
qed

lemma read_full_short:
  assumes "ok s" "length (content s) < n"
  shows "read_full rd n s =
    Some (content s, Some (short_error (content s) (final s)), skip (length (content s)) s)"
proof -
  from read_at_least_loop_result [of s n n "[]"] assms obtain m e where
    m: "read_at_least_loop rd n n [] s = Some (take m (content s), e, skip m s)"
    "m \<le> length (content s)" "n \<le> m \<or> (m = length (content s) \<and> e = Some (final s))" by auto
  then have "m = length (content s)" "e = Some (final s)" using assms by auto
  with m assms show ?thesis by (auto simp add: read_full_def read_at_least_def short_error_def)
qed

lemma read_at_least_result:
  assumes "ok s" "mn \<le> k" "content s \<noteq> []" "0 < mn" "mn \<le> length (content s)"
  shows "\<exists>n. mn \<le> n \<and> n \<le> k \<and> n \<le> length (content s)
    \<and> read_at_least rd k mn s = Some (take n (content s), None, skip n s)"
proof -
  from read_at_least_loop_result [of s mn k "[]"] assms obtain n e where
    n: "read_at_least_loop rd k mn [] s = Some (take n (content s), e, skip n s)"
    "n \<le> k" "n \<le> length (content s)" "mn \<le> n \<or> n = length (content s)" by auto
  then have "mn \<le> n" using assms by auto
  with n assms show ?thesis by (intro exI [of _ n]) (simp add: read_at_least_def)
qed

lemma read_at_least_empty:
  assumes "ok s" "mn \<le> k" "content s = []" "0 < mn"
  shows "read_at_least rd k mn s = Some ([], Some (final s), s)"
proof -
  from read_at_least_loop_result [of s mn k "[]"] assms obtain e where
    "read_at_least_loop rd k mn [] s = Some ([], Some (final s), skip 0 s)" by auto
  then show ?thesis using assms by (simp add: read_at_least_def skip_0)
qed

lemma read_full_returns:
  assumes "ok s"
  shows "\<exists>bs e s'. read_full rd n s = Some (bs, e, s') \<and> ok s'
    \<and> (e = None \<longrightarrow> length bs = n \<and> content s = bs @ content s')"
proof (cases "n \<le> length (content s)")
  case True
  then show ?thesis using read_full_enough [OF assms True] assms
    by (simp add: ok_skip content_skip)
next
  case False
  then show ?thesis using read_full_short [OF assms, of n] assms by (simp add: ok_skip)
qed

end

interpretation conn_src: exact_source conn_read conn_content conn_final conn_skip conn_ok
proof
  fix s :: conn and k assume "conn_ok s" "0 < (k :: nat)"
  then show "\<exists>n e. n \<le> k \<and> n \<le> length (conn_content s)
      \<and> conn_read k s = Some (take n (conn_content s), e, conn_skip n s)
      \<and> (e = None \<longrightarrow> 0 < n) \<and> (\<forall>er. e = Some er \<longrightarrow> er = conn_final s \<and> n = length (conn_content s))"
  proof (cases "closed s \<or> rx s = []")
    case True
    then show ?thesis using \<open>0 < k\<close>
      by (intro exI [of _ 0] exI [of _ "Some (conn_final s)"])
        (auto simp add: conn_read_def conn_content_def conn_final_def conn_skip_def)
  next
    case False
    then obtain ch rest where rx: "rx s = ch # rest" and op: "\<not> closed s"
      by (auto simp add: neq_Nil_conv)
    have ne: "ch \<noteq> []" "[] \<notin> set rest" using \<open>conn_ok s\<close> rx by (auto simp add: conn_ok_def)
    show ?thesis
    proof (cases "length ch \<le> k")
      case True
      with rx op ne \<open>0 < k\<close> show ?thesis
        by (intro exI [of _ "length ch"]
            exI [of _ "if rest = [] \<and> rx_eager s then Some (rx_end s) else None"])
          (auto simp add: conn_read_def conn_content_def conn_final_def conn_skip_def)
    next
      case False
      with rx op \<open>0 < k\<close> show ?thesis
        by (intro exI [of _ k] exI [of _ None])
          (auto simp add: conn_read_def conn_content_def conn_final_def conn_skip_def)
    qed
  qed
qed (auto simp add: conn_ok_def conn_content_def conn_final_def conn_skip_def drop_chunks_add)

section \<open>The contract of a writer, and io.Copy\<close>

text \<open>
  \<^verbatim>\<open>io.Copy\<close> with its buffer of 32 KiB: read, write what was read, stop at a write error, a short
  write, or the reader's error; end of file is success. It returns the number of bytes written.
\<close>

definition err_invalid_write :: go_error where
  "err_invalid_write = ErrText ''invalid write result''"

definition copy_chunk :: "'s writer \<Rightarrow> byte list \<Rightarrow> 's \<Rightarrow> nat \<times> go_error option \<times> 's" where
  "copy_chunk wr bs s =
     (if bs = [] then (0, None, s)
      else case wr bs s of (nw, ew, s') \<Rightarrow>
        if length bs < nw then (0, Some (case ew of None \<Rightarrow> err_invalid_write | Some e \<Rightarrow> e), s')
        else if ew \<noteq> None then (nw, ew, s')
        else if nw \<noteq> length bs then (nw, Some ErrShortWrite, s')
        else (nw, None, s'))"

partial_function (option) io_copy_loop ::
  "'s reader \<Rightarrow> 's writer \<Rightarrow> nat \<Rightarrow> 's \<Rightarrow> (nat \<times> go_error option \<times> 's) option"
  where
  "io_copy_loop rd wr written s =
     Option.bind (rd 32768 s) (\<lambda>(bs, er, s1).
       case copy_chunk wr bs s1 of (nw, ew, s2) \<Rightarrow>
         (case ew of
            Some e \<Rightarrow> Some (written + nw, Some e, s2)
          | None \<Rightarrow>
              (case er of
                 Some e \<Rightarrow> Some (written + nw, (if e = EOF then None else Some e), s2)
               | None \<Rightarrow> io_copy_loop rd wr (written + nw) s2)))"

definition io_copy :: "'s reader \<Rightarrow> 's writer \<Rightarrow> 's \<Rightarrow> (nat \<times> go_error option \<times> 's) option" where
  "io_copy rd wr s = io_copy_loop rd wr 0 s"

text \<open>
  A pipe: the reader's side and the writer's side of one joint state do not disturb each other.
  \<open>sent\<close> is what the receiving end has been given so far, in the form it was handed to the writer.
\<close>

locale pipe = byte_source rd content final rank ok
  for rd :: "nat \<Rightarrow> 's \<Rightarrow> (byte list \<times> go_error option \<times> 's) option"
    and content :: "'s \<Rightarrow> byte list"
    and final :: "'s \<Rightarrow> go_error"
    and rank :: "'s \<Rightarrow> nat"
    and ok :: "'s \<Rightarrow> bool" +
  fixes wr :: "byte list \<Rightarrow> 's \<Rightarrow> nat \<times> go_error option \<times> 's"
    and sent :: "'s \<Rightarrow> byte list"
    and okw :: "'s \<Rightarrow> bool"
  assumes rd_writer: "rd k s = Some (bs, e, s') \<Longrightarrow> sent s' = sent s \<and> (okw s \<longrightarrow> okw s')"
    and wr_step: "okw s \<Longrightarrow> bs \<noteq> [] \<Longrightarrow> wr bs s = (n, e, s') \<Longrightarrow>
      okw s' \<and> n \<le> length bs \<and> (e = None \<longrightarrow> n = length bs) \<and> sent s' = sent s @ take n bs
      \<and> content s' = content s \<and> final s' = final s \<and> rank s' = rank s \<and> ok s' = ok s"
begin

lemma copy_chunk_step:
  assumes "okw s" "copy_chunk wr bs s = (n, e, s')"
  shows "okw s' \<and> n \<le> length bs \<and> (e = None \<longrightarrow> n = length bs) \<and> sent s' = sent s @ take n bs
      \<and> content s' = content s \<and> final s' = final s \<and> rank s' = rank s \<and> ok s' = ok s"
proof (cases "bs = []")
  case True
  with assms show ?thesis by (simp add: copy_chunk_def)
next
  case False
  obtain m em t where w: "wr bs s = (m, em, t)" by (cases "wr bs s")
  from wr_step [OF \<open>okw s\<close> False w] assms False w show ?thesis
    by (auto simp add: copy_chunk_def split: if_splits)
qed

text \<open>
  \<^verbatim>\<open>io.Copy\<close> returns; what it delivered is the first \<open>n\<close> bytes of the source for the \<open>n\<close> it reports; and
  if it reports no error the source had ended and every byte was delivered. If the writer never
  fails (an invariant \<open>good\<close> of the joint state sees to it), everything is delivered and the only
  error left is that of the source.
\<close>

lemma io_copy_loop_result:
  assumes "ok s" "okw s"
  shows "\<exists>n e s'. io_copy_loop rd wr w s = Some (w + n, e, s') \<and> okw s'
    \<and> n \<le> length (content s) \<and> sent s' = sent s @ take n (content s)
    \<and> (e = None \<longrightarrow> n = length (content s) \<and> final s = EOF)"
  using assms
proof (induction "rank s" arbitrary: s w rule: less_induct)
  case less
  from rd_step [OF less.prems(1), of 32768] obtain bs e s1 where r: "rd 32768 s = Some (bs, e, s1)"
    "e = None \<longrightarrow> ok s1 \<and> content s = bs @ content s1 \<and> final s1 = final s \<and> rank s1 < rank s"
    "\<forall>er. e = Some er \<longrightarrow> er = final s \<and> content s = bs" by auto
  obtain nw ew s2 where c: "copy_chunk wr bs s1 = (nw, ew, s2)" by (cases "copy_chunk wr bs s1")
  have s1: "okw s1" "sent s1 = sent s" using rd_writer [OF r(1)] less.prems(2) by auto
  note k = copy_chunk_step [OF s1(1) c]
  show ?case
  proof (cases "ew = None \<and> e = None")
    case False
    with r c k s1 show ?thesis
      by (subst io_copy_loop.simps) (auto split: option.splits)
  next
    case True
    with r k have "rank s2 < rank s" "ok s2" "okw s2" by auto
    from less.hyps [OF this, of "w + nw"] obtain n e' s' where
      n: "io_copy_loop rd wr (w + nw) s2 = Some (w + nw + n, e', s')" "okw s'"
      "n \<le> length (content s2)" "sent s' = sent s2 @ take n (content s2)"
      "e' = None \<longrightarrow> n = length (content s2) \<and> final s2 = EOF" by blast
    have "io_copy_loop rd wr w s = Some (w + (nw + n), e', s')"
      using r c True n(1) by (subst io_copy_loop.simps) (simp add: add.assoc)
    with n r k True s1 show ?thesis by (intro exI [of _ "nw + n"] exI) auto
  qed
qed

lemma io_copy_result:
  assumes "ok s" "okw s"
  shows "\<exists>n e s'. io_copy rd wr s = Some (n, e, s') \<and> okw s'
    \<and> n \<le> length (content s) \<and> sent s' = sent s @ take n (content s)
    \<and> (e = None \<longrightarrow> n = length (content s) \<and> final s = EOF)"
  using io_copy_loop_result [OF assms, of 0] by (simp add: io_copy_def)

lemma io_copy_loop_all:
  assumes "ok s" "okw s" "good s"
    and rd_good: "\<And>s k bs e s'. good s \<Longrightarrow> rd k s = Some (bs, e, s') \<Longrightarrow> good s'"
    and wr_good: "\<And>s bs n e s'. good s \<Longrightarrow> wr bs s = (n, e, s') \<Longrightarrow> e = None \<and> good s'"
  shows "\<exists>s'. io_copy_loop rd wr w s =
      Some (w + length (content s), (if final s = EOF then None else Some (final s)), s')
    \<and> okw s' \<and> good s' \<and> sent s' = sent s @ content s"
  using assms(1,2,3)
proof (induction "rank s" arbitrary: s w rule: less_induct)
  case less
  from rd_step [OF less.prems(1), of 32768] obtain bs e s1 where r: "rd 32768 s = Some (bs, e, s1)"
    "e = None \<longrightarrow> ok s1 \<and> content s = bs @ content s1 \<and> final s1 = final s \<and> rank s1 < rank s"
    "\<forall>er. e = Some er \<longrightarrow> er = final s \<and> content s = bs" by auto
  have g1: "good s1" and s1: "okw s1" "sent s1 = sent s"
    using rd_good [OF less.prems(3) r(1)] rd_writer [OF r(1)] less.prems(2) by auto
  obtain nw ew s2 where c: "copy_chunk wr bs s1 = (nw, ew, s2)" by (cases "copy_chunk wr bs s1")
  note k = copy_chunk_step [OF s1(1) c]
  have "ew = None \<and> good s2"
  proof (cases "bs = []")
    case False
    obtain m em t where w: "wr bs s1 = (m, em, t)" by (cases "wr bs s1")
    from wr_step [OF s1(1) False w] wr_good [OF g1 w] False w c show ?thesis
      by (simp add: copy_chunk_def split: if_splits)
  qed (use c g1 in \<open>simp add: copy_chunk_def\<close>)
  then have ew: "ew = None" "nw = length bs" and g2: "good s2" using k by auto
  show ?case
  proof (cases e)
    case (Some er)
    with r c ew k s1 g2 show ?thesis by (subst io_copy_loop.simps) simp
  next
    case None
    with r k have "rank s2 < rank s" "ok s2" "okw s2" by auto
    from less.hyps [OF this g2, of "w + nw"] obtain s' where
      "io_copy_loop rd wr (w + nw) s2 =
        Some (w + nw + length (content s2), (if final s2 = EOF then None else Some (final s2)), s')"
      "okw s'" "good s'" "sent s' = sent s2 @ content s2" by blast
    with r c ew None k s1 show ?thesis by (subst io_copy_loop.simps) simp
  qed
qed

end

text \<open>Two sockets side by side: reading the first, writing the second.\<close>

definition rd_fst :: "'a reader \<Rightarrow> ('a \<times> 'b) reader" where
  "rd_fst rd k s = map_option (\<lambda>(bs, e, a). (bs, e, (a, snd s))) (rd k (fst s))"

definition rd_snd :: "'b reader \<Rightarrow> ('a \<times> 'b) reader" where
  "rd_snd rd k s = map_option (\<lambda>(bs, e, b). (bs, e, (fst s, b))) (rd k (snd s))"

definition wr_fst :: "'a writer \<Rightarrow> ('a \<times> 'b) writer" where
  "wr_fst wr bs s = (case wr bs (fst s) of (n, e, a) \<Rightarrow> (n, e, (a, snd s)))"

definition wr_snd :: "'b writer \<Rightarrow> ('a \<times> 'b) writer" where
  "wr_snd wr bs s = (case wr bs (snd s) of (n, e, b) \<Rightarrow> (n, e, (fst s, b)))"

lemma conn_write_step:
  "conn_write bs c = (n, e, c') \<Longrightarrow>
   n \<le> length bs \<and> (e = None \<longrightarrow> n = length bs) \<and> tx c' = tx c @ take n bs
   \<and> rx c' = rx c \<and> rx_end c' = rx_end c \<and> rx_eager c' = rx_eager c \<and> closed c' = closed c"
  by (auto simp add: conn_write_def split: if_splits option.splits)

lemma conn_read_frame:
  "conn_read k c = Some (bs, e, c') \<Longrightarrow>
   tx c' = tx c \<and> tx_cap c' = tx_cap c \<and> tx_err c' = tx_err c \<and> closed c' = closed c
   \<and> wr_closed c' = wr_closed c \<and> rx_end c' = rx_end c \<and> deadline c' = deadline c"
  by (auto simp add: conn_read_def split: if_splits list.splits)

text \<open>The contract of a writer alone, and a reader and a writer on two sides of a relay.\<close>

locale byte_sink =
  fixes wr :: "byte list \<Rightarrow> 't \<Rightarrow> nat \<times> go_error option \<times> 't"
    and sent :: "'t \<Rightarrow> byte list"
    and okw :: "'t \<Rightarrow> bool"
  assumes wr_sink: "okw t \<Longrightarrow> bs \<noteq> [] \<Longrightarrow> wr bs t = (n, e, t') \<Longrightarrow>
    okw t' \<and> n \<le> length bs \<and> (e = None \<longrightarrow> n = length bs) \<and> sent t' = sent t @ take n bs"

locale relay_direction = byte_source rd content final rank ok + byte_sink wr sent okw
  for rd :: "nat \<Rightarrow> 's \<Rightarrow> (byte list \<times> go_error option \<times> 's) option"
    and content :: "'s \<Rightarrow> byte list"
    and final :: "'s \<Rightarrow> go_error"
    and rank :: "'s \<Rightarrow> nat"
    and ok :: "'s \<Rightarrow> bool"
    and wr :: "byte list \<Rightarrow> 't \<Rightarrow> nat \<times> go_error option \<times> 't"
    and sent :: "'t \<Rightarrow> byte list"
    and okw :: "'t \<Rightarrow> bool"

sublocale relay_direction \<subseteq> fwd: pipe "rd_fst rd" "\<lambda>s. content (fst s)" "\<lambda>s. final (fst s)"
  "\<lambda>s. rank (fst s)" "\<lambda>s. ok (fst s)" "wr_snd wr" "\<lambda>s. sent (snd s)" "\<lambda>s. okw (snd s)"
proof
  fix s :: "'s \<times> 't" and k assume "ok (fst s)" "0 < (k :: nat)"
  from rd_step [OF this] obtain bs e a where "rd k (fst s) = Some (bs, e, a)" "length bs \<le> k"
    "e = None \<longrightarrow> ok a \<and> content (fst s) = bs @ content a \<and> final a = final (fst s) \<and> rank a < rank (fst s)"
    "\<forall>er. e = Some er \<longrightarrow> er = final (fst s) \<and> content (fst s) = bs" by auto
  then show "\<exists>bs e s'. rd_fst rd k s = Some (bs, e, s') \<and> length bs \<le> k
      \<and> (e = None \<longrightarrow> ok (fst s') \<and> content (fst s) = bs @ content (fst s')
           \<and> final (fst s') = final (fst s) \<and> rank (fst s') < rank (fst s))
      \<and> (\<forall>er. e = Some er \<longrightarrow> er = final (fst s) \<and> content (fst s) = bs)"
    by (intro exI [of _ bs] exI [of _ e] exI [of _ "(a, snd s)"]) (simp add: rd_fst_def)
next
  fix s :: "'s \<times> 't" and k bs e s'
  assume "rd_fst rd k s = Some (bs, e, s')"
  then show "sent (snd s') = sent (snd s) \<and> (okw (snd s) \<longrightarrow> okw (snd s'))"
    by (auto simp add: rd_fst_def)
next
  fix s :: "'s \<times> 't" and bs n e s'
  assume ok: "okw (snd s)" and ne: "bs \<noteq> []" and w: "wr_snd wr bs s = (n, e, s')"
  obtain t' where t': "wr bs (snd s) = (n, e, t')" "fst s' = fst s" "snd s' = t'"
    using w by (auto simp add: wr_snd_def split: prod.splits)
  from wr_sink [OF ok ne t'(1)] t'(2,3)
  show "okw (snd s') \<and> n \<le> length bs \<and> (e = None \<longrightarrow> n = length bs)
      \<and> sent (snd s') = sent (snd s) @ take n bs \<and> content (fst s') = content (fst s)
      \<and> final (fst s') = final (fst s) \<and> rank (fst s') = rank (fst s)
      \<and> ok (fst s') = ok (fst s)" by simp
qed

sublocale relay_direction \<subseteq> bwd: pipe "rd_snd rd" "\<lambda>s. content (snd s)" "\<lambda>s. final (snd s)"
  "\<lambda>s. rank (snd s)" "\<lambda>s. ok (snd s)" "wr_fst wr" "\<lambda>s. sent (fst s)" "\<lambda>s. okw (fst s)"
proof
  fix s :: "'t \<times> 's" and k assume "ok (snd s)" "0 < (k :: nat)"
  from rd_step [OF this] obtain bs e a where "rd k (snd s) = Some (bs, e, a)" "length bs \<le> k"
    "e = None \<longrightarrow> ok a \<and> content (snd s) = bs @ content a \<and> final a = final (snd s) \<and> rank a < rank (snd s)"
    "\<forall>er. e = Some er \<longrightarrow> er = final (snd s) \<and> content (snd s) = bs" by auto
  then show "\<exists>bs e s'. rd_snd rd k s = Some (bs, e, s') \<and> length bs \<le> k
      \<and> (e = None \<longrightarrow> ok (snd s') \<and> content (snd s) = bs @ content (snd s')
           \<and> final (snd s') = final (snd s) \<and> rank (snd s') < rank (snd s))
      \<and> (\<forall>er. e = Some er \<longrightarrow> er = final (snd s) \<and> content (snd s) = bs)"
    by (intro exI [of _ bs] exI [of _ e] exI [of _ "(fst s, a)"]) (simp add: rd_snd_def)
next
  fix s :: "'t \<times> 's" and k bs e s'
  assume "rd_snd rd k s = Some (bs, e, s')"
  then show "sent (fst s') = sent (fst s) \<and> (okw (fst s) \<longrightarrow> okw (fst s'))"
    by (auto simp add: rd_snd_def)
next
  fix s :: "'t \<times> 's" and bs n e s'
  assume ok: "okw (fst s)" and ne: "bs \<noteq> []" and w: "wr_fst wr bs s = (n, e, s')"
  obtain t' where t': "wr bs (fst s) = (n, e, t')" "snd s' = snd s" "fst s' = t'"
    using w by (auto simp add: wr_fst_def split: prod.splits)
  from wr_sink [OF ok ne t'(1)] t'(2,3)
  show "okw (fst s') \<and> n \<le> length bs \<and> (e = None \<longrightarrow> n = length bs)
      \<and> sent (fst s') = sent (fst s) @ take n bs \<and> content (snd s') = content (snd s)
      \<and> final (snd s') = final (snd s) \<and> rank (snd s') = rank (snd s)
      \<and> ok (snd s') = ok (snd s)" by simp
qed

text \<open>Both directions at once: a copy through a writer that never fails delivers the whole source.\<close>

context relay_direction
begin

lemma up_delivers:
  assumes "ok s" "okw t" "good t"
    and "\<And>t bs n e t'. good t \<Longrightarrow> wr bs t = (n, e, t') \<Longrightarrow> e = None \<and> good t'"
  shows "\<exists>s' t'. io_copy (rd_fst rd) (wr_snd wr) (s, t) =
      Some (length (content s), (if final s = EOF then None else Some (final s)), (s', t'))
    \<and> okw t' \<and> good t' \<and> sent t' = sent t @ content s"
proof -
  have "\<exists>st'. io_copy_loop (rd_fst rd) (wr_snd wr) 0 (s, t) =
      Some (0 + length (content (fst (s, t))),
            (if final (fst (s, t)) = EOF then None else Some (final (fst (s, t)))), st')
    \<and> okw (snd st') \<and> good (snd st')
    \<and> sent (snd st') = sent (snd (s, t)) @ content (fst (s, t))"
  proof (rule fwd.io_copy_loop_all [where good = "\<lambda>st. good (snd st)"])
    fix st :: "'s \<times> 't" and bs n e st' assume "good (snd st)" "wr_snd wr bs st = (n, e, st')"
    then show "e = None \<and> good (snd st')"
      using assms(4) by (auto simp add: wr_snd_def split: prod.splits)
  qed (use assms in \<open>auto simp add: rd_fst_def\<close>)
  then show ?thesis by (auto simp add: io_copy_def)
qed

lemma down_delivers:
  assumes "ok s" "okw t" "good t"
    and "\<And>t bs n e t'. good t \<Longrightarrow> wr bs t = (n, e, t') \<Longrightarrow> e = None \<and> good t'"
  shows "\<exists>s' t'. io_copy (rd_snd rd) (wr_fst wr) (t, s) =
      Some (length (content s), (if final s = EOF then None else Some (final s)), (t', s'))
    \<and> okw t' \<and> good t' \<and> sent t' = sent t @ content s"
proof -
  have "\<exists>st'. io_copy_loop (rd_snd rd) (wr_fst wr) 0 (t, s) =
      Some (0 + length (content (snd (t, s))),
            (if final (snd (t, s)) = EOF then None else Some (final (snd (t, s)))), st')
    \<and> okw (fst st') \<and> good (fst st')
    \<and> sent (fst st') = sent (fst (t, s)) @ content (snd (t, s))"
  proof (rule bwd.io_copy_loop_all [where good = "\<lambda>st. good (fst st)"])
    fix st :: "'t \<times> 's" and bs n e st' assume "good (fst st)" "wr_fst wr bs st = (n, e, st')"
    then show "e = None \<and> good (fst st')"
      using assms(4) by (auto simp add: wr_fst_def split: prod.splits)
  qed (use assms in \<open>auto simp add: rd_snd_def\<close>)
  then show ?thesis by (auto simp add: io_copy_def)
qed

end

text \<open>A plain socket as a sink, and the relay between two plain sockets.\<close>

interpretation conn_snk: byte_sink conn_write tx "\<lambda>_. True"
  by unfold_locales (auto dest!: conn_write_step)

interpretation plain_relay: relay_direction conn_read conn_content conn_final
  "\<lambda>c. length (conn_content c)" conn_ok conn_write tx "\<lambda>_. True"
  by unfold_locales

text \<open>A socket that will take no more bytes.\<close>

definition stuck :: "conn \<Rightarrow> bool" where
  "stuck c \<longleftrightarrow> closed c \<or> wr_closed c \<or> tx_cap c = Some 0"

lemma conn_write_stuck:
  "stuck c \<Longrightarrow> bs \<noteq> [] \<Longrightarrow> conn_write bs c = (n, e, c') \<Longrightarrow> n = 0 \<and> e \<noteq> None \<and> stuck c' \<and> tx c' = tx c"
  by (auto simp add: stuck_def conn_write_def split: if_splits option.splits)

lemma conn_write_short:
  "conn_write bs c = (n, e, c') \<Longrightarrow> n \<noteq> length bs \<or> e \<noteq> None \<Longrightarrow> stuck c'"
  by (auto simp add: stuck_def conn_write_def split: if_splits option.splits)

text \<open>A socket whose writes all succeed.\<close>

definition open_writer :: "conn \<Rightarrow> bool" where
  "open_writer c \<longleftrightarrow> \<not> closed c \<and> \<not> wr_closed c \<and> tx_cap c = None"

lemma open_writer_write:
  "open_writer c \<Longrightarrow> conn_write bs c = (n, e, c') \<Longrightarrow> e = None \<and> n = length bs \<and> open_writer c'"
  by (auto simp add: open_writer_def conn_write_def)

section \<open>Sequencing with early return\<close>

text \<open>
  A function body that reads and writes one connection and returns at the first error: its value at a
  state is \<open>None\<close> if it panics or never returns, else the error or the result and the state.
\<close>

type_synonym ('s, 'a) go = "'s \<Rightarrow> ((go_error + 'a) \<times> 's) option"

definition go_return :: "'a \<Rightarrow> ('s, 'a) go" where
  "go_return a s = Some (Inr a, s)"

definition go_fail :: "go_error \<Rightarrow> ('s, 'a) go" where
  "go_fail e s = Some (Inl e, s)"

definition go_bind :: "('s, 'a) go \<Rightarrow> ('a \<Rightarrow> ('s, 'b) go) \<Rightarrow> ('s, 'b) go" where
  "go_bind m f s = Option.bind (m s) (\<lambda>(r, s'). case r of Inl e \<Rightarrow> Some (Inl e, s') | Inr a \<Rightarrow> f a s')"

text \<open>\<^verbatim>\<open>io.ReadFull\<close> into a buffer of \<open>n\<close> bytes; the error is passed through \<open>wrap\<close>.\<close>

definition go_read :: "'s reader \<Rightarrow> (go_error \<Rightarrow> go_error) \<Rightarrow> nat \<Rightarrow> ('s, byte list) go" where
  "go_read rd wrap n s =
     map_option (\<lambda>(bs, e, s'). ((case e of None \<Rightarrow> Inr bs | Some e \<Rightarrow> Inl (wrap e)), s')) (read_full rd n s)"

text \<open>A write whose error is returned, and one whose error is ignored.\<close>

definition go_write :: "'s writer \<Rightarrow> (go_error \<Rightarrow> go_error) \<Rightarrow> byte list \<Rightarrow> ('s, unit) go" where
  "go_write wr wrap bs s =
     (case wr bs s of (n, e, s') \<Rightarrow> Some ((case e of None \<Rightarrow> Inr () | Some e \<Rightarrow> Inl (wrap e)), s'))"

definition go_send :: "'s writer \<Rightarrow> byte list \<Rightarrow> ('s, unit) go" where
  "go_send wr bs s = (case wr bs s of (n, e, s') \<Rightarrow> Some (Inr (), s'))"

text \<open>A read whose error is ignored.\<close>

definition go_drain :: "'s reader \<Rightarrow> nat \<Rightarrow> ('s, unit) go" where
  "go_drain rd n s = map_option (\<lambda>(bs, e, s'). (Inr (), s')) (read_full rd n s)"

text \<open>The accesses \<^verbatim>\<open>xs[i]\<close> and \<^verbatim>\<open>xs[i:j]\<close> with their run-time checks.\<close>

definition go_at :: "'a list \<Rightarrow> nat \<Rightarrow> ('s, 'a) go" where
  "go_at xs i s = map_option (\<lambda>x. (Inr x, s)) (go_index xs i)"

definition go_cut :: "'a list \<Rightarrow> nat \<Rightarrow> nat \<Rightarrow> ('s, 'a list) go" where
  "go_cut xs i j s = map_option (\<lambda>x. (Inr x, s)) (go_slice xs i j)"

lemma go_at_Some [simp]: "i < length xs \<Longrightarrow> go_at xs i s = Some (Inr (xs ! i), s)"
  by (simp add: go_at_def)

lemma go_cut_Some [simp]: "i \<le> j \<Longrightarrow> j \<le> length xs \<Longrightarrow> go_cut xs i j s = Some (Inr (seg i j xs), s)"
  by (simp add: go_cut_def)

lemma go_return_eq [simp]: "go_return a s = Some (Inr a, s)"
  by (simp add: go_return_def)

lemma go_fail_eq [simp]: "go_fail e s = Some (Inl e, s)"
  by (simp add: go_fail_def)

lemma go_bind_Inr: "m s = Some (Inr a, s') \<Longrightarrow> go_bind m f s = f a s'"
  by (simp add: go_bind_def)

lemma go_bind_Inl: "m s = Some (Inl e, s') \<Longrightarrow> go_bind m f s = Some (Inl e, s')"
  by (simp add: go_bind_def)

context exact_source
begin

lemma go_read_enough:
  "ok s \<Longrightarrow> n \<le> length (content s) \<Longrightarrow> go_read rd wrap n s = Some (Inr (take n (content s)), skip n s)"
  by (simp add: go_read_def read_full_enough)

lemma go_read_short:
  "ok s \<Longrightarrow> length (content s) < n \<Longrightarrow>
   go_read rd wrap n s = Some (Inl (wrap (short_error (content s) (final s))), skip (length (content s)) s)"
  by (simp add: go_read_def read_full_short)

lemma go_drain_skip:
  "ok s \<Longrightarrow> go_drain rd n s = Some (Inr (), skip (min n (length (content s))) s)"
  by (cases "n \<le> length (content s)") (simp_all add: go_drain_def read_full_enough read_full_short min_def)

end

text \<open>
  Programs that return: \<open>yields P Q m\<close> says that \<open>m\<close> gives a result from every state satisfying \<open>P\<close>, leaves
  such a state, and that the value, when there is no error, satisfies \<open>Q\<close>. The run-time checks make \<open>Q\<close>
  necessary: what a program may index depends on how much it has read.
\<close>

definition yields :: "('s \<Rightarrow> bool) \<Rightarrow> ('a \<Rightarrow> bool) \<Rightarrow> ('s, 'a) go \<Rightarrow> bool" where
  "yields P Q m \<longleftrightarrow> (\<forall>s. P s \<longrightarrow> (\<exists>r s'. m s = Some (r, s') \<and> P s' \<and> (\<forall>a. r = Inr a \<longrightarrow> Q a)))"

lemma yieldsD: "yields P Q m \<Longrightarrow> P s \<Longrightarrow> \<exists>r s'. m s = Some (r, s') \<and> P s' \<and> (\<forall>a. r = Inr a \<longrightarrow> Q a)"
  by (simp add: yields_def)

lemma yields_return: "Q a \<Longrightarrow> yields P Q (go_return a)"
  by (simp add: yields_def)

lemma yields_fail: "yields P Q (go_fail e)"
  by (simp add: yields_def)

lemma yields_at: "i < length xs \<Longrightarrow> yields P (\<lambda>x. x = xs ! i) (go_at xs i)"
  by (simp add: yields_def)

lemma yields_cut: "i \<le> j \<Longrightarrow> j \<le> length xs \<Longrightarrow> yields P (\<lambda>x. x = seg i j xs) (go_cut xs i j)"
  by (simp add: yields_def)

lemma yields_bind:
  assumes "yields P Q m" "\<And>a. Q a \<Longrightarrow> yields P R (f a)"
  shows "yields P R (go_bind m f)"
  unfolding yields_def
proof (intro allI impI)
  fix s assume "P s"
  then obtain r s' where m: "m s = Some (r, s')" "P s'" "\<forall>a. r = Inr a \<longrightarrow> Q a" using yieldsD [OF assms(1)] by blast
  show "\<exists>r s'. go_bind m f s = Some (r, s') \<and> P s' \<and> (\<forall>a. r = Inr a \<longrightarrow> R a)"
  proof (cases r)
    case (Inr a)
    with m yieldsD [OF assms(2) m(2)] show ?thesis by (simp add: go_bind_def)
  qed (simp add: m go_bind_def)
qed

lemma yields_mono: "yields P Q m \<Longrightarrow> (\<And>a. Q a \<Longrightarrow> R a) \<Longrightarrow> yields P R m"
  by (fastforce simp add: yields_def)

context exact_source
begin

lemma yields_read: "yields ok (\<lambda>bs. length bs = n) (go_read rd wrap n)"
  unfolding yields_def
proof (intro allI impI)
  fix s assume "ok s"
  from read_full_returns [OF this, of n] obtain bs e s' where "read_full rd n s = Some (bs, e, s')" "ok s'"
    "e = None \<longrightarrow> length bs = n" by blast
  then show "\<exists>r s'. go_read rd wrap n s = Some (r, s') \<and> ok s' \<and> (\<forall>a. r = Inr a \<longrightarrow> length a = n)"
    by (cases e) (auto simp add: go_read_def)
qed

lemma yields_drain: "yields ok (\<lambda>_. True) (go_drain rd n)"
  unfolding yields_def go_drain_def using read_full_returns [of _ n] by fastforce

end

text \<open>Two sockets that differ only in how the bytes to come are cut into chunks.\<close>

definition same_bytes :: "conn \<Rightarrow> conn \<Rightarrow> bool" where
  "same_bytes c d \<longleftrightarrow> conn_ok c \<and> conn_ok d \<and> concat (rx c) = concat (rx d)
     \<and> c\<lparr>rx := [], rx_eager := False\<rparr> = d\<lparr>rx := [], rx_eager := False\<rparr>"

text \<open>A program whose outcome, a panic included, does not depend on the chunks.\<close>

definition chunk_free :: "(conn, 'a) go \<Rightarrow> bool" where
  "chunk_free m \<longleftrightarrow> (\<forall>c d. same_bytes c d \<longrightarrow> rel_option (rel_prod (=) same_bytes) (m c) (m d))"

lemma same_bytes_fields:
  assumes "same_bytes c d"
  shows "conn_ok c" "conn_ok d" "conn_content d = conn_content c" "conn_final d = conn_final c"
    "tx d = tx c" "tx_cap d = tx_cap c" "tx_err d = tx_err c" "closed d = closed c"
    "wr_closed d = wr_closed c" "deadline d = deadline c" "rx_end d = rx_end c"
proof -
  have eq: "c\<lparr>rx := [], rx_eager := False\<rparr> = d\<lparr>rx := [], rx_eager := False\<rparr>"
    using assms by (simp add: same_bytes_def)
  note f = arg_cong [OF eq, of tx] arg_cong [OF eq, of tx_cap] arg_cong [OF eq, of tx_err]
    arg_cong [OF eq, of closed] arg_cong [OF eq, of wr_closed] arg_cong [OF eq, of deadline]
    arg_cong [OF eq, of rx_end]
  show "tx d = tx c" "tx_cap d = tx_cap c" "tx_err d = tx_err c" "closed d = closed c"
    "wr_closed d = wr_closed c" "deadline d = deadline c" "rx_end d = rx_end c"
    using f by simp_all
  with assms show "conn_ok c" "conn_ok d" "conn_content d = conn_content c" "conn_final d = conn_final c"
    by (simp_all add: same_bytes_def conn_content_def conn_final_def)
qed

lemma same_bytesI:
  assumes "conn_ok c" "conn_ok d" "concat (rx c) = concat (rx d)" "tx d = tx c" "tx_cap d = tx_cap c"
    "tx_err d = tx_err c" "closed d = closed c" "wr_closed d = wr_closed c" "deadline d = deadline c"
    "rx_end d = rx_end c"
  shows "same_bytes c d"
  using assms by (simp add: same_bytes_def)

lemma same_bytes_skip:
  assumes "same_bytes c d"
  shows "same_bytes (conn_skip n c) (conn_skip n d)"
  using same_bytes_fields [OF assms] assms
  by (intro same_bytesI) (auto simp add: conn_skip_def conn_ok_def same_bytes_def)

lemma same_bytes_write:
  assumes "same_bytes c d" "conn_write bs c = (n, e, c')"
  shows "\<exists>d'. conn_write bs d = (n, e, d') \<and> same_bytes c' d'"
proof -
  note f = same_bytes_fields [OF assms(1)]
  have "concat (rx c) = concat (rx d)" using assms(1) by (simp add: same_bytes_def)
  with f assms(2) show ?thesis
    by (auto simp add: conn_write_def conn_ok_def split: if_splits option.splits intro!: same_bytesI)
qed

lemma chunk_free_return: "chunk_free (go_return a)"
  by (simp add: chunk_free_def)

lemma chunk_free_fail: "chunk_free (go_fail e)"
  by (simp add: chunk_free_def)

lemma chunk_free_at: "chunk_free (go_at xs i)"
  by (cases "go_index xs i") (simp_all add: chunk_free_def go_at_def)

lemma chunk_free_cut: "chunk_free (go_cut xs i j)"
  by (cases "go_slice xs i j") (simp_all add: chunk_free_def go_cut_def)

lemma chunk_free_bind:
  assumes "chunk_free m" "\<And>a. chunk_free (f a)"
  shows "chunk_free (go_bind m f)"
  unfolding chunk_free_def
proof (intro allI impI)
  fix c d assume "same_bytes c d"
  then have "rel_option (rel_prod (=) same_bytes) (m c) (m d)" using assms(1) by (simp add: chunk_free_def)
  then consider "m c = None" "m d = None"
    | r c' d' where "m c = Some (r, c')" "m d = Some (r, d')" "same_bytes c' d'"
    by (cases rule: option.rel_cases) auto
  then show "rel_option (rel_prod (=) same_bytes) (go_bind m f c) (go_bind m f d)"
  proof cases
    case 2
    then show ?thesis using assms(2) by (cases r) (simp_all add: go_bind_def chunk_free_def)
  qed (simp add: go_bind_def)
qed

lemma read_full_same_bytes:
  assumes "same_bytes c d"
  shows "\<exists>bs e c' d'. read_full conn_read n c = Some (bs, e, c')
    \<and> read_full conn_read n d = Some (bs, e, d') \<and> same_bytes c' d'"
proof -
  note f = same_bytes_fields [OF assms]
  show ?thesis
    using conn_src.read_full_enough [OF f(1), of n] conn_src.read_full_enough [OF f(2), of n]
      conn_src.read_full_short [OF f(1), of n] conn_src.read_full_short [OF f(2), of n]
      same_bytes_skip [OF assms] f(3,4)
    by (cases "n \<le> length (conn_content c)") simp_all
qed

lemma chunk_free_read: "chunk_free (go_read conn_read wrap n)"
  unfolding chunk_free_def go_read_def
proof (intro allI impI)
  fix c d assume "same_bytes c d"
  from read_full_same_bytes [OF this, of n] show "rel_option (rel_prod (=) same_bytes)
      (map_option (\<lambda>(bs, e, s'). (case e of None \<Rightarrow> Inr bs | Some e \<Rightarrow> Inl (wrap e), s')) (read_full conn_read n c))
      (map_option (\<lambda>(bs, e, s'). (case e of None \<Rightarrow> Inr bs | Some e \<Rightarrow> Inl (wrap e), s')) (read_full conn_read n d))"
    by auto
qed

lemma chunk_free_drain: "chunk_free (go_drain conn_read n)"
  unfolding chunk_free_def go_drain_def
proof (intro allI impI)
  fix c d assume "same_bytes c d"
  from read_full_same_bytes [OF this, of n] show "rel_option (rel_prod (=) same_bytes)
      (map_option (\<lambda>(bs, e, s'). (Inr (), s')) (read_full conn_read n c))
      (map_option (\<lambda>(bs, e, s'). (Inr (), s')) (read_full conn_read n d))"
    by auto
qed

lemma chunk_free_write: "chunk_free (go_write conn_write wrap bs)"
  unfolding chunk_free_def go_write_def
proof (intro allI impI)
  fix c d assume s: "same_bytes c d"
  obtain n e c' where w: "conn_write bs c = (n, e, c')" by (cases "conn_write bs c")
  from same_bytes_write [OF s w] w show "rel_option (rel_prod (=) same_bytes)
      (case conn_write bs c of (n, e, s') \<Rightarrow> Some ((case e of None \<Rightarrow> Inr () | Some e \<Rightarrow> Inl (wrap e)), s'))
      (case conn_write bs d of (n, e, s') \<Rightarrow> Some ((case e of None \<Rightarrow> Inr () | Some e \<Rightarrow> Inl (wrap e)), s'))"
    by auto
qed

lemma chunk_free_send: "chunk_free (go_send conn_write bs)"
  unfolding chunk_free_def go_send_def
proof (intro allI impI)
  fix c d assume s: "same_bytes c d"
  obtain n e c' where w: "conn_write bs c = (n, e, c')" by (cases "conn_write bs c")
  from same_bytes_write [OF s w] w show "rel_option (rel_prod (=) same_bytes)
      (case conn_write bs c of (n, e, s') \<Rightarrow> Some (Inr (), s')) (case conn_write bs d of (n, e, s') \<Rightarrow> Some (Inr (), s'))"
    by auto
qed

lemma yields_conn_write: "yields conn_ok (\<lambda>_. True) (go_write conn_write wrap bs)"
  unfolding yields_def go_write_def
  by (auto split: prod.splits dest!: conn_write_step simp add: conn_ok_def)

lemma yields_conn_send: "yields conn_ok (\<lambda>_. True) (go_send conn_write bs)"
  unfolding yields_def go_send_def
  by (auto split: prod.splits dest!: conn_write_step simp add: conn_ok_def)

lemmas chunk_free_intros = chunk_free_return chunk_free_fail chunk_free_at chunk_free_cut chunk_free_bind
  chunk_free_read chunk_free_drain chunk_free_write chunk_free_send

lemmas yields_conn = conn_src.yields_read conn_src.yields_drain yields_conn_write yields_conn_send

text \<open>What an accepting socket looks like after \<open>bs\<close> was sent.\<close>

definition conn_put :: "byte list \<Rightarrow> conn \<Rightarrow> conn" where
  "conn_put bs c = c\<lparr>tx := tx c @ bs\<rparr>"

lemma conn_put_simps [io_simps]:
  "conn_content (conn_put bs c) = conn_content c" "conn_final (conn_put bs c) = conn_final c"
  "conn_ok (conn_put bs c) = conn_ok c" "open_writer (conn_put bs c) = open_writer c"
  "tx (conn_put bs c) = tx c @ bs" "closed (conn_put bs c) = closed c"
  "conn_skip n (conn_put bs c) = conn_put bs (conn_skip n c)"
  "open_writer (conn_skip n c) = open_writer c" "tx (conn_skip n c) = tx c"
  by (simp_all add: conn_put_def conn_content_def conn_final_def conn_ok_def open_writer_def conn_skip_def)

lemma conn_src_simps [io_simps]:
  "conn_ok c \<Longrightarrow> conn_content (conn_skip n c) = drop n (conn_content c)"
  "conn_ok c \<Longrightarrow> conn_final (conn_skip n c) = conn_final c"
  "conn_ok c \<Longrightarrow> conn_ok (conn_skip n c)"
  "conn_ok c \<Longrightarrow> conn_skip m (conn_skip n c) = conn_skip (n + m) c"
  by (simp_all add: conn_src.content_skip conn_src.final_skip conn_src.ok_skip conn_src.skip_skip)

lemma go_write_open [io_simps]:
  "open_writer c \<Longrightarrow> go_write conn_write wrap bs c = Some (Inr (), conn_put bs c)"
  "open_writer c \<Longrightarrow> go_send conn_write bs c = Some (Inr (), conn_put bs c)"
  "open_writer c \<Longrightarrow> conn_write bs c = (length bs, None, conn_put bs c)"
  by (simp_all add: go_write_def go_send_def conn_write_def open_writer_def conn_put_def)

lemmas conn_go_simps = io_simps conn_src.go_read_enough conn_src.go_drain_skip

section \<open>A two-way byte stream\<close>

text \<open>
  What the protocols rely on of a stream they both read and write (a TCP socket, a QUIC stream): an exact
  source whose incoming bytes writing does not touch, and which, while it is accepting (\<open>acc\<close>), takes
  every write whole; reading does not touch what was sent.
\<close>

locale duplex = exact_source rd content final skip ok
  for rd :: "nat \<Rightarrow> 's \<Rightarrow> (byte list \<times> go_error option \<times> 's) option"
    and content :: "'s \<Rightarrow> byte list"
    and final :: "'s \<Rightarrow> go_error"
    and skip :: "nat \<Rightarrow> 's \<Rightarrow> 's"
    and ok :: "'s \<Rightarrow> bool" +
  fixes wr :: "byte list \<Rightarrow> 's \<Rightarrow> nat \<times> go_error option \<times> 's"
    and sent :: "'s \<Rightarrow> byte list"
    and acc :: "'s \<Rightarrow> bool"
  assumes wr_acc: "acc s \<Longrightarrow> \<exists>s'. wr bs s = (length bs, None, s') \<and> acc s' \<and> sent s' = sent s @ bs"
    and wr_source: "wr bs s = (n, e, s') \<Longrightarrow> content s' = content s \<and> final s' = final s \<and> ok s' = ok s"
    and skip_sent: "sent (skip n s) = sent s"
    and skip_acc: "acc (skip n s) = acc s"
begin

lemma write_accepted:
  assumes "acc s" "ok s"
  shows "\<exists>s'. wr bs s = (length bs, None, s') \<and> acc s' \<and> ok s' \<and> sent s' = sent s @ bs
    \<and> content s' = content s \<and> final s' = final s"
  using wr_acc [OF assms(1), of bs] wr_source assms(2) by blast

lemma go_write_accepted:
  assumes "acc s" "ok s"
  shows "\<exists>s'. go_write wr wrap bs s = Some (Inr (), s') \<and> go_send wr bs s = Some (Inr (), s') \<and> acc s' \<and> ok s'
    \<and> sent s' = sent s @ bs \<and> content s' = content s \<and> final s' = final s"
  using write_accepted [OF assms, of bs] by (auto simp add: go_write_def go_send_def)

lemma yields_write: "yields ok (\<lambda>_. True) (go_write wr wrap bs)" "yields ok (\<lambda>_. True) (go_send wr bs)"
  unfolding yields_def go_write_def go_send_def using wr_source
  by (auto split: prod.splits)

lemma skip_facts:
  assumes "ok s"
  shows "ok (skip n s)" "content (skip n s) = drop n (content s)" "final (skip n s) = final s"
    "sent (skip n s) = sent s" "acc (skip n s) = acc s" "skip m (skip n s) = skip (n + m) s"
  using assms by (simp_all add: ok_skip content_skip final_skip skip_sent skip_acc skip_skip)

end

interpretation conn_duplex: duplex conn_read conn_content conn_final conn_skip conn_ok conn_write tx open_writer
proof
  fix s bs assume "open_writer s"
  then show "\<exists>s'. conn_write bs s = (length bs, None, s') \<and> open_writer s' \<and> tx s' = tx s @ bs"
    by (simp add: io_simps)
next
  fix s s' bs n e assume "conn_write bs s = (n, e, s')"
  from conn_write_step [OF this]
  show "conn_content s' = conn_content s \<and> conn_final s' = conn_final s \<and> conn_ok s' = conn_ok s"
    by (simp add: conn_content_def conn_final_def conn_ok_def)
qed (simp_all add: io_simps)

end
