(* ===== verification/Crypto.thy ===== *)
theory Crypto
  imports Prelude
begin

text \<open>
  The parts of Go's \<^verbatim>\<open>crypto\<close> packages the proxy calls, executable: \<^verbatim>\<open>sha256.Sum256\<close> (FIPS 180-4),
  \<^verbatim>\<open>aes.NewCipher\<close> with its block encryption (FIPS 197), and \<^verbatim>\<open>cipher.NewCTR\<close> with
  \<^verbatim>\<open>XORKeyStream\<close> as a stream that remembers its position. The proofs about the proxy use only the
  laws of the locale \<open>stream_cipher\<close>, which hold of the stream whatever the block cipher computes.
\<close>

section \<open>SHA-256\<close>

definition sha256_k :: "uint32 list" where
  "sha256_k = [
    1116352408, 1899447441, 3049323471, 3921009573, 961987163, 1508970993,
    2453635748, 2870763221, 3624381080, 310598401, 607225278, 1426881987,
    1925078388, 2162078206, 2614888103, 3248222580, 3835390401, 4022224774,
    264347078, 604807628, 770255983, 1249150122, 1555081692, 1996064986,
    2554220882, 2821834349, 2952996808, 3210313671, 3336571891, 3584528711,
    113926993, 338241895, 666307205, 773529912, 1294757372, 1396182291,
    1695183700, 1986661051, 2177026350, 2456956037, 2730485921, 2820302411,
    3259730800, 3345764771, 3516065817, 3600352804, 4094571909, 275423344,
    430227734, 506948616, 659060556, 883997877, 958139571, 1322822218,
    1537002063, 1747873779, 1955562222, 2024104815, 2227730452, 2361852424,
    2428436474, 2756734187, 3204031479, 3329325298]"

definition sha256_init :: "uint32 list" where
  "sha256_init = [
    1779033703, 3144134277, 1013904242, 2773480762,
    1359893119, 2600822924, 528734635, 1541459225]"

definition be_word32 :: "byte list \<Rightarrow> uint32" where
  "be_word32 b = push_bit 24 (ucast (b ! 0)) OR push_bit 16 (ucast (b ! 1))
     OR push_bit 8 (ucast (b ! 2)) OR ucast (b ! 3)"

text \<open>Cut a list into groups of \<open>n\<close>; a shorter rest is dropped.\<close>

fun groups :: "nat \<Rightarrow> 'a list \<Rightarrow> 'a list list" where
  "groups n xs = (if n = 0 \<or> length xs < n then [] else take n xs # groups n (drop n xs))"

declare groups.simps [simp del]

definition sha256_pad :: "byte list \<Rightarrow> byte list" where
  "sha256_pad m =
     m @ 0x80 # replicate ((119 - length m mod 64) mod 64) 0 @ put_uint64 (of_nat (8 * length m))"

definition small_sigma0 :: "uint32 \<Rightarrow> uint32" where
  "small_sigma0 x = word_rotr 7 x XOR word_rotr 18 x XOR drop_bit 3 x"

definition small_sigma1 :: "uint32 \<Rightarrow> uint32" where
  "small_sigma1 x = word_rotr 17 x XOR word_rotr 19 x XOR drop_bit 10 x"

definition big_sigma0 :: "uint32 \<Rightarrow> uint32" where
  "big_sigma0 x = word_rotr 2 x XOR word_rotr 13 x XOR word_rotr 22 x"

definition big_sigma1 :: "uint32 \<Rightarrow> uint32" where
  "big_sigma1 x = word_rotr 6 x XOR word_rotr 11 x XOR word_rotr 25 x"

text \<open>The message schedule, kept newest first: each new word needs the last sixteen.\<close>

fun sha256_schedule :: "nat \<Rightarrow> uint32 list \<Rightarrow> uint32 list" where
  "sha256_schedule 0 ws = ws"
| "sha256_schedule (Suc n) ws =
     sha256_schedule n
       ((small_sigma1 (ws ! 1) + ws ! 6 + small_sigma0 (ws ! 14) + ws ! 15) # ws)"

fun sha256_round :: "uint32 list \<Rightarrow> uint32 \<times> uint32 \<Rightarrow> uint32 list" where
  "sha256_round [a, b, c, d, e, f, g, h] (k, w) =
     (let t1 = h + big_sigma1 e + ((e AND f) XOR (NOT e AND g)) + k + w;
          t2 = big_sigma0 a + ((a AND b) XOR (a AND c) XOR (b AND c))
      in [t1 + t2, a, b, c, d + t1, e, f, g])"
| "sha256_round s _ = s"

definition sha256_block :: "uint32 list \<Rightarrow> byte list \<Rightarrow> uint32 list" where
  "sha256_block h block =
     (let ws = rev (sha256_schedule 48 (rev (map be_word32 (groups 4 block))))
      in map2 (+) h (foldl sha256_round h (zip sha256_k ws)))"

definition sha256 :: "byte list \<Rightarrow> byte list" where
  "sha256 m =
     concat (map put_uint32 (foldl sha256_block sha256_init (groups 64 (sha256_pad m))))"

lemma length_sha256_round [simp]: "length (sha256_round s kw) = length s"
  by (induction s kw rule: sha256_round.induct) (auto simp add: Let_def)

lemma length_foldl_round [simp]: "length (foldl sha256_round s kws) = length s"
  by (induction kws arbitrary: s) auto

lemma length_sha256_block [simp]: "length (sha256_block h b) = length h"
  by (simp add: sha256_block_def Let_def)

lemma length_foldl_block [simp]: "length (foldl sha256_block h bs) = length h"
  by (induction bs arbitrary: h) auto

lemma length_concat_map_const: "(\<And>x. length (f x) = n) \<Longrightarrow> length (concat (map f xs)) = n * length xs"
  by (induction xs) auto

lemma length_sha256 [simp]: "length (sha256 m) = 32"
  by (simp add: sha256_def length_concat_map_const [where n = 4] sha256_init_def)

section \<open>AES\<close>

definition aes_sbox :: "byte list" where
  "aes_sbox = [
    0x63, 0x7c, 0x77, 0x7b, 0xf2, 0x6b, 0x6f, 0xc5, 0x30, 0x01, 0x67, 0x2b, 0xfe, 0xd7, 0xab, 0x76,
    0xca, 0x82, 0xc9, 0x7d, 0xfa, 0x59, 0x47, 0xf0, 0xad, 0xd4, 0xa2, 0xaf, 0x9c, 0xa4, 0x72, 0xc0,
    0xb7, 0xfd, 0x93, 0x26, 0x36, 0x3f, 0xf7, 0xcc, 0x34, 0xa5, 0xe5, 0xf1, 0x71, 0xd8, 0x31, 0x15,
    0x04, 0xc7, 0x23, 0xc3, 0x18, 0x96, 0x05, 0x9a, 0x07, 0x12, 0x80, 0xe2, 0xeb, 0x27, 0xb2, 0x75,
    0x09, 0x83, 0x2c, 0x1a, 0x1b, 0x6e, 0x5a, 0xa0, 0x52, 0x3b, 0xd6, 0xb3, 0x29, 0xe3, 0x2f, 0x84,
    0x53, 0xd1, 0x00, 0xed, 0x20, 0xfc, 0xb1, 0x5b, 0x6a, 0xcb, 0xbe, 0x39, 0x4a, 0x4c, 0x58, 0xcf,
    0xd0, 0xef, 0xaa, 0xfb, 0x43, 0x4d, 0x33, 0x85, 0x45, 0xf9, 0x02, 0x7f, 0x50, 0x3c, 0x9f, 0xa8,
    0x51, 0xa3, 0x40, 0x8f, 0x92, 0x9d, 0x38, 0xf5, 0xbc, 0xb6, 0xda, 0x21, 0x10, 0xff, 0xf3, 0xd2,
    0xcd, 0x0c, 0x13, 0xec, 0x5f, 0x97, 0x44, 0x17, 0xc4, 0xa7, 0x7e, 0x3d, 0x64, 0x5d, 0x19, 0x73,
    0x60, 0x81, 0x4f, 0xdc, 0x22, 0x2a, 0x90, 0x88, 0x46, 0xee, 0xb8, 0x14, 0xde, 0x5e, 0x0b, 0xdb,
    0xe0, 0x32, 0x3a, 0x0a, 0x49, 0x06, 0x24, 0x5c, 0xc2, 0xd3, 0xac, 0x62, 0x91, 0x95, 0xe4, 0x79,
    0xe7, 0xc8, 0x37, 0x6d, 0x8d, 0xd5, 0x4e, 0xa9, 0x6c, 0x56, 0xf4, 0xea, 0x65, 0x7a, 0xae, 0x08,
    0xba, 0x78, 0x25, 0x2e, 0x1c, 0xa6, 0xb4, 0xc6, 0xe8, 0xdd, 0x74, 0x1f, 0x4b, 0xbd, 0x8b, 0x8a,
    0x70, 0x3e, 0xb5, 0x66, 0x48, 0x03, 0xf6, 0x0e, 0x61, 0x35, 0x57, 0xb9, 0x86, 0xc1, 0x1d, 0x9e,
    0xe1, 0xf8, 0x98, 0x11, 0x69, 0xd9, 0x8e, 0x94, 0x9b, 0x1e, 0x87, 0xe9, 0xce, 0x55, 0x28, 0xdf,
    0x8c, 0xa1, 0x89, 0x0d, 0xbf, 0xe6, 0x42, 0x68, 0x41, 0x99, 0x2d, 0x0f, 0xb0, 0x54, 0xbb, 0x16]"

definition sub_byte :: "byte \<Rightarrow> byte" where
  "sub_byte b = aes_sbox ! unat b"

definition xtime :: "byte \<Rightarrow> byte" where
  "xtime b = (if bit b 7 then push_bit 1 b XOR 0x1b else push_bit 1 b)"

definition xor_bytes :: "byte list \<Rightarrow> byte list \<Rightarrow> byte list" where
  "xor_bytes = map2 (XOR)"

text \<open>
  Key expansion, newest word first; \<open>nk\<close> is the key length in words (4, 6 or 8), \<open>i\<close> the index of the
  next word, \<open>rc\<close> the next round constant.
\<close>

fun expand_key :: "nat \<Rightarrow> nat \<Rightarrow> nat \<Rightarrow> byte \<Rightarrow> byte list list \<Rightarrow> byte list list" where
  "expand_key nk 0 i rc ws = ws"
| "expand_key nk (Suc n) i rc ws =
     (let t = hd ws;
          t' = (if i mod nk = 0
                then xor_bytes (map sub_byte (rotate1 t)) [rc, 0, 0, 0]
                else if 6 < nk \<and> i mod nk = 4 then map sub_byte t
                else t);
          rc' = (if i mod nk = 0 then xtime rc else rc)
      in expand_key nk n (Suc i) rc' (xor_bytes (ws ! (nk - 1)) t' # ws))"

definition round_keys :: "byte list \<Rightarrow> byte list list" where
  "round_keys key =
     (let nk = length key div 4
      in map concat (groups 4 (rev (expand_key nk (4 * (nk + 7) - nk) nk 1 (rev (groups 4 key))))))"

definition shift_rows :: "byte list \<Rightarrow> byte list" where
  "shift_rows s = map ((!) s) [0, 5, 10, 15, 4, 9, 14, 3, 8, 13, 2, 7, 12, 1, 6, 11]"

fun mix_column :: "byte list \<Rightarrow> byte list" where
  "mix_column [a, b, c, d] =
     [xtime a XOR (xtime b XOR b) XOR c XOR d,
      a XOR xtime b XOR (xtime c XOR c) XOR d,
      a XOR b XOR xtime c XOR (xtime d XOR d),
      (xtime a XOR a) XOR b XOR c XOR xtime d]"
| "mix_column s = s"

definition aes_round :: "byte list \<Rightarrow> byte list \<Rightarrow> byte list" where
  "aes_round s k = xor_bytes (concat (map mix_column (groups 4 (shift_rows (map sub_byte s))))) k"

definition aes_final :: "byte list \<Rightarrow> byte list \<Rightarrow> byte list" where
  "aes_final s k = xor_bytes (shift_rows (map sub_byte s)) k"

definition aes_encrypt :: "byte list \<Rightarrow> byte list \<Rightarrow> byte list" where
  "aes_encrypt key block =
     (let ks = round_keys key
      in aes_final (foldl aes_round (xor_bytes block (hd ks)) (butlast (tl ks))) (last ks))"

text \<open>\<^verbatim>\<open>aes.NewCipher\<close> accepts keys of 16, 24 and 32 bytes only.\<close>

definition new_cipher :: "byte list \<Rightarrow> byte list option" where
  "new_cipher key = (if length key \<in> {16, 24, 32} then Some key else None)"

section \<open>Counter mode\<close>

definition be_nat :: "byte list \<Rightarrow> nat" where
  "be_nat bs = foldl (\<lambda>n b. 256 * n + unat b) 0 bs"

definition to_be :: "nat \<Rightarrow> nat \<Rightarrow> byte list" where
  "to_be k n = map (\<lambda>i. of_nat (n div 256 ^ i)) (rev [0..<k])"

text \<open>
  A \<^verbatim>\<open>cipher.Stream\<close> in counter mode: the key, the initial counter block and the number of key-stream
  bytes already used. Byte \<open>p\<close> of the key stream is byte \<open>p mod 16\<close> of the encryption of the
  initial counter plus \<open>p div 16\<close>, a big-endian number of 128 bits that wraps around.
\<close>

record ctr =
  ctr_key :: "byte list"
  ctr_iv :: "byte list"
  ctr_pos :: nat

text \<open>\<^verbatim>\<open>cipher.NewCTR\<close> panics when the counter block has the wrong length.\<close>

definition new_ctr :: "byte list \<Rightarrow> byte list \<Rightarrow> ctr option" where
  "new_ctr key iv =
     (if length iv = 16 then Some \<lparr>ctr_key = key, ctr_iv = iv, ctr_pos = 0\<rparr> else None)"

definition ctr_block :: "ctr \<Rightarrow> nat \<Rightarrow> byte list" where
  "ctr_block c i = aes_encrypt (ctr_key c) (to_be 16 ((be_nat (ctr_iv c) + i) mod 2 ^ 128))"

definition ctr_byte :: "ctr \<Rightarrow> nat \<Rightarrow> byte" where
  "ctr_byte c p = ctr_block c (p div 16) ! (p mod 16)"

definition ctr_stream :: "ctr \<Rightarrow> nat \<Rightarrow> byte list" where
  "ctr_stream c n = map (ctr_byte c) [ctr_pos c..<ctr_pos c + n]"

definition xor_key_stream :: "ctr \<Rightarrow> byte list \<Rightarrow> byte list \<times> ctr" where
  "xor_key_stream c bs =
     (xor_bytes bs (ctr_stream c (length bs)), c\<lparr>ctr_pos := ctr_pos c + length bs\<rparr>)"

lemma length_xor_bytes [simp]: "length (xor_bytes a b) = min (length a) (length b)"
  by (simp add: xor_bytes_def)

lemma length_ctr_stream [simp]: "length (ctr_stream c n) = n"
  by (simp add: ctr_stream_def)

lemma xor_bytes_Nil [simp]: "xor_bytes [] b = []" "xor_bytes a [] = []"
  by (simp_all add: xor_bytes_def)

lemma xor_bytes_append:
  "length a = length b \<Longrightarrow> xor_bytes (a @ a') (b @ b') = xor_bytes a b @ xor_bytes a' b'"
  by (simp add: xor_bytes_def)

lemma xor_bytes_involutive: "length a \<le> length k \<Longrightarrow> xor_bytes (xor_bytes a k) k = a"
proof (induction a arbitrary: k)
  case (Cons x a)
  then show ?case
    by (cases k) (auto simp add: xor_bytes_def xor.assoc)
qed (simp add: xor_bytes_def)

lemma take_xor_bytes: "take n (xor_bytes a b) = xor_bytes (take n a) (take n b)"
  by (simp add: xor_bytes_def take_map take_zip)

lemma drop_xor_bytes: "drop n (xor_bytes a b) = xor_bytes (drop n a) (drop n b)"
  by (simp add: xor_bytes_def drop_map drop_zip)

lemma ctr_byte_pos [simp]: "ctr_byte (c\<lparr>ctr_pos := n\<rparr>) = ctr_byte c"
  by (simp add: ctr_byte_def ctr_block_def fun_eq_iff)

lemma ctr_stream_add:
  "ctr_stream c (m + n) = ctr_stream c m @ ctr_stream (c\<lparr>ctr_pos := ctr_pos c + m\<rparr>) n"
  using upt_add_eq_append [of "ctr_pos c" "ctr_pos c + m" n]
  by (simp add: ctr_stream_def add.assoc)

section \<open>The contract of a stream cipher\<close>

text \<open>
  What the transports need of \<^verbatim>\<open>cipher.Stream\<close>: the output is as long as the input, a second
  application from the same state undoes the first, the next state depends on the number of bytes
  only, and working in pieces is the same as working on the whole.
\<close>

locale stream_cipher =
  fixes xk :: "'s \<Rightarrow> byte list \<Rightarrow> byte list \<times> 's"
  assumes xk_length: "length (fst (xk s bs)) = length bs"
    and xk_undo: "fst (xk s (fst (xk s bs))) = bs"
    and xk_state: "length bs = length cs \<Longrightarrow> snd (xk s bs) = snd (xk s cs)"
    and xk_append: "xk s (a @ b) =
      (fst (xk s a) @ fst (xk (snd (xk s a)) b), snd (xk (snd (xk s a)) b))"
    and xk_Nil: "xk s [] = ([], s)"
begin

lemma xk_take: "fst (xk s (take n bs)) = take n (fst (xk s bs))"
proof -
  have "fst (xk s bs) = fst (xk s (take n bs)) @ fst (xk (snd (xk s (take n bs))) (drop n bs))"
    using xk_append [of s "take n bs" "drop n bs"] by simp
  then show ?thesis by (simp add: xk_length xk_Nil min_def)
qed

lemma xk_drop: "fst (xk (snd (xk s (take n bs))) (drop n bs)) = drop n (fst (xk s bs))"
proof -
  have "fst (xk s bs) = fst (xk s (take n bs)) @ fst (xk (snd (xk s (take n bs))) (drop n bs))"
    using xk_append [of s "take n bs" "drop n bs"] by simp
  then show ?thesis by (simp add: xk_length xk_Nil min_def)
qed

lemma xk_undo_prefix: "fst (xk s (take n (fst (xk s bs)))) = take n bs"
  by (simp add: xk_take xk_undo)

end

lemma xor_key_stream_append:
  "xor_key_stream c (a @ b) =
   (fst (xor_key_stream c a) @ fst (xor_key_stream (snd (xor_key_stream c a)) b),
    snd (xor_key_stream (snd (xor_key_stream c a)) b))"
  by (simp add: xor_key_stream_def ctr_stream_add xor_bytes_append add.assoc)

interpretation aes_ctr: stream_cipher xor_key_stream
proof
  fix s a b show "xor_key_stream s (a @ b) =
    (fst (xor_key_stream s a) @ fst (xor_key_stream (snd (xor_key_stream s a)) b),
     snd (xor_key_stream (snd (xor_key_stream s a)) b))"
    by (rule xor_key_stream_append)
qed (auto simp add: xor_key_stream_def xor_bytes_involutive) 

lemma ctr_pos_xor [simp]: "ctr_pos (snd (xor_key_stream c bs)) = ctr_pos c + length bs"
  by (simp add: xor_key_stream_def)

lemma ctr_key_xor [simp]: "ctr_key (snd (xor_key_stream c bs)) = ctr_key c"
  by (simp add: xor_key_stream_def)

lemma ctr_iv_xor [simp]: "ctr_iv (snd (xor_key_stream c bs)) = ctr_iv c"
  by (simp add: xor_key_stream_def)

lemma xor_key_stream_step:
  "xor_key_stream c bs = (fst (xor_key_stream c bs), c\<lparr>ctr_pos := ctr_pos c + length bs\<rparr>)"
  by (simp add: xor_key_stream_def)

text \<open>An AES block has sixteen bytes, so the key stream never indexes past a block.\<close>

lemma length_shift_rows [simp]: "length (shift_rows s) = 16"
  by (simp add: shift_rows_def)

lemma groups_simp: "0 < n \<Longrightarrow> groups n xs = (if length xs < n then [] else take n xs # groups n (drop n xs))"
  by (subst groups.simps) simp

lemma groups_Nil [simp]: "groups n [] = []"
  by (subst groups.simps) auto

lemma length_groups: "0 < n \<Longrightarrow> length (groups n xs) = length xs div n"
proof (induction n xs rule: groups.induct)
  case (1 n xs)
  then show ?case by (cases "length xs < n") (simp_all add: groups_simp le_div_geq)
qed

lemma groups_length: "g \<in> set (groups n xs) \<Longrightarrow> length g = n"
proof (induction n xs rule: groups.induct)
  case (1 n xs)
  then show ?case by (subst (asm) (2) groups.simps) (auto split: if_splits)
qed

lemma length_mix_column: "length (mix_column s) = length s"
  by (induction s rule: mix_column.induct) auto

lemma length_aes_round:
  assumes "length k = 16"
  shows "length (aes_round s k) = 16"
proof -
  have "length (concat (map mix_column (groups 4 xs))) = 4 * length (groups 4 xs)" for xs
  proof -
    have "\<forall>g \<in> set gs. length g = 4 \<Longrightarrow> length (concat (map mix_column gs)) = 4 * length gs" for gs
      by (induction gs) (auto simp add: length_mix_column)
    then show ?thesis using groups_length [of _ 4 xs] by blast
  qed
  then show ?thesis using assms by (simp add: aes_round_def length_groups)
qed

lemma expand_key_words:
  assumes "\<forall>w \<in> set ws. length w = 4" "nk \<le> length ws" "0 < nk"
  shows "(\<forall>w \<in> set (expand_key nk n i rc ws). length w = 4)
    \<and> length (expand_key nk n i rc ws) = length ws + n"
  using assms
proof (induction nk n i rc ws rule: expand_key.induct)
  case (2 nk n i rc ws)
  from "2.prems" have "ws \<noteq> []" by auto
  then have words: "length (hd ws) = 4" "length (ws ! (nk - 1)) = 4"
    using "2.prems" by (simp_all add: nth_mem)
  let ?t = "if i mod nk = 0 then xor_bytes (map sub_byte (rotate1 (hd ws))) [rc, 0, 0, 0]
    else if 6 < nk \<and> i mod nk = 4 then map sub_byte (hd ws) else hd ws"
  let ?w = "xor_bytes (ws ! (nk - 1)) ?t"
  have "length ?w = 4" using words by simp
  then have "\<forall>w \<in> set (?w # ws). length w = 4" "nk \<le> length (?w # ws)"
    using "2.prems" by simp_all
  from "2.IH" [OF refl refl refl this "2.prems"(3)] show ?case
    by (simp only: expand_key.simps Let_def list.size) simp
qed simp

lemma groups_subset: "g \<in> set (groups n xs) \<Longrightarrow> set g \<subseteq> set xs"
proof (induction n xs rule: groups.induct)
  case (1 n xs)
  from "1.prems" have "\<not> (n = 0 \<or> length xs < n)"
    by (subst (asm) groups.simps) (metis empty_iff list.set(1))
  with "1.prems" consider "g = take n xs" | "g \<in> set (groups n (drop n xs))"
    by (subst (asm) groups.simps) auto
  then show ?case
  proof cases
    case 1
    then show ?thesis by (simp add: set_take_subset)
  next
    case 2
    with "1.IH" \<open>\<not> (n = 0 \<or> length xs < n)\<close> show ?thesis using set_drop_subset by fast
  qed
qed

lemma length_concat_const: "\<forall>w \<in> set g. length w = n \<Longrightarrow> length (concat g) = n * length g"
  by (induction g) auto

lemma round_keys_shape:
  assumes "length key \<in> {16, 24, 32}"
  shows "(\<forall>k \<in> set (round_keys key). length k = 16) \<and> length (round_keys key) = length key div 4 + 7"
proof -
  define nk where "nk = length key div 4"
  define n where "n = 4 * (nk + 7) - nk"
  define ws where "ws = rev (expand_key nk n nk 1 (rev (groups 4 key)))"
  have start: "\<forall>w \<in> set (rev (groups 4 key)). length w = 4" "length (rev (groups 4 key)) = nk"
    using groups_length [of _ 4 key] length_groups [of 4 key] by (auto simp add: nk_def)
  have "0 < nk" using assms by (auto simp add: nk_def)
  from expand_key_words [OF start(1) _ this, of n nk 1] start(2)
  have ws: "\<forall>w \<in> set ws. length w = 4" "length ws = nk + n"
    unfolding ws_def set_rev length_rev by simp_all
  have n: "nk + n = 4 * (nk + 7)" by (simp add: n_def)
  have keys: "round_keys key = map concat (groups 4 ws)"
    unfolding round_keys_def Let_def ws_def n_def nk_def ..
  have "length (concat g) = 16" if "g \<in> set (groups 4 ws)" for g
  proof -
    have "\<forall>w \<in> set g. length w = 4" using groups_subset [OF that] ws(1) by blast
    from length_concat_const [OF this] groups_length [OF that] show ?thesis by simp
  qed
  then show ?thesis using ws(2) n by (simp add: keys length_groups nk_def [symmetric])
qed

lemma length_aes_encrypt:
  assumes "length key \<in> {16, 24, 32}"
  shows "length (aes_encrypt key block) = 16"
proof -
  note shape = round_keys_shape [OF assms]
  then have "last (round_keys key) \<in> set (round_keys key)"
    by (intro last_in_set) auto
  then show ?thesis using shape by (simp add: aes_encrypt_def Let_def aes_final_def)
qed

end
