(* ===== verification/Crypto_Check.thy ===== *)
theory Crypto_Check
  imports Crypto
begin

text \<open>
  Published example vectors, evaluated by the kernel: the definitions of \<open>Crypto\<close> compute the values
  the standards print.
\<close>

section \<open>Known answers\<close>

text \<open>The example vectors of FIPS 197 (AES-256) and FIPS 180-4 (the message abc).\<close>

lemma aes256_known_answer:
  "aes_encrypt (map of_nat [0..<32]) (map (\<lambda>i. of_nat (17 * i)) [0..<16]) =
   [0x8e, 0xa2, 0xb7, 0xca, 0x51, 0x67, 0x45, 0xbf, 0xea, 0xfc, 0x49, 0x90, 0x4b, 0x49, 0x60, 0x89]"
  by code_simp

lemma sha256_known_answer:
  "sha256 [0x61, 0x62, 0x63] =
   [0xba, 0x78, 0x16, 0xbf, 0x8f, 0x01, 0xcf, 0xea, 0x41, 0x41, 0x40, 0xde, 0x5d, 0xae, 0x22, 0x23,
    0xb0, 0x03, 0x61, 0xa3, 0x96, 0x17, 0x7a, 0x9c, 0xb4, 0x10, 0xff, 0x61, 0xf2, 0x00, 0x15, 0xad]"
  by code_simp

end
