(* ===== verification/DcList.thy ===== *)
theory DcList
  imports GoIO
begin

text \<open>
  \<^verbatim>\<open>dc/list.go\<close>: the table of Telegram data centres and its lookup. Identifiers are \<^verbatim>\<open>int16\<close> values,
  so negation wraps around at the smallest one.
\<close>

type_synonym int16 = "16 word"

definition dcAddrs :: "(int16 \<times> string) list" where
  "dcAddrs =
     [(1, ''149.154.175.53:443''), (2, ''149.154.167.51:443''), (3, ''149.154.175.100:443''),
      (4, ''149.154.167.91:443''), (5, ''91.108.56.130:443'')]"

record dc_list =
  addrs :: "int16 \<Rightarrow> string option"

text \<open>
  \<^verbatim>\<open>New\<close> copies the table entry by entry, in whatever order Go's map iteration yields them.
\<close>

definition dc_put :: "int16 \<times> string \<Rightarrow> (int16 \<Rightarrow> string option) \<Rightarrow> (int16 \<Rightarrow> string option)" where
  "dc_put e m = m(fst e \<mapsto> snd e)"

definition dc_new_from :: "(int16 \<times> string) list \<Rightarrow> dc_list" where
  "dc_new_from entries = \<lparr>addrs = fold dc_put entries Map.empty\<rparr>"

definition dc_new :: dc_list where
  "dc_new = dc_new_from dcAddrs"

definition dc_get :: "dc_list \<Rightarrow> int16 \<Rightarrow> go_error + string" where
  "dc_get l dcID =
     (let dcID = (if sint dcID < 0 then - dcID else dcID)
      in case addrs l dcID of
           None \<Rightarrow> Inl (ErrText (''unknown DC ID: '' @ dec_int (sint dcID)))
         | Some addr \<Rightarrow> Inr addr)"

lemma dc_put_apply: "dc_put e m k = (if k = fst e then Some (snd e) else m k)"
  by (simp add: dc_put_def)

lemma fold_put_notin: "k \<notin> fst ` set es \<Longrightarrow> fold dc_put es m k = m k"
  by (induction es arbitrary: m) (auto simp add: dc_put_apply)

lemma fold_put_in: "distinct (map fst es) \<Longrightarrow> (k, v) \<in> set es \<Longrightarrow> fold dc_put es m k = Some v"
proof (induction es arbitrary: m)
  case (Cons e es)
  show ?case
  proof (cases "e = (k, v)")
    case True
    with Cons.prems have "k \<notin> fst ` set es" by auto
    from fold_put_notin [OF this, of "dc_put e m"] True show ?thesis
      by (simp add: dc_put_apply [of "(k, v)" m k])
  next
    case False
    with Cons show ?thesis by auto
  qed
qed simp

lemma dc_new_from_lookup:
  assumes "distinct (map fst es)"
  shows "addrs (dc_new_from es) k = map_of es k"
proof (cases "k \<in> fst ` set es")
  case True
  then obtain v where "(k, v) \<in> set es" by auto
  with assms show ?thesis by (simp add: dc_new_from_def fold_put_in)
next
  case False
  then show ?thesis
    by (simp add: dc_new_from_def fold_put_notin) (metis map_of_eq_None_iff)
qed

lemma dcAddrs_distinct: "distinct (map fst dcAddrs)"
  by (simp add: dcAddrs_def)

lemma dc_new_lookup: "addrs dc_new = map_of dcAddrs"
  by (simp add: dc_new_def dc_new_from_lookup dcAddrs_distinct fun_eq_iff)

lemma dc_known_iff: "(\<exists>a. map_of dcAddrs k = Some a) \<longleftrightarrow> k \<in> {1, 2, 3, 4, 5}"
  by (auto simp add: dcAddrs_def)

lemma sint_neg_int16:
  fixes w :: int16
  assumes "sint w \<noteq> - 32768"
  shows "sint (- w) = - sint w"
proof -
  have "- 32768 \<le> sint w" "sint w < 32768"
    using sint_ge [of w] sint_lt [of w] by simp_all
  then have "- 32768 \<le> - sint w" "- sint w < 32768" using assms by auto
  then have "signed_take_bit 15 (- sint w) = - sint w"
    by (simp add: signed_take_bit_int_eq_self)
  then show ?thesis by (simp add: sint_word_ariths)
qed

lemma sint_eq_iff:
  fixes v w :: int16
  shows "v = w \<longleftrightarrow> sint v = sint w"
  by (auto intro: signed_word_eqI)

lemma sint_small:
  "sint (1 :: int16) = 1" "sint (2 :: int16) = 2" "sint (3 :: int16) = 3" "sint (4 :: int16) = 4"
  "sint (5 :: int16) = 5"
  by simp_all

text \<open>
  The table is complete for the five data centres and their media counterparts, and for nothing else.
\<close>

text \<open>C39. The lookup succeeds exactly for the identifiers 1 to 5 and -1 to -5; every other identifier,
  the smallest \<^verbatim>\<open>int16\<close> included (whose negation wraps around), gives the error of an unknown data centre.\<close>

theorem dc_get_succeeds_iff:
  "(\<exists>a. dc_get dc_new i = Inr a) \<longleftrightarrow> 1 \<le> \<bar>sint i\<bar> \<and> \<bar>sint i\<bar> \<le> 5"
proof -
  let ?j = "if sint i < 0 then - i else i"
  have "(\<exists>a. dc_get dc_new i = Inr a) \<longleftrightarrow> ?j \<in> {1, 2, 3, 4, 5}"
    using dc_known_iff [of ?j]
    by (auto simp add: dc_get_def Let_def dc_new_lookup split: option.splits)
  also have "\<dots> \<longleftrightarrow> sint ?j \<in> {1, 2, 3, 4, 5}"
    by (simp only: insert_iff empty_iff sint_eq_iff sint_small)
  also have "\<dots> \<longleftrightarrow> 1 \<le> \<bar>sint i\<bar> \<and> \<bar>sint i\<bar> \<le> 5"
  proof (cases "sint i = - 32768")
    case True
    then have "i = - 32768" using sint_eq_iff [of i "- 32768"] by simp
    then show ?thesis by simp
  next
    case False
    then have "sint ?j = \<bar>sint i\<bar>" by (auto simp add: sint_neg_int16)
    then show ?thesis by (simp only:) auto
  qed
  finally show ?thesis .
qed

text \<open>A media data centre (a negative identifier) is served by the address of its positive
  counterpart.\<close>

theorem dc_get_media:
  "sint i \<noteq> - 32768 \<Longrightarrow> dc_get dc_new (- i) = dc_get dc_new i"
proof (cases "sint i = 0")
  case True
  then have "i = 0" using sint_eq_iff [of i 0] by simp
  then show ?thesis by simp
next
  case False
  assume "sint i \<noteq> - 32768"
  then have neg: "sint (- i) = - sint i" by (rule sint_neg_int16)
  show ?thesis by (cases "sint i < 0") (use False neg in \<open>simp_all add: dc_get_def Let_def\<close>)
qed

theorem dc_get_media_witness:
  "dc_get dc_new (- 2) = Inr ''149.154.167.51:443''"
proof -
  have "dc_get dc_new (- 2) = dc_get dc_new 2" by (rule dc_get_media) simp
  then show ?thesis by (simp add: dc_get_def dc_new_lookup dcAddrs_def)
qed

end
