(* ===== verification/Config.thy ===== *)
theory Config
  imports Prelude
begin

text \<open>
  \<^verbatim>\<open>config/config.go\<close>: secrets and their textual form, and the configuration read from the environment.
  Errors are a datatype with one constructor per error return; the quoting of the message is not
  modelled. \<^verbatim>\<open>os.Getenv\<close> is the parameter \<open>env\<close> (an unset variable is the empty string), and \<open>ul\<close> is
  the Unicode part of \<^verbatim>\<open>strings.ToLower\<close>.
\<close>

section \<open>Secrets\<close>

text \<open>A \<^verbatim>\<open>SecretType\<close> is an \<^verbatim>\<open>int\<close> with two named values.\<close>

datatype secret_type = SecretTypeDD | SecretTypeEE | SecretTypeOther int

record secret =
  s_raw :: "byte list"
  s_type :: secret_type
  s_domain :: string
  s_name :: string

definition no_secret :: secret where
  "no_secret = \<lparr>s_raw = [], s_type = SecretTypeDD, s_domain = '''', s_name = ''''\<rparr>"

text \<open>\<^verbatim>\<open>encoding/hex\<close>.\<close>

datatype hex_error = InvalidByteError char | ErrLength

definition hex_char :: "nat \<Rightarrow> char" where
  "hex_char d = (if d < 10 then char_of (48 + d) else char_of (87 + d))"

definition unhex :: "char \<Rightarrow> nat option" where
  "unhex c =
     (let n = (of_char c :: nat)
      in if 48 \<le> n \<and> n \<le> 57 then Some (n - 48)
         else if 97 \<le> n \<and> n \<le> 102 then Some (n - 87)
         else if 65 \<le> n \<and> n \<le> 70 then Some (n - 55)
         else None)"

definition hex_encode :: "byte list \<Rightarrow> string" where
  "hex_encode bs = concat (map (\<lambda>b. [hex_char (unat b div 16), hex_char (unat b mod 16)]) bs)"

fun hex_decode :: "string \<Rightarrow> hex_error + byte list" where
  "hex_decode [] = Inr []"
| "hex_decode [p] =
     (case unhex p of None \<Rightarrow> Inl (InvalidByteError p) | Some a \<Rightarrow> Inl ErrLength)"
| "hex_decode (p # q # s) =
     (case unhex p of
        None \<Rightarrow> Inl (InvalidByteError p)
      | Some a \<Rightarrow>
          (case unhex q of
             None \<Rightarrow> Inl (InvalidByteError q)
           | Some b \<Rightarrow>
               (case hex_decode s of
                  Inl e \<Rightarrow> Inl e
                | Inr r \<Rightarrow> Inr (of_nat (16 * a + b) # r))))"

definition hex_string :: "secret \<Rightarrow> string" where
  "hex_string s =
     (case s_type s of
        SecretTypeDD \<Rightarrow> ''dd'' @ hex_encode (s_raw s)
      | SecretTypeEE \<Rightarrow>
          ''ee'' @ hex_encode (s_raw s) @ hex_encode (bytes_of_string (s_domain s))
      | SecretTypeOther _ \<Rightarrow> hex_encode (s_raw s))"

datatype secret_error =
    EETooShort | EEHex hex_error | EEDomainHex hex_error
  | DDHex hex_error | DDLength nat | PlainHex hex_error | PlainLength nat

definition parse_secret :: "string \<Rightarrow> secret_error + secret" where
  "parse_secret s =
     (if prefix ''ee'' s then
        (let rest = drop 2 s in
         if length rest < 32 then Inl EETooShort
         else case hex_decode (take 32 rest) of
                Inl e \<Rightarrow> Inl (EEHex e)
              | Inr raw \<Rightarrow>
                  if 32 < length rest then
                    (case hex_decode (drop 32 rest) of
                       Inl e \<Rightarrow> Inl (EEDomainHex e)
                     | Inr domainBytes \<Rightarrow>
                         Inr (no_secret\<lparr>s_raw := raw, s_type := SecretTypeEE,
                                s_domain := string_of_bytes domainBytes\<rparr>))
                  else Inr (no_secret\<lparr>s_raw := raw, s_type := SecretTypeEE, s_domain := ''''\<rparr>))
      else if prefix ''dd'' s then
        (case hex_decode (drop 2 s) of
           Inl e \<Rightarrow> Inl (DDHex e)
         | Inr raw \<Rightarrow>
             if length raw \<noteq> 16 then Inl (DDLength (length raw))
             else Inr (no_secret\<lparr>s_raw := raw, s_type := SecretTypeDD\<rparr>))
      else
        (case hex_decode s of
           Inl e \<Rightarrow> Inl (PlainHex e)
         | Inr raw \<Rightarrow>
             if length raw \<noteq> 16 then Inl (PlainLength (length raw))
             else Inr (no_secret\<lparr>s_raw := raw, s_type := SecretTypeDD\<rparr>)))"

section \<open>The configuration\<close>

record config =
  BindAddr :: string
  Port :: int
  Socks5Port :: int
  Hysteria2Port :: int
  Hysteria2Password :: string
  Hysteria2CertFile :: string
  Hysteria2KeyFile :: string
  Secrets :: "secret list"
  Timeout :: int64
  StatsAddr :: string

datatype config_error = SecretsRequired | InvalidSecret string secret_error | NoValidSecrets

type_synonym env = "string \<Rightarrow> string"

definition env_str :: "env \<Rightarrow> string \<Rightarrow> string \<Rightarrow> string" where
  "env_str env key def = (if env key \<noteq> '''' then env key else def)"

definition env_int :: "env \<Rightarrow> string \<Rightarrow> int \<Rightarrow> int" where
  "env_int env key def =
     (if env key \<noteq> '''' then (case atoi (env key) of Some n \<Rightarrow> n | None \<Rightarrow> def) else def)"

text \<open>One comma-separated part of \<^verbatim>\<open>SECRETS\<close>: skipped when blank, otherwise \<open>[name:]secret\<close>.\<close>

definition load_part :: "(string \<Rightarrow> string) \<Rightarrow> string \<Rightarrow> config_error + secret option" where
  "load_part ul part =
     (let part = trim_space part in
      if part = '''' then Inr None
      else
        let (name, secretStr) =
              (case index_byte part (CHR '':'') of
                 Some idx \<Rightarrow> (take idx part, drop (idx + 1) part)
               | None \<Rightarrow> ('''', part))
        in case parse_secret (to_lower ul secretStr) of
             Inl err \<Rightarrow> Inl (InvalidSecret part err)
           | Inr sec \<Rightarrow>
               let name = (if name = '''' then take (min 8 (length secretStr)) secretStr else name)
               in Inr (Some (sec\<lparr>s_name := name\<rparr>)))"

fun load_parts ::
  "(string \<Rightarrow> string) \<Rightarrow> string list \<Rightarrow> secret list \<Rightarrow> config_error + secret list" where
  "load_parts ul [] acc = Inr acc"
| "load_parts ul (p # ps) acc =
     (case load_part ul p of
        Inl e \<Rightarrow> Inl e
      | Inr None \<Rightarrow> load_parts ul ps acc
      | Inr (Some sec) \<Rightarrow> load_parts ul ps (acc @ [sec]))"

definition load :: "(string \<Rightarrow> string) \<Rightarrow> env \<Rightarrow> config_error + config" where
  "load ul env =
     (let cfg =
        \<lparr>BindAddr = env_str env ''BIND_ADDR'' ''0.0.0.0'',
         Port = env_int env ''PORT'' 443,
         Socks5Port = env_int env ''SOCKS5_PORT'' 0,
         Hysteria2Port = env_int env ''HYSTERIA2_PORT'' 0,
         Hysteria2Password = env_str env ''HYSTERIA2_PASSWORD'' '''',
         Hysteria2CertFile = env_str env ''HYSTERIA2_CERT'' '''',
         Hysteria2KeyFile = env_str env ''HYSTERIA2_KEY'' '''',
         Secrets = [],
         Timeout = of_int (env_int env ''TIMEOUT_SEC'' 120) * 1000000000,
         StatsAddr = env_str env ''STATS_ADDR'' '':8080''\<rparr>;
        raw = env ''SECRETS''
      in if raw = '''' then Inl SecretsRequired
         else case load_parts ul (split_on (CHR '','') raw) [] of
                Inl e \<Rightarrow> Inl e
              | Inr secs \<Rightarrow>
                  if secs = [] then Inl NoValidSecrets else Inr (cfg\<lparr>Secrets := secs\<rparr>))"

section \<open>Hexadecimal round trip\<close>

lemma unhex_hex_char [simp]: "d < 16 \<Longrightarrow> unhex (hex_char d) = Some d"
  by (auto simp add: unhex_def hex_char_def Let_def)

lemma byte_nibbles: "of_nat (16 * (unat (b :: byte) div 16) + unat b mod 16) = b"
proof -
  have "16 * (unat b div 16) + unat b mod 16 = unat b" by simp
  then show ?thesis by (simp only: of_nat_unat ucast_id)
qed

lemma hex_encode_Cons:
  "hex_encode (b # bs) = hex_char (unat b div 16) # hex_char (unat b mod 16) # hex_encode bs"
  by (simp add: hex_encode_def)

lemma hex_encode_Nil [simp]: "hex_encode [] = []"
  by (simp add: hex_encode_def)

lemma length_hex_encode [simp]: "length (hex_encode bs) = 2 * length bs"
  by (induction bs) (simp_all add: hex_encode_Cons)

lemma nibbles_less [simp]: "unat (b :: byte) div 16 < 16" "unat (b :: byte) mod 16 < 16"
proof -
  have "unat b < 256" using unsigned_less [of b] by simp
  then show "unat b div 16 < 16" by simp
qed simp

lemma hex_decode_encode [simp]: "hex_decode (hex_encode bs) = Inr bs"
proof (induction bs)
  case (Cons b bs)
  have "hex_decode (hex_encode (b # bs)) =
      Inr (of_nat (16 * (unat b div 16) + unat b mod 16) # bs)"
    unfolding hex_encode_Cons using Cons by (simp del: mult_div_mod_eq of_nat_add of_nat_mult)
  then show ?case by (simp only: byte_nibbles)
qed simp

lemma take_hex_encode: "take (2 * n) (hex_encode bs) = hex_encode (take n bs)"
  by (induction bs arbitrary: n) (auto simp add: hex_encode_Cons take_Cons split: nat.split)

lemma drop_hex_encode: "drop (2 * n) (hex_encode bs) = hex_encode (drop n bs)"
  by (induction bs arbitrary: n) (auto simp add: hex_encode_Cons drop_Cons split: nat.split)

lemma length_hex_decode: "hex_decode s = Inr bs \<Longrightarrow> length s = 2 * length bs"
  by (induction s arbitrary: bs rule: hex_decode.induct)
    (auto split: option.splits sum.splits)

lemma hex_decode_odd: "odd (length s) \<Longrightarrow> \<exists>e. hex_decode s = Inl e"
  using length_hex_decode by (cases "hex_decode s") auto

definition hex_chars :: "char list" where
  "hex_chars = map hex_char [0..<16]"

lemma hex_char_in: "d < 16 \<Longrightarrow> hex_char d \<in> set hex_chars"
  by (auto simp add: hex_chars_def)

lemma set_hex_encode: "set (hex_encode bs) \<subseteq> set hex_chars"
  by (induction bs) (auto simp add: hex_encode_Cons hex_char_in)

lemma hex_chars_codes:
  "c \<in> set hex_chars \<Longrightarrow>
   (48 \<le> (of_char c :: nat) \<and> (of_char c :: nat) \<le> 57)
   \<or> (97 \<le> (of_char c :: nat) \<and> (of_char c :: nat) \<le> 102)"
  by (auto simp add: hex_chars_def hex_char_def upt_rec)

lemma hex_chars_facts:
  assumes "c \<in> set hex_chars"
  shows "is_ascii c" "ascii_lower c = c" "c \<noteq> CHR '',''" "c \<noteq> CHR '':''" "of_char c > (32 :: nat)"
  using hex_chars_codes [OF assms] by (auto simp add: is_ascii_def ascii_lower_def)

lemma hex_lower_id: "set s \<subseteq> set hex_chars \<Longrightarrow> to_lower ul s = s"
  using hex_chars_facts by (auto simp add: to_lower_def list_all_iff intro!: map_idI)

section \<open>Secrets: round trip and well-formedness\<close>

text \<open>What a parsed secret looks like: sixteen raw bytes, and a domain only for fake TLS.\<close>

definition wf_secret :: "secret \<Rightarrow> bool" where
  "wf_secret s \<longleftrightarrow>
     length (s_raw s) = 16 \<and>
     (s_type s = SecretTypeDD \<and> s_domain s = '''' \<or> s_type s = SecretTypeEE)"

lemma hex_string_chars: "wf_secret s \<Longrightarrow> set (hex_string s) \<subseteq> set hex_chars"
proof -
  have "CHR ''d'' = hex_char 13" "CHR ''e'' = hex_char 14" by code_simp+
  then have "CHR ''d'' \<in> set hex_chars" "CHR ''e'' \<in> set hex_chars" by (simp_all add: hex_char_in)
  moreover assume "wf_secret s"
  ultimately show ?thesis using set_hex_encode
    by (auto simp add: hex_string_def wf_secret_def split: secret_type.splits)
qed

lemma parse_secret_hex_string:
  assumes "wf_secret s"
  shows "parse_secret (hex_string s) = Inr (s\<lparr>s_name := ''''\<rparr>)"
proof (cases "s_type s")
  case SecretTypeDD
  with assms show ?thesis
    by (simp add: wf_secret_def parse_secret_def hex_string_def no_secret_def)
next
  case SecretTypeEE
  with assms show ?thesis
    by (cases "s_domain s = ''''")
      (simp_all add: wf_secret_def parse_secret_def hex_string_def no_secret_def Let_def)
next
  case (SecretTypeOther i)
  with assms show ?thesis by (simp add: wf_secret_def)
qed

lemma parse_secret_wf: "parse_secret t = Inr s \<Longrightarrow> wf_secret s \<and> s_name s = '''' \<and> 32 \<le> length t"
  using length_hex_decode [of t] length_hex_decode [of "drop 2 t"]
    length_hex_decode [of "take 32 (drop 2 t)"]
  by (auto simp add: parse_secret_def Let_def wf_secret_def no_secret_def
      split: if_splits sum.splits)

lemma parse_secret_ee_length:
  assumes "prefix ''ee'' t" "parse_secret t = Inr s"
  shows "s_type s = SecretTypeEE \<and> length t = 34 + 2 * length (s_domain s)"
proof (cases "32 < length (drop 2 t)")
  case True
  then obtain d where "hex_decode (drop 32 (drop 2 t)) = Inr d"
    using assms by (auto simp add: parse_secret_def Let_def split: if_splits sum.splits)
  with length_hex_decode [OF this] assms True show ?thesis
    by (auto simp add: parse_secret_def Let_def no_secret_def split: if_splits sum.splits)
next
  case False
  with assms show ?thesis
    by (auto simp add: parse_secret_def Let_def no_secret_def split: if_splits sum.splits)
qed

lemma parse_secret_dd_length:
  assumes "\<not> prefix ''ee'' t" "parse_secret t = Inr s"
  shows "s_type s = SecretTypeDD \<and> length t = (if prefix ''dd'' t then 34 else 32)"
  using assms length_hex_decode [of t] length_hex_decode [of "drop 2 t"]
  by (auto simp add: parse_secret_def no_secret_def split: if_splits sum.splits)

text \<open>C33. Printing a secret and parsing the text gives the secret back (without its label).\<close>

theorem secret_roundtrip:
  assumes "wf_secret s"
  shows "parse_secret (to_lower ul (hex_string s)) = Inr (s\<lparr>s_name := ''''\<rparr>)"
  using hex_lower_id [OF hex_string_chars [OF assms]] parse_secret_hex_string [OF assms] by simp

definition example_secret :: secret where
  "example_secret =
     \<lparr>s_raw = [1, 2, 3, 4, 5, 6, 7, 8, 9, 10, 11, 12, 13, 14, 15, 16], s_type = SecretTypeEE,
      s_domain = ''google.com'', s_name = ''bob''\<rparr>"

theorem secret_roundtrip_witness:
  "parse_secret (to_lower id (hex_string example_secret)) = Inr (example_secret\<lparr>s_name := ''''\<rparr>)"
  by (rule secret_roundtrip) (simp add: example_secret_def wf_secret_def)

text \<open>C34. A successful parse yields sixteen raw bytes and a domain for fake-TLS secrets only; the length of
  the text is fixed by its prefix, so no text of another length is accepted.\<close>

theorem parse_secret_sound:
  "case parse_secret t of
     Inr s \<Rightarrow> wf_secret s \<and> (s_type s = SecretTypeEE \<longleftrightarrow> prefix ''ee'' t)
       \<and> length t = (if prefix ''ee'' t then 34 + 2 * length (s_domain s)
                     else if prefix ''dd'' t then 34 else 32)
   | Inl _ \<Rightarrow> True"
proof (cases "parse_secret t")
  case (Inr s)
  then show ?thesis
    using parse_secret_wf [OF Inr] parse_secret_ee_length [OF _ Inr] parse_secret_dd_length [OF _ Inr]
    by (cases "prefix ''ee'' t") auto
qed simp

text \<open>C37. A plain secret of 32 hexadecimal digits that happens to begin with \<^verbatim>\<open>dd\<close> or \<^verbatim>\<open>ee\<close> is not accepted as
  a plain secret: the parser takes the prefix for a kind and reports the rest as too short.\<close>

theorem plain_secret_prefix_clash:
  assumes "length t = 32" "prefix ''dd'' t \<or> prefix ''ee'' t"
  shows "\<exists>e. parse_secret t = Inl e"
proof (cases "parse_secret t")
  case (Inr s)
  with parse_secret_ee_length [of t s] parse_secret_dd_length [of t s] assms show ?thesis
    by (cases "prefix ''ee'' t") auto
qed simp

theorem plain_secret_prefix_clash_witness:
  "\<exists>e. parse_secret ''dd0102030405060708090a0b0c0d0e0f'' = Inl e"
  by (rule plain_secret_prefix_clash) simp_all

section \<open>Loading the configuration\<close>

definition blank :: "string \<Rightarrow> bool" where
  "blank p \<longleftrightarrow> trim_space p = ''''"

text \<open>
  What a secret in a configuration satisfies: well formed, and labelled, since a part without a label is
  given the first characters of its secret as one.
\<close>

definition labelled :: "secret \<Rightarrow> bool" where
  "labelled s \<longleftrightarrow> wf_secret s \<and> s_name s \<noteq> ''''"

lemma wf_secret_name [simp]: "wf_secret (s\<lparr>s_name := n\<rparr>) = wf_secret s"
  by (simp add: wf_secret_def)

lemma to_lower_Nil [simp]: "to_lower ul [] = []"
  by (simp add: to_lower_def)

lemma parse_secret_Nil: "parse_secret [] = Inl (PlainLength 0)"
  by (simp add: parse_secret_def)

lemma load_part_result:
  assumes "load_part ul p = Inr r"
  shows "(r = None \<longleftrightarrow> blank p) \<and> (\<forall>sec. r = Some sec \<longrightarrow> labelled sec)"
proof (cases "blank p")
  case True
  with assms show ?thesis by (simp add: load_part_def blank_def)
next
  case False
  let ?split = "case index_byte (trim_space p) (CHR '':'') of
      Some idx \<Rightarrow> (take idx (trim_space p), drop (idx + 1) (trim_space p))
    | None \<Rightarrow> ([], trim_space p)"
  obtain n t where split: "?split = (n, t)" by (cases ?split)
  from assms False split obtain sec where sec: "parse_secret (to_lower ul t) = Inr sec"
    and r: "r = Some (sec\<lparr>s_name := (if n = [] then take (min 8 (length t)) t else n)\<rparr>)"
    by (auto simp add: load_part_def blank_def Let_def split: sum.splits)
  have "t \<noteq> []" using sec by (auto simp add: parse_secret_Nil)
  with r parse_secret_wf [OF sec] False show ?thesis by (simp add: labelled_def)
qed

lemma load_parts_result:
  assumes "load_parts ul ps acc = Inr secs" "\<forall>s \<in> set acc. labelled s"
  shows "(\<forall>s \<in> set secs. labelled s)
    \<and> length secs = length acc + length (filter (\<lambda>p. \<not> blank p) ps)"
  using assms
proof (induction ps arbitrary: acc)
  case (Cons p ps)
  from Cons.prems(1) obtain r where r: "load_part ul p = Inr r" by (auto split: sum.splits)
  show ?case
  proof (cases r)
    case None
    with Cons r load_part_result [OF r] show ?thesis by auto
  next
    case (Some sec)
    with r Cons.prems load_part_result [OF r]
    have "load_parts ul ps (acc @ [sec]) = Inr secs" "\<forall>s \<in> set (acc @ [sec]). labelled s" "\<not> blank p"
      by auto
    from Cons.IH [OF this(1,2)] this(3) show ?thesis by auto
  qed
qed simp

lemma load_SECRETS:
  assumes "load ul env = Inr cfg"
  shows "load_parts ul (split_on (CHR '','') (env ''SECRETS'')) [] = Inr (Secrets cfg) \<and> Secrets cfg \<noteq> []
    \<and> env ''SECRETS'' \<noteq> ''''"
  using assms by (auto simp add: load_def Let_def split: if_splits sum.splits)

text \<open>A configuration that loads has at least one secret, one for every part of \<^verbatim>\<open>SECRETS\<close> that is not
  blank, and all of them are well formed and carry a label: one malformed part is enough for the whole load to fail.\<close>

theorem load_sound:
  assumes "load ul env = Inr cfg"
  shows "Secrets cfg \<noteq> [] \<and> (\<forall>s \<in> set (Secrets cfg). labelled s)
    \<and> length (Secrets cfg) = length (filter (\<lambda>p. \<not> blank p) (split_on (CHR '','') (env ''SECRETS'')))"
  using load_SECRETS [OF assms] load_parts_result [of ul _ "[]" "Secrets cfg"] by auto

definition secrets_only :: "string \<Rightarrow> env" where
  "secrets_only v k = (if k = ''SECRETS'' then v else '''')"

theorem load_sound_witness:
  "case load id (secrets_only '' ,:EE0102030405060708090a0b0c0d0e0f10'') of
     Inr cfg \<Rightarrow> (\<forall>s \<in> set (Secrets cfg). labelled s) \<and> map s_name (Secrets cfg) = [''EE010203'']
   | Inl _ \<Rightarrow> False"
proof -
  let ?env = "secrets_only '' ,:EE0102030405060708090a0b0c0d0e0f10''"
  have "case load id ?env of Inr cfg \<Rightarrow> map s_name (Secrets cfg) = [''EE010203''] | Inl _ \<Rightarrow> False"
    by code_simp
  then obtain cfg where "load id ?env = Inr cfg" "map s_name (Secrets cfg) = [''EE010203'']"
    by (auto split: sum.splits)
  with load_sound [OF this(1)] show ?thesis by simp
qed

text \<open>With nothing but \<^verbatim>\<open>SECRETS\<close> set, a configuration that loads has the documented defaults: port 443
  on all addresses, no SOCKS5 and no Hysteria2 listener, a timeout of 120 seconds, statistics on 8080.\<close>

theorem load_defaults:
  assumes "load ul (secrets_only v) = Inr cfg"
  shows "BindAddr cfg = ''0.0.0.0'' \<and> Port cfg = 443 \<and> Socks5Port cfg = 0 \<and> Hysteria2Port cfg = 0
    \<and> Hysteria2Password cfg = '''' \<and> sint (Timeout cfg) = 120 * 10 ^ 9 \<and> StatsAddr cfg = '':8080''"
  using assms
  by (auto simp add: load_def Let_def env_int_def env_str_def secrets_only_def
      split: if_splits sum.splits)

theorem load_defaults_witness:
  "case load id (secrets_only ''a:00112233445566778899aabbccddeeff'') of
     Inr cfg \<Rightarrow> Port cfg = 443 \<and> sint (Timeout cfg) = 120 * 10 ^ 9
   | Inl _ \<Rightarrow> False"
proof -
  let ?env = "secrets_only ''a:00112233445566778899aabbccddeeff''"
  have "case load id ?env of Inr _ \<Rightarrow> True | Inl _ \<Rightarrow> False" by code_simp
  then obtain cfg where "load id ?env = Inr cfg" by (auto split: sum.splits)
  with load_defaults [OF this] show ?thesis by simp
qed

text \<open>C36. The timeout is the configured number of seconds in nanoseconds as long as the product fits 64
  bits; it is computed before any check, so a larger number wraps around.\<close>

theorem load_timeout:
  assumes "load ul env = Inr cfg" "n = env_int env ''TIMEOUT_SEC'' 120"
  shows "sint (Timeout cfg) = signed_take_bit 63 (n * 10 ^ 9)
    \<and> (\<bar>n\<bar> \<le> 9223372036 \<longrightarrow> sint (Timeout cfg) = n * 10 ^ 9)"
proof -
  have "Timeout cfg = of_int (n * 10 ^ 9)"
    using assms by (auto simp add: load_def Let_def split: if_splits sum.splits)
  then have "sint (Timeout cfg) = signed_take_bit 63 (n * 10 ^ 9)"
    by (simp only: sint_sbintrunc') simp
  moreover have "signed_take_bit 63 (n * 10 ^ 9) = n * 10 ^ 9" if "\<bar>n\<bar> \<le> 9223372036"
    using that by (intro signed_take_bit_int_eq_self) auto
  ultimately show ?thesis by simp
qed

theorem load_timeout_witness:
  "case load id ((secrets_only ''a:00112233445566778899aabbccddeeff'') (''TIMEOUT_SEC'' := ''30'')) of
     Inr cfg \<Rightarrow> sint (Timeout cfg) = 30 * 10 ^ 9
   | Inl _ \<Rightarrow> False"
proof -
  let ?env = "(secrets_only ''a:00112233445566778899aabbccddeeff'') (''TIMEOUT_SEC'' := ''30'')"
  have "case load id ?env of Inr _ \<Rightarrow> env_int ?env ''TIMEOUT_SEC'' 120 = 30 | Inl _ \<Rightarrow> False" by code_simp
  then obtain cfg where "load id ?env = Inr cfg" "30 = env_int ?env ''TIMEOUT_SEC'' 120"
    by (auto split: sum.splits)
  with load_timeout [OF this] show ?thesis by simp
qed

text \<open>C38. What becomes of a key that does not have sixteen bytes, the one the documentation prints having
  fifteen: after \<^verbatim>\<open>dd\<close> it is refused with its length; after \<^verbatim>\<open>ee\<close> the length is not checked, the first sixteen
  bytes of key and domain together become the key and the others the domain, so that a short key silently
  takes bytes of the domain and a long one gives bytes to it.\<close>

theorem key_length:
  "parse_secret (''dd'' @ hex_encode key) =
     (if length key = 16 then Inr (no_secret\<lparr>s_raw := key, s_type := SecretTypeDD\<rparr>) else Inl (DDLength (length key)))
   \<and> parse_secret (''ee'' @ hex_encode key @ hex_encode domain) =
     (if length key + length domain < 16 then Inl EETooShort
      else Inr (no_secret\<lparr>s_raw := take 16 (key @ domain), s_type := SecretTypeEE,
                          s_domain := string_of_bytes (drop 16 (key @ domain))\<rparr>))"
proof
  show "parse_secret (''dd'' @ hex_encode key) =
     (if length key = 16 then Inr (no_secret\<lparr>s_raw := key, s_type := SecretTypeDD\<rparr>) else Inl (DDLength (length key)))"
    by (simp add: parse_secret_def)
  let ?xs = "key @ domain"
  have xs: "hex_encode key @ hex_encode domain = hex_encode ?xs" by (simp add: hex_encode_def)
  have "take 32 (hex_encode ?xs) = hex_encode (take 16 ?xs)" "drop 32 (hex_encode ?xs) = hex_encode (drop 16 ?xs)"
    using take_hex_encode [of 16 ?xs] drop_hex_encode [of 16 ?xs] by simp_all
  moreover have "drop 16 ?xs = []" "length ?xs = 16" if "\<not> 32 < length (hex_encode ?xs)" "\<not> length (hex_encode ?xs) < 32"
    using that by simp_all
  ultimately show "parse_secret (''ee'' @ hex_encode key @ hex_encode domain) =
     (if length key + length domain < 16 then Inl EETooShort
      else Inr (no_secret\<lparr>s_raw := take 16 ?xs, s_type := SecretTypeEE, s_domain := string_of_bytes (drop 16 ?xs)\<rparr>))"
    unfolding xs by (auto simp add: parse_secret_def Let_def string_of_bytes_def simp del: take_append drop_append)
qed

text \<open>The printed examples themselves.\<close>

lemma documented_examples:
  "load id (secrets_only ''alice:dd0102030405060708090a0b0c0d0e0f'') =
     Inl (InvalidSecret ''alice:dd0102030405060708090a0b0c0d0e0f'' (DDLength 15))"
  "case parse_secret ''ee0102030405060708090a0b0c0d0e0f676f6f676c652e636f6d'' of
     Inr s \<Rightarrow> s_domain s = ''oogle.com'' | Inl _ \<Rightarrow> False"
  by code_simp+

section \<open>Writing and reading a list of secrets\<close>

text \<open>The text that lists labelled secrets, and the labels it can carry.\<close>

definition secret_entry :: "secret \<Rightarrow> string" where
  "secret_entry s = s_name s @ '':'' @ hex_string s"

fun join :: "char \<Rightarrow> string list \<Rightarrow> string" where
  "join c [] = ''''"
| "join c [p] = p"
| "join c (p # ps) = p @ c # join c ps"

definition ascii_space :: "char \<Rightarrow> bool" where
  "ascii_space c \<longleftrightarrow> (of_char c :: nat) \<in> {9, 10, 11, 12, 13, 32}"

definition good_label :: "string \<Rightarrow> bool" where
  "good_label n \<longleftrightarrow>
     n \<noteq> '''' \<and> CHR '','' \<notin> set n \<and> CHR '':'' \<notin> set n \<and> is_ascii (hd n) \<and> \<not> ascii_space (hd n)"

lemma split_on_append: "c \<notin> set p \<Longrightarrow> split_on c (p @ c # s) = p # split_on c s"
  by (induction p) auto

lemma split_on_id: "c \<notin> set p \<Longrightarrow> split_on c p = [p]"
  by (induction p) auto

lemma split_on_join:
  "ps \<noteq> [] \<Longrightarrow> \<forall>p \<in> set ps. c \<notin> set p \<Longrightarrow> split_on c (join c ps) = ps"
  by (induction c ps rule: join.induct) (auto simp add: split_on_id split_on_append)

lemma index_byte_append: "c \<notin> set p \<Longrightarrow> index_byte (p @ c # s) c = Some (length p)"
  by (induction p) auto

lemma space_edges:
  "p \<in> set space_encodings \<Longrightarrow>
   (\<not> is_ascii (hd p) \<or> ascii_space (hd p)) \<and> (\<not> is_ascii (last p) \<or> ascii_space (last p))"
  by (auto simp add: space_encodings_def is_ascii_def ascii_space_def)

lemma no_space_prefix:
  assumes "s \<noteq> []" "is_ascii (hd s)" "\<not> ascii_space (hd s)"
    and "\<forall>p \<in> set ps. p \<noteq> [] \<and> (\<not> is_ascii (hd p) \<or> ascii_space (hd p))"
  shows "strip_first ps s = None"
  using assms by (auto simp add: strip_first_None prefix_def)

lemma trim_space_id:
  assumes "s \<noteq> []" "is_ascii (hd s)" "\<not> ascii_space (hd s)" "is_ascii (last s)" "\<not> ascii_space (last s)"
  shows "trim_space s = s"
proof -
  have ne: "p \<noteq> []" if "p \<in> set space_encodings" for p
    using that space_encodings_nonempty by auto
  have "strip_first space_encodings s = None"
    using assms ne space_edges by (intro no_space_prefix) auto
  moreover have "strip_first (map rev space_encodings) (rev s) = None"
    using assms ne space_edges by (intro no_space_prefix) (auto simp add: hd_rev)
  ultimately show ?thesis by (simp add: trim_space_def trim_left_with_id)
qed

lemma hex_edge: "c \<in> set hex_chars \<Longrightarrow> is_ascii c \<and> \<not> ascii_space c"
  using hex_chars_facts [of c] by (auto simp add: ascii_space_def)

lemma hex_string_nonempty: "wf_secret s \<Longrightarrow> hex_string s \<noteq> ''''"
  by (auto simp add: hex_string_def wf_secret_def)

lemma trim_entry:
  assumes "wf_secret s" "good_label (s_name s)"
  shows "trim_space (secret_entry s) = secret_entry s"
proof (rule trim_space_id)
  have "last (secret_entry s) \<in> set (hex_string s)"
    using hex_string_nonempty [OF assms(1)] by (simp add: secret_entry_def)
  with hex_string_chars [OF assms(1)] have "last (secret_entry s) \<in> set hex_chars" by blast
  then show "is_ascii (last (secret_entry s))" "\<not> ascii_space (last (secret_entry s))"
    using hex_edge by auto
qed (use assms in \<open>simp_all add: secret_entry_def good_label_def\<close>)

lemma load_part_entry:
  assumes "wf_secret s" "good_label (s_name s)"
  shows "load_part ul (secret_entry s) = Inr (Some s)"
proof -
  have "index_byte (secret_entry s) (CHR '':'') = Some (length (s_name s))"
    using assms by (simp add: secret_entry_def good_label_def index_byte_append)
  moreover have "secret_entry s \<noteq> ''''" "s_name s \<noteq> ''''"
    using assms by (simp_all add: secret_entry_def good_label_def)
  ultimately show ?thesis
    using hex_lower_id [OF hex_string_chars [OF assms(1)], of ul] parse_secret_hex_string [OF assms(1)]
    by (simp add: load_part_def trim_entry [OF assms] Let_def) (simp add: secret_entry_def)
qed

lemma load_parts_entries:
  assumes "\<forall>s \<in> set ss. wf_secret s \<and> good_label (s_name s)"
  shows "load_parts ul (map secret_entry ss) acc = Inr (acc @ ss)"
  using assms by (induction ss arbitrary: acc) (auto simp add: load_part_entry)

lemma entry_no_comma:
  assumes "wf_secret s" "good_label (s_name s)"
  shows "CHR '','' \<notin> set (secret_entry s)"
proof -
  have "CHR '','' \<notin> set (hex_string s)"
    using hex_string_chars [OF assms(1)] hex_chars_facts(3) by blast
  with assms show ?thesis by (simp add: secret_entry_def good_label_def)
qed

lemma join_nonempty: "ps \<noteq> [] \<Longrightarrow> \<forall>p \<in> set ps. p \<noteq> [] \<Longrightarrow> join c ps \<noteq> []"
  by (induction c ps rule: join.induct) auto

text \<open>C35. Writing any non-empty list of labelled secrets the way the documentation describes and loading it
  gives back exactly these secrets, in order, with their labels.\<close>

theorem load_roundtrip:
  assumes "ss \<noteq> []" "\<forall>s \<in> set ss. wf_secret s \<and> good_label (s_name s)"
    and "env ''SECRETS'' = join (CHR '','') (map secret_entry ss)"
  shows "\<exists>cfg. load ul env = Inr cfg \<and> Secrets cfg = ss"
proof -
  have "split_on (CHR '','') (env ''SECRETS'') = map secret_entry ss"
    using assms by (auto simp add: entry_no_comma intro!: split_on_join)
  moreover have "env ''SECRETS'' \<noteq> ''''"
    using assms(1,3) join_nonempty [of "map secret_entry ss"] by (simp add: secret_entry_def)
  ultimately show ?thesis
    using load_parts_entries [OF assms(2), of ul "[]"] assms(1) by (simp add: load_def Let_def)
qed

theorem load_roundtrip_witness:
  "\<exists>cfg. load id (secrets_only (join (CHR '','') (map secret_entry [example_secret, example_secret]))) = Inr cfg
     \<and> Secrets cfg = [example_secret, example_secret]"
  by (rule load_roundtrip)
    (simp_all add: example_secret_def wf_secret_def good_label_def is_ascii_def ascii_space_def
      secrets_only_def)

end
