(* ===== verification/Stats.thy ===== *)
theory Stats
  imports Prelude
begin

text \<open>
  \<^verbatim>\<open>stats/stats.go\<close>: the counters of the proxy. Connection handlers run concurrently and touch the counters
  with atomic additions; only the lookup of a secret's entry is under the mutex, and the entry is
  updated through its pointer after the mutex is released. Each operation is therefore a sequence of
  atomic actions, and the handlers' actions interleave in any order. The entries live in a heap
  addressed by pointers, so that the aliasing of \<^verbatim>\<open>perSecret\<close> is explicit.
\<close>

section \<open>State\<close>

record secret_stats =
  ss_active :: int64
  ss_total :: int64

record stats =
  activeConns :: int64
  totalConns :: int64
  bytesIn :: int64
  bytesOut :: int64
  startTime :: int
  perSecret :: "string \<Rightarrow> nat option"
  heap :: "secret_stats list"

definition stats_new :: "int \<Rightarrow> stats" where
  "stats_new now = \<lparr>activeConns = 0, totalConns = 0, bytesIn = 0, bytesOut = 0, startTime = now,
     perSecret = Map.empty, heap = []\<rparr>"

text \<open>\<^verbatim>\<open>secretStats\<close>: the pointer of the entry of a name, created on first use (with the mutex held).\<close>

definition secretStats :: "string \<Rightarrow> stats \<Rightarrow> nat \<times> stats" where
  "secretStats name s =
     (case perSecret s name of
        Some a \<Rightarrow> (a, s)
      | None \<Rightarrow>
          let a = length (heap s)
          in (a, s\<lparr>perSecret := (perSecret s)(name \<mapsto> a),
                   heap := heap s @ [\<lparr>ss_active = 0, ss_total = 0\<rparr>]\<rparr>))"

section \<open>Atomic actions\<close>

datatype action =
    AddActive int64 | AddTotal int64 | AddIn int64 | AddOut int64
  | GetEntry string | EntryActive int64 | EntryTotal int64

text \<open>One atomic action of a goroutine whose local variable \<^verbatim>\<open>ss\<close> is the pointer \<open>p\<close>.\<close>

fun exec_action :: "action \<Rightarrow> nat option \<times> stats \<Rightarrow> nat option \<times> stats" where
  "exec_action (AddActive d) (p, s) = (p, s\<lparr>activeConns := activeConns s + d\<rparr>)"
| "exec_action (AddTotal d) (p, s) = (p, s\<lparr>totalConns := totalConns s + d\<rparr>)"
| "exec_action (AddIn d) (p, s) = (p, s\<lparr>bytesIn := bytesIn s + d\<rparr>)"
| "exec_action (AddOut d) (p, s) = (p, s\<lparr>bytesOut := bytesOut s + d\<rparr>)"
| "exec_action (GetEntry n) (p, s) = (case secretStats n s of (a, s') \<Rightarrow> (Some a, s'))"
| "exec_action (EntryActive d) (p, s) =
     (case p of None \<Rightarrow> (p, s)
      | Some a \<Rightarrow> (p, s\<lparr>heap := (heap s)[a := (heap s ! a)\<lparr>ss_active := ss_active (heap s ! a) + d\<rparr>]\<rparr>))"
| "exec_action (EntryTotal d) (p, s) =
     (case p of None \<Rightarrow> (p, s)
      | Some a \<Rightarrow> (p, s\<lparr>heap := (heap s)[a := (heap s ! a)\<lparr>ss_total := ss_total (heap s ! a) + d\<rparr>]\<rparr>))"

definition conn_open_actions :: "string \<Rightarrow> action list" where
  "conn_open_actions n = [AddActive 1, AddTotal 1, GetEntry n, EntryActive 1, EntryTotal 1]"

definition conn_close_actions :: "string \<Rightarrow> action list" where
  "conn_close_actions n = [AddActive (- 1), GetEntry n, EntryActive (- 1)]"

definition bytes_in_actions :: "int64 \<Rightarrow> action list" where
  "bytes_in_actions n = [AddIn n]"

definition bytes_out_actions :: "int64 \<Rightarrow> action list" where
  "bytes_out_actions n = [AddOut n]"

text \<open>An operation called by a goroutine that nothing interferes with.\<close>

definition run_actions :: "action list \<Rightarrow> nat option \<times> stats \<Rightarrow> nat option \<times> stats" where
  "run_actions as ps = foldl (\<lambda>ps a. exec_action a ps) ps as"

definition ConnOpen :: "string \<Rightarrow> stats \<Rightarrow> stats" where
  "ConnOpen n s = snd (run_actions (conn_open_actions n) (None, s))"

definition ConnClose :: "string \<Rightarrow> stats \<Rightarrow> stats" where
  "ConnClose n s = snd (run_actions (conn_close_actions n) (None, s))"

definition AddBytesIn :: "int64 \<Rightarrow> stats \<Rightarrow> stats" where
  "AddBytesIn n s = snd (run_actions (bytes_in_actions n) (None, s))"

definition AddBytesOut :: "int64 \<Rightarrow> stats \<Rightarrow> stats" where
  "AddBytesOut n s = snd (run_actions (bytes_out_actions n) (None, s))"

lemma add_bytes_eq:
  "AddBytesIn n s = s\<lparr>bytesIn := bytesIn s + n\<rparr>" "AddBytesOut n s = s\<lparr>bytesOut := bytesOut s + n\<rparr>"
  by (simp_all add: AddBytesIn_def AddBytesOut_def bytes_in_actions_def bytes_out_actions_def run_actions_def)

section \<open>Goroutines interleaved\<close>

text \<open>A goroutine: the actions it still has to perform and its pointer variable.\<close>

record thread =
  todo :: "action list"
  ptr :: "nat option"

record system =
  shared :: stats
  threads :: "thread list"

inductive sys_step :: "system \<Rightarrow> system \<Rightarrow> bool" where
  act: "i < length (threads S) \<Longrightarrow> todo (threads S ! i) = a # as \<Longrightarrow>
    exec_action a (ptr (threads S ! i), shared S) = (p', s') \<Longrightarrow>
    sys_step S \<lparr>shared = s', threads = (threads S)[i := \<lparr>todo = as, ptr = p'\<rparr>]\<rparr>"

inductive sys_run :: "system \<Rightarrow> system \<Rightarrow> bool" where
  idle: "sys_run S S"
| step: "sys_run S T \<Longrightarrow> sys_step T U \<Longrightarrow> sys_run S U"

inductive_cases sys_stepE: "sys_step S T"

definition start_system :: "int \<Rightarrow> action list list \<Rightarrow> system" where
  "start_system now progs =
     \<lparr>shared = stats_new now, threads = map (\<lambda>p. \<lparr>todo = p, ptr = None\<rparr>) progs\<rparr>"

definition finished :: "system \<Rightarrow> bool" where
  "finished S \<longleftrightarrow> (\<forall>t \<in> set (threads S). todo t = [])"

text \<open>The pointers in use are addresses of the heap, and different names have different entries.\<close>

definition stats_ok :: "stats \<Rightarrow> bool" where
  "stats_ok s \<longleftrightarrow>
     (\<forall>n a. perSecret s n = Some a \<longrightarrow> a < length (heap s)) \<and>
     (\<forall>m n a. perSecret s m = Some a \<longrightarrow> perSecret s n = Some a \<longrightarrow> m = n)"

definition ptr_ok :: "stats \<Rightarrow> nat option \<Rightarrow> bool" where
  "ptr_ok s p \<longleftrightarrow> (\<forall>a. p = Some a \<longrightarrow> a < length (heap s))"

definition sys_ok :: "system \<Rightarrow> bool" where
  "sys_ok S \<longleftrightarrow> stats_ok (shared S) \<and> (\<forall>t \<in> set (threads S). ptr_ok (shared S) (ptr t))"

text \<open>What \<^verbatim>\<open>/stats\<close> shows for a name (nothing recorded counts as zero).\<close>

definition active_of :: "stats \<Rightarrow> string \<Rightarrow> int64" where
  "active_of s n = (case perSecret s n of None \<Rightarrow> 0 | Some a \<Rightarrow> ss_active (heap s ! a))"

definition total_of :: "stats \<Rightarrow> string \<Rightarrow> int64" where
  "total_of s n = (case perSecret s n of None \<Rightarrow> 0 | Some a \<Rightarrow> ss_total (heap s ! a))"

section \<open>The invariant of the pointers\<close>

lemma secretStats_new:
  "perSecret s n = None \<Longrightarrow> secretStats n s = (a, s') \<Longrightarrow>
   a = length (heap s) \<and> s' = s\<lparr>perSecret := (perSecret s)(n \<mapsto> length (heap s)),
      heap := heap s @ [\<lparr>ss_active = 0, ss_total = 0\<rparr>]\<rparr>"
  by (auto simp add: secretStats_def Let_def)

lemma secretStats_ok:
  assumes "stats_ok s" "secretStats n s = (a, s')"
  shows "stats_ok s' \<and> a < length (heap s') \<and> perSecret s' n = Some a
    \<and> length (heap s) \<le> length (heap s')"
proof (cases "perSecret s n")
  case None
  let ?s = "s\<lparr>perSecret := (perSecret s)(n \<mapsto> length (heap s)),
      heap := heap s @ [\<lparr>ss_active = 0, ss_total = 0\<rparr>]\<rparr>"
  have s': "s' = ?s" "a = length (heap s)"
    using secretStats_new [OF None assms(2)] by simp_all
  have old: "\<And>m b. perSecret s m = Some b \<Longrightarrow> b < length (heap s)"
    and inj: "\<And>k m b. perSecret s k = Some b \<Longrightarrow> perSecret s m = Some b \<Longrightarrow> k = m"
    using assms(1) by (auto simp add: stats_ok_def)
  have "stats_ok ?s"
    unfolding stats_ok_def
  proof (intro conjI allI impI)
    fix m b assume "perSecret ?s m = Some b"
    then show "b < length (heap ?s)" using old [of m b] by (auto split: if_splits)
  next
    fix k m b assume "perSecret ?s k = Some b" "perSecret ?s m = Some b"
    then show "k = m" using old [of k b] old [of m b] inj [of k b m] by (auto split: if_splits)
  qed
  with s' show ?thesis by simp
next
  case (Some b)
  with assms show ?thesis by (auto simp add: secretStats_def stats_ok_def)
qed

lemma exec_action_ok:
  assumes "stats_ok s" "ptr_ok s p" "exec_action a (p, s) = (p', s')"
  shows "stats_ok s' \<and> ptr_ok s' p' \<and> length (heap s) \<le> length (heap s')"
proof (cases a)
  case (GetEntry n)
  obtain x y where xy: "secretStats n s = (x, y)" by (cases "secretStats n s")
  with assms GetEntry have "p' = Some x" "s' = y" by simp_all
  then show ?thesis using secretStats_ok [OF assms(1) xy] by (simp add: ptr_ok_def)
qed (use assms in \<open>auto simp add: stats_ok_def ptr_ok_def split: option.splits\<close>)

lemma sys_step_ok:
  assumes "sys_step S T" "sys_ok S"
  shows "sys_ok T"
  using assms
proof cases
  case (act i a as p' s')
  have "threads S ! i \<in> set (threads S)" using act by simp
  with assms have "stats_ok (shared S)" "ptr_ok (shared S) (ptr (threads S ! i))"
    by (auto simp add: sys_ok_def)
  from exec_action_ok [OF this act(4)]
  have new: "stats_ok s'" "ptr_ok s' p'" "length (heap (shared S)) \<le> length (heap s')" by auto
  have "ptr_ok s' (ptr t)" if "t \<in> set (threads S)" for t
    using that assms(2) new(3) by (auto simp add: sys_ok_def ptr_ok_def intro: less_le_trans)
  with new act show ?thesis
    by (auto simp add: sys_ok_def dest!: set_update_subset_insert [THEN subsetD])
qed

lemma sys_run_ok: "sys_run S T \<Longrightarrow> sys_ok S \<Longrightarrow> sys_ok T"
  by (induction rule: sys_run.induct) (auto intro: sys_step_ok)

lemma start_system_ok: "sys_ok (start_system now progs)"
  by (auto simp add: sys_ok_def start_system_def stats_new_def stats_ok_def ptr_ok_def)

section \<open>What every interleaving preserves\<close>

text \<open>
  The amount an action adds to each counter; for the entry of a name it is added only if the pointer
  variable holds that entry at the time, which depends on the last lookup.
\<close>

fun d_active :: "action \<Rightarrow> int64" where
  "d_active (AddActive d) = d" | "d_active _ = 0"

fun d_total :: "action \<Rightarrow> int64" where
  "d_total (AddTotal d) = d" | "d_total _ = 0"

fun d_in :: "action \<Rightarrow> int64" where
  "d_in (AddIn d) = d" | "d_in _ = 0"

fun d_out :: "action \<Rightarrow> int64" where
  "d_out (AddOut d) = d" | "d_out _ = 0"

fun d_entry_active :: "action \<Rightarrow> int64" where
  "d_entry_active (EntryActive d) = d" | "d_entry_active _ = 0"

fun d_entry_total :: "action \<Rightarrow> int64" where
  "d_entry_total (EntryTotal d) = d" | "d_entry_total _ = 0"

definition holds :: "stats \<Rightarrow> string \<Rightarrow> nat option \<Rightarrow> bool" where
  "holds s n p \<longleftrightarrow> p \<noteq> None \<and> perSecret s n = p"

definition holds_next :: "string \<Rightarrow> bool \<Rightarrow> action \<Rightarrow> bool" where
  "holds_next n cur a = (case a of GetEntry m \<Rightarrow> m = n | _ \<Rightarrow> cur)"

fun entry_pending :: "(action \<Rightarrow> int64) \<Rightarrow> string \<Rightarrow> bool \<Rightarrow> action list \<Rightarrow> int64" where
  "entry_pending d n cur [] = 0"
| "entry_pending d n cur (a # as) =
     (if cur then d a else 0) + entry_pending d n (holds_next n cur a) as"

definition pending :: "(action \<Rightarrow> int64) \<Rightarrow> system \<Rightarrow> int64" where
  "pending d S = sum_list (map (\<lambda>t. sum_list (map d (todo t))) (threads S))"

definition pending_entry :: "(action \<Rightarrow> int64) \<Rightarrow> string \<Rightarrow> system \<Rightarrow> int64" where
  "pending_entry d n S =
     sum_list (map (\<lambda>t. entry_pending d n (holds (shared S) n (ptr t)) (todo t)) (threads S))"

lemma sum_list_update_group:
  fixes xs :: "'a :: ab_group_add list"
  shows "i < length xs \<Longrightarrow> sum_list (xs[i := x]) = sum_list xs - xs ! i + x"
proof (induction xs arbitrary: i)
  case (Cons y ys)
  then show ?case by (cases i) (simp_all add: algebra_simps)
qed simp

lemma exec_action_counters:
  "exec_action a (p, s) = (p', s') \<Longrightarrow>
   activeConns s' = activeConns s + d_active a \<and> totalConns s' = totalConns s + d_total a
   \<and> bytesIn s' = bytesIn s + d_in a \<and> bytesOut s' = bytesOut s + d_out a \<and> startTime s' = startTime s"
  by (cases a) (auto simp add: secretStats_def Let_def split: option.splits)

lemma secretStats_entries:
  assumes "stats_ok s" "secretStats m s = (a, s')"
  shows "active_of s' n = active_of s n \<and> total_of s' n = total_of s n
    \<and> (perSecret s' n = Some a \<longleftrightarrow> m = n)
    \<and> (\<forall>q. ptr_ok s q \<longrightarrow> holds s' n q = holds s n q)"
proof (cases "perSecret s m")
  case None
  have old: "b < length (heap s)" if "perSecret s n = Some b" for b
    using assms(1) that by (auto simp add: stats_ok_def)
  have s': "a = length (heap s)" "s' = s\<lparr>perSecret := (perSecret s)(m \<mapsto> length (heap s)),
      heap := heap s @ [\<lparr>ss_active = 0, ss_total = 0\<rparr>]\<rparr>"
    using secretStats_new [OF None assms(2)] by simp_all
  have "active_of s' n = active_of s n" "total_of s' n = total_of s n"
    using None old by (auto simp add: s' active_of_def total_of_def nth_append split: option.splits)
  moreover have "perSecret s' n = Some a \<longleftrightarrow> m = n"
    using old by (auto simp add: s')
  moreover have "holds s' n q = holds s n q" if "ptr_ok s q" for q
    using that None by (auto simp add: s' holds_def ptr_ok_def)
  ultimately show ?thesis by simp
next
  case (Some b)
  with assms show ?thesis
    by (auto simp add: secretStats_def stats_ok_def)
qed

lemma exec_action_entries:
  assumes "stats_ok s" "ptr_ok s p" "exec_action a (p, s) = (p', s')"
  shows "active_of s' n = active_of s n + (if holds s n p then d_entry_active a else 0)"
    and "total_of s' n = total_of s n + (if holds s n p then d_entry_total a else 0)"
    and "holds s' n p' = holds_next n (holds s n p) a"
    and "ptr_ok s q \<Longrightarrow> holds s' n q = holds s n q"
proof -
  have "active_of s' n = active_of s n + (if holds s n p then d_entry_active a else 0)
    \<and> total_of s' n = total_of s n + (if holds s n p then d_entry_total a else 0)
    \<and> holds s' n p' = holds_next n (holds s n p) a
    \<and> (ptr_ok s q \<longrightarrow> holds s' n q = holds s n q)"
  proof (cases a)
    case (GetEntry m)
    obtain x y where xy: "secretStats m s = (x, y)" by (cases "secretStats m s")
    with assms GetEntry have "p' = Some x" "s' = y" by simp_all
    with secretStats_entries [OF assms(1) xy, of n] GetEntry show ?thesis
      by (auto simp add: holds_def [of y n "Some x"] holds_next_def)
  next
    case (EntryActive d)
    with assms show ?thesis
      by (auto simp add: active_of_def total_of_def holds_def holds_next_def ptr_ok_def stats_ok_def
          nth_list_update split: option.splits)
  next
    case (EntryTotal d)
    with assms show ?thesis
      by (auto simp add: active_of_def total_of_def holds_def holds_next_def ptr_ok_def stats_ok_def
          nth_list_update split: option.splits)
  qed (use assms in \<open>auto simp add: active_of_def total_of_def holds_def holds_next_def split: option.splits\<close>)
  then show "active_of s' n = active_of s n + (if holds s n p then d_entry_active a else 0)"
    "total_of s' n = total_of s n + (if holds s n p then d_entry_total a else 0)"
    "holds s' n p' = holds_next n (holds s n p) a"
    "ptr_ok s q \<Longrightarrow> holds s' n q = holds s n q" by auto
qed

lemma pending_step:
  assumes "i < length (threads S)" "todo (threads S ! i) = a # as"
  shows "pending d \<lparr>shared = s', threads = (threads S)[i := \<lparr>todo = as, ptr = p'\<rparr>]\<rparr> = pending d S - d a"
  using assms by (simp add: pending_def map_update sum_list_update_group)

lemma pending_entry_step:
  assumes "sys_ok S" "i < length (threads S)" "todo (threads S ! i) = a # as"
    and ex: "exec_action a (ptr (threads S ! i), shared S) = (p', s')"
  shows "pending_entry d n \<lparr>shared = s', threads = (threads S)[i := \<lparr>todo = as, ptr = p'\<rparr>]\<rparr> =
    pending_entry d n S - (if holds (shared S) n (ptr (threads S ! i)) then d a else 0)"
proof -
  let ?f = "\<lambda>s t. entry_pending d n (holds s n (ptr t)) (todo t)"
  have ok: "stats_ok (shared S)" "ptr_ok (shared S) (ptr t)" if "t \<in> set (threads S)" for t
    using assms(1) that by (auto simp add: sys_ok_def)
  have mem: "threads S ! i \<in> set (threads S)" using assms by simp
  note step = exec_action_entries [OF ok(1) [OF mem] ok(2) [OF mem] ex]
  have same: "map (?f s') (threads S) = map (?f (shared S)) (threads S)"
    using step(4) ok by auto
  have "pending_entry d n \<lparr>shared = s', threads = (threads S)[i := \<lparr>todo = as, ptr = p'\<rparr>]\<rparr> =
    sum_list ((map (?f (shared S)) (threads S))[i := ?f s' \<lparr>todo = as, ptr = p'\<rparr>])"
    by (simp add: pending_entry_def map_update same)
  also have "\<dots> = pending_entry d n S - ?f (shared S) (threads S ! i) + ?f s' \<lparr>todo = as, ptr = p'\<rparr>"
    using assms(2) by (simp add: sum_list_update_group pending_entry_def)
  finally show ?thesis using assms(3) step(3) by simp
qed

text \<open>The value of each counter plus what the goroutines have still to add to it never changes.\<close>

definition conserved :: "string \<Rightarrow> system \<Rightarrow> int64 list" where
  "conserved n S =
     [activeConns (shared S) + pending d_active S, totalConns (shared S) + pending d_total S,
      bytesIn (shared S) + pending d_in S, bytesOut (shared S) + pending d_out S,
      active_of (shared S) n + pending_entry d_entry_active n S,
      total_of (shared S) n + pending_entry d_entry_total n S]"

lemma sys_step_conserved:
  assumes "sys_step S T" "sys_ok S"
  shows "conserved n T = conserved n S"
  using assms(1)
proof cases
  case (act i a as p' s')
  have mem: "threads S ! i \<in> set (threads S)" using act by simp
  with assms(2) have ok: "stats_ok (shared S)" "ptr_ok (shared S) (ptr (threads S ! i))"
    by (auto simp add: sys_ok_def)
  from exec_action_counters [OF act(4)] exec_action_entries(1,2) [OF ok act(4), of n]
    pending_step [OF act(2,3)] pending_entry_step [OF assms(2) act(2,3,4)]
  show ?thesis by (simp add: conserved_def act(1))
qed

lemma sys_run_conserved: "sys_run S T \<Longrightarrow> sys_ok S \<Longrightarrow> conserved n T = conserved n S"
proof (induction rule: sys_run.induct)
  case (step S T U)
  then show ?case using sys_step_conserved [of T U n] sys_run_ok [of S T] by simp
qed simp

section \<open>The statistics of any set of connections\<close>

text \<open>
  The goroutines that touch the counters: the handler of a connection still being relayed, that of a
  connection already over, and the two directions of a relay, each of which reports its byte count
  when it ends (which may be after the handler has closed the connection).
\<close>

datatype goroutine = Relaying string | Over string | CopiedIn int64 | CopiedOut int64

fun goroutine_actions :: "goroutine \<Rightarrow> action list" where
  "goroutine_actions (Relaying n) = conn_open_actions n"
| "goroutine_actions (Over n) = conn_open_actions n @ conn_close_actions n"
| "goroutine_actions (CopiedIn k) = bytes_in_actions k"
| "goroutine_actions (CopiedOut k) = bytes_out_actions k"

text \<open>What each of them contributes to the page: open connections, connections, bytes.\<close>

fun relaying_for :: "(string \<Rightarrow> bool) \<Rightarrow> goroutine \<Rightarrow> bool" where
  "relaying_for P (Relaying n) = P n"
| "relaying_for P _ = False"

fun handling_for :: "(string \<Rightarrow> bool) \<Rightarrow> goroutine \<Rightarrow> bool" where
  "handling_for P (Relaying n) = P n"
| "handling_for P (Over n) = P n"
| "handling_for P _ = False"

fun bytes_in_of :: "goroutine \<Rightarrow> int64" where
  "bytes_in_of (CopiedIn k) = k" | "bytes_in_of _ = 0"

fun bytes_out_of :: "goroutine \<Rightarrow> int64" where
  "bytes_out_of (CopiedOut k) = k" | "bytes_out_of _ = 0"

lemma goroutine_sums:
  "sum_list (map d_active (goroutine_actions g)) = (if relaying_for (\<lambda>_. True) g then 1 else 0)"
  "sum_list (map d_total (goroutine_actions g)) = (if handling_for (\<lambda>_. True) g then 1 else 0)"
  "sum_list (map d_in (goroutine_actions g)) = bytes_in_of g"
  "sum_list (map d_out (goroutine_actions g)) = bytes_out_of g"
  by (cases g; simp add: conn_open_actions_def conn_close_actions_def bytes_in_actions_def bytes_out_actions_def)+

lemma goroutine_entries:
  "entry_pending d_entry_active n False (goroutine_actions g) =
     (if relaying_for (\<lambda>m. m = n) g then 1 else 0)"
  "entry_pending d_entry_total n False (goroutine_actions g) =
     (if handling_for (\<lambda>m. m = n) g then 1 else 0)"
  by (cases g; simp add: conn_open_actions_def conn_close_actions_def bytes_in_actions_def bytes_out_actions_def holds_next_def)+

lemma sum_list_indicator:
  "sum_list (map (\<lambda>c. if P c then 1 else 0) cs) = (of_nat (length (filter P cs)) :: int64)"
  by (induction cs) auto

lemma pending_finished: "finished S \<Longrightarrow> pending d S = 0 \<and> pending_entry d n S = 0"
proof -
  assume "finished S"
  then have "map (\<lambda>t. sum_list (map d (todo t))) (threads S) = map (\<lambda>_. 0) (threads S)"
    "map (\<lambda>t. entry_pending d n (holds (shared S) n (ptr t)) (todo t)) (threads S) =
     map (\<lambda>_. 0) (threads S)"
    by (auto simp add: finished_def)
  then show ?thesis by (simp only: pending_def pending_entry_def) simp
qed

lemma pending_start:
  "pending d (start_system now (map f cs)) = sum_list (map (\<lambda>c. sum_list (map d (f c))) cs)"
  "pending_entry e n (start_system now (map f cs)) =
     sum_list (map (\<lambda>c. entry_pending e n False (f c)) cs)"
  by (simp_all add: pending_def pending_entry_def start_system_def o_def holds_def)

text \<open>Every interleaving can be completed: no goroutine ever waits for another.\<close>

lemma sys_run_trans: "sys_run T U \<Longrightarrow> sys_run S T \<Longrightarrow> sys_run S U"
  by (induction rule: sys_run.induct) (auto intro: sys_run.step)

lemma sys_run_completes: "\<exists>T. sys_run S T \<and> finished T"
proof (induction "sum_list (map (\<lambda>t. length (todo t)) (threads S))" arbitrary: S rule: less_induct)
  case less
  show ?case
  proof (cases "finished S")
    case True
    then show ?thesis by (auto intro: sys_run.idle)
  next
    case False
    then obtain i where i: "i < length (threads S)" "todo (threads S ! i) \<noteq> []"
      by (auto simp add: finished_def in_set_conv_nth)
    then obtain a as where a: "todo (threads S ! i) = a # as" by (cases "todo (threads S ! i)") auto
    obtain p' s' where ex: "exec_action a (ptr (threads S ! i), shared S) = (p', s')" by fastforce
    let ?T = "\<lparr>shared = s', threads = (threads S)[i := \<lparr>todo = as, ptr = p'\<rparr>]\<rparr>"
    have st: "sys_step S ?T" using i(1) a ex by (rule sys_step.act)
    have "sum_list (map (\<lambda>t. length (todo t)) (threads ?T)) < sum_list (map (\<lambda>t. length (todo t)) (threads S))"
    proof -
      have "length (todo (threads S ! i)) \<le> sum_list (map (\<lambda>t. length (todo t)) (threads S))"
        using i(1) by (intro member_le_sum_list) auto
      then show ?thesis using i(1) a by (simp add: map_update sum_list_update)
    qed
    from less [OF this] obtain U where "sys_run ?T U" "finished U" by blast
    then show ?thesis using sys_run_trans sys_run.step [OF sys_run.idle st] by blast
  qed
qed

text \<open>C11. Whatever the interleaving of any number of connection handlers and relay directions, once all have
  run the counters are exact: the connections still open and ever opened, in total and for each
  secret, and the bytes copied in each direction (as 64-bit counters).\<close>

theorem stats_exact:
  assumes "sys_run (start_system now (map goroutine_actions gs)) S" "finished S"
  shows "activeConns (shared S) = of_nat (length (filter (relaying_for (\<lambda>_. True)) gs))
    \<and> totalConns (shared S) = of_nat (length (filter (handling_for (\<lambda>_. True)) gs))
    \<and> bytesIn (shared S) = sum_list (map bytes_in_of gs)
    \<and> bytesOut (shared S) = sum_list (map bytes_out_of gs)
    \<and> active_of (shared S) n = of_nat (length (filter (relaying_for (\<lambda>m. m = n)) gs))
    \<and> total_of (shared S) n = of_nat (length (filter (handling_for (\<lambda>m. m = n)) gs))"
proof -
  let ?S = "start_system now (map goroutine_actions gs)"
  have "conserved n S = conserved n ?S"
    by (rule sys_run_conserved [OF assms(1) start_system_ok])
  moreover have "shared ?S = stats_new now" by (simp add: start_system_def)
  moreover have "active_of (stats_new now) n = 0" "total_of (stats_new now) n = 0"
    by (simp_all add: stats_new_def active_of_def total_of_def)
  ultimately show ?thesis
    using pending_finished [OF assms(2)]
    by (simp add: conserved_def pending_start goroutine_sums goroutine_entries sum_list_indicator)
      (simp add: stats_new_def)
qed

theorem stats_exact_witness:
  "\<exists>S. sys_run (start_system 0 (map goroutine_actions
      [Relaying ''bob'', Over ''alice'', CopiedIn 7, Over ''bob''])) S
    \<and> finished S \<and> activeConns (shared S) = 1 \<and> totalConns (shared S) = 3
    \<and> bytesIn (shared S) = 7 \<and> active_of (shared S) ''bob'' = 1 \<and> total_of (shared S) ''bob'' = 2"
proof -
  let ?gs = "[Relaying ''bob'', Over ''alice'', CopiedIn 7, Over ''bob'']"
  obtain S where S: "sys_run (start_system 0 (map goroutine_actions ?gs)) S" "finished S"
    using sys_run_completes by blast
  from stats_exact [OF S, of "''bob''"] S show ?thesis by (intro exI [of _ S]) simp
qed

section \<open>One operation at a time\<close>

text \<open>A goroutine running alone adds to each counter what its actions say.\<close>

lemma run_actions_effect:
  assumes "stats_ok s" "ptr_ok s p" "run_actions as (p, s) = (p', s')"
  shows "stats_ok s' \<and> ptr_ok s' p'
    \<and> activeConns s' = activeConns s + sum_list (map d_active as)
    \<and> totalConns s' = totalConns s + sum_list (map d_total as)
    \<and> bytesIn s' = bytesIn s + sum_list (map d_in as) \<and> bytesOut s' = bytesOut s + sum_list (map d_out as)
    \<and> active_of s' n = active_of s n + entry_pending d_entry_active n (holds s n p) as
    \<and> total_of s' n = total_of s n + entry_pending d_entry_total n (holds s n p) as"
  using assms
proof (induction as arbitrary: p s)
  case (Cons a as)
  obtain p1 s1 where a: "exec_action a (p, s) = (p1, s1)" by fastforce
  have ok: "stats_ok s1" "ptr_ok s1 p1" using exec_action_ok [OF Cons.prems(1,2) a] by auto
  have "run_actions as (p1, s1) = (p', s')" using Cons.prems(3) a by (simp add: run_actions_def)
  from Cons.IH [OF ok this] exec_action_counters [OF a] exec_action_entries(1,2,3) [OF Cons.prems(1,2) a, of n]
  show ?case by simp
qed (simp add: run_actions_def)

lemma conn_open_effect:
  assumes "stats_ok s"
  shows "stats_ok (ConnOpen n s) \<and> activeConns (ConnOpen n s) = activeConns s + 1
    \<and> totalConns (ConnOpen n s) = totalConns s + 1
    \<and> bytesIn (ConnOpen n s) = bytesIn s \<and> bytesOut (ConnOpen n s) = bytesOut s
    \<and> active_of (ConnOpen n s) m = active_of s m + (if m = n then 1 else 0)
    \<and> total_of (ConnOpen n s) m = total_of s m + (if m = n then 1 else 0)"
proof -
  obtain p' s' where r: "run_actions (conn_open_actions n) (None, s) = (p', s')" by fastforce
  have "ptr_ok s None" by (simp add: ptr_ok_def)
  from run_actions_effect [OF assms this r, of m] r show ?thesis
    by (simp add: ConnOpen_def conn_open_actions_def holds_next_def holds_def)
qed

lemma conn_close_effect:
  assumes "stats_ok s"
  shows "stats_ok (ConnClose n s) \<and> activeConns (ConnClose n s) = activeConns s - 1
    \<and> totalConns (ConnClose n s) = totalConns s
    \<and> bytesIn (ConnClose n s) = bytesIn s \<and> bytesOut (ConnClose n s) = bytesOut s
    \<and> active_of (ConnClose n s) m = active_of s m - (if m = n then 1 else 0)
    \<and> total_of (ConnClose n s) m = total_of s m"
proof -
  obtain p' s' where r: "run_actions (conn_close_actions n) (None, s) = (p', s')" by fastforce
  have "ptr_ok s None" by (simp add: ptr_ok_def)
  from run_actions_effect [OF assms this r, of m] r show ?thesis
    by (simp add: ConnClose_def conn_close_actions_def holds_next_def holds_def)
qed

text \<open>Run without interference, opening a connection and closing it again leaves the number of active
  connections as it was, in total and for every secret, and counts one more connection for the
  secret; and the entries of other secrets are untouched.\<close>

theorem open_close_balanced:
  assumes "stats_ok s"
  shows "let s' = ConnClose n (ConnOpen n s) in
    activeConns s' = activeConns s \<and> totalConns s' = totalConns s + 1
    \<and> active_of s' m = active_of s m \<and> total_of s' m = total_of s m + (if m = n then 1 else 0)
    \<and> bytesIn s' = bytesIn s \<and> bytesOut s' = bytesOut s"
  using conn_open_effect [OF assms, of n m] conn_close_effect [of "ConnOpen n s" n m] by (simp add: Let_def)

theorem open_close_balanced_witness:
  "totalConns (ConnClose ''a'' (ConnOpen ''a'' (stats_new 0))) = 1"
proof -
  have "stats_ok (stats_new 0)" by (simp add: stats_ok_def stats_new_def)
  from open_close_balanced [OF this, of "''a''" "''a''"] show ?thesis
    by (simp add: Let_def) (simp add: stats_new_def)
qed

section \<open>The HTTP pages\<close>

text \<open>
  \<^verbatim>\<open>handleStats\<close> prints the counters and one line for each secret, in the order \<open>names\<close> in which Go's map
  iteration yields them; \<open>uptime\<close> is the rendered duration since \<open>startTime\<close>.
\<close>

definition newline :: string where
  "newline = [CHR 0x0A]"

definition secret_line :: "stats \<Rightarrow> string \<Rightarrow> string" where
  "secret_line s n =
     ''secret['' @ n @ '']: active='' @ dec_int (sint (active_of s n))
       @ '' total='' @ dec_int (sint (total_of s n)) @ newline"

definition handle_stats :: "string \<Rightarrow> string list \<Rightarrow> stats \<Rightarrow> string" where
  "handle_stats uptime names s =
     ''uptime:        '' @ uptime @ newline
     @ ''active_conns:  '' @ dec_int (sint (activeConns s)) @ newline
     @ ''total_conns:   '' @ dec_int (sint (totalConns s)) @ newline
     @ ''bytes_in:      '' @ dec_int (sint (bytesIn s)) @ newline
     @ ''bytes_out:     '' @ dec_int (sint (bytesOut s)) @ newline
     @ concat (map (secret_line s) names)"

text \<open>The routes \<^verbatim>\<open>Serve\<close> registers; any other path is not found.\<close>

definition serve_path :: "string \<Rightarrow> string list \<Rightarrow> stats \<Rightarrow> string \<Rightarrow> string option" where
  "serve_path uptime names s path =
     (if path = ''/stats'' then Some (handle_stats uptime names s)
      else if path = ''/health'' then Some ''OK''
      else None)"

end
