(* ===== verification/Prepend.thy ===== *)
theory Prepend
  imports GoIO
begin

text \<open>
  The helpers of \<^verbatim>\<open>proxy/server.go\<close> that the transports build on: \<^verbatim>\<open>prependConn\<close>, which puts the bytes read
  for protocol detection back in front of the stream, and \<^verbatim>\<open>isConnClosedErr\<close>.
\<close>

record pconn =
  p_conn :: conn
  p_buf :: "byte list"

definition prepend_read :: "pconn reader" where
  "prepend_read k p =
     (if p_buf p \<noteq> []
      then Some (take k (p_buf p), None, p\<lparr>p_buf := drop k (p_buf p)\<rparr>)
      else map_option (\<lambda>(bs, e, c). (bs, e, p\<lparr>p_conn := c\<rparr>)) (conn_read k (p_conn p)))"

text \<open>Writes go to the embedded connection.\<close>

definition prepend_write :: "pconn writer" where
  "prepend_write bs p = (case conn_write bs (p_conn p) of (n, e, c) \<Rightarrow> (n, e, p\<lparr>p_conn := c\<rparr>))"

definition isConnClosedErr :: "go_error option \<Rightarrow> bool" where
  "isConnClosedErr err =
     (case err of
        None \<Rightarrow> False
      | Some e \<Rightarrow>
          if errors_is e EOF \<or> errors_is e ErrUnexpectedEOF then True
          else let s = err_text e
               in contains s ''connection reset by peer'' \<or> contains s ''broken pipe''
                  \<or> contains s ''use of closed network connection'')"

definition prepend_ok :: "pconn \<Rightarrow> bool" where
  "prepend_ok p \<longleftrightarrow> conn_ok (p_conn p)"

definition prepend_content :: "pconn \<Rightarrow> byte list" where
  "prepend_content p = p_buf p @ conn_content (p_conn p)"

definition prepend_final :: "pconn \<Rightarrow> go_error" where
  "prepend_final p = conn_final (p_conn p)"

definition prepend_skip :: "nat \<Rightarrow> pconn \<Rightarrow> pconn" where
  "prepend_skip n p =
     p\<lparr>p_buf := drop n (p_buf p), p_conn := conn_skip (n - length (p_buf p)) (p_conn p)\<rparr>"

interpretation prepend_src: exact_source prepend_read prepend_content prepend_final prepend_skip prepend_ok
proof
  fix s m n assume ok: "prepend_ok s"
  show "prepend_skip m (prepend_skip n s) = prepend_skip (n + m) s"
  proof -
    have "n - length (p_buf s) + (m - (length (p_buf s) - n)) = n + m - length (p_buf s)" by arith
    then show ?thesis
      using ok by (simp add: prepend_skip_def prepend_ok_def conn_src.skip_skip add.commute)
  qed
next
  fix s k assume ok: "prepend_ok s" and k: "0 < (k :: nat)"
  show "\<exists>n e. n \<le> k \<and> n \<le> length (prepend_content s)
      \<and> prepend_read k s = Some (take n (prepend_content s), e, prepend_skip n s)
      \<and> (e = None \<longrightarrow> 0 < n)
      \<and> (\<forall>er. e = Some er \<longrightarrow> er = prepend_final s \<and> n = length (prepend_content s))"
  proof (cases "p_buf s = []")
    case True
    from conn_src.rd_take [of "p_conn s" k] ok k obtain n e where
      "n \<le> k" "n \<le> length (conn_content (p_conn s))"
      "conn_read k (p_conn s) = Some (take n (conn_content (p_conn s)), e, conn_skip n (p_conn s))"
      "e = None \<longrightarrow> 0 < n"
      "\<forall>er. e = Some er \<longrightarrow> er = conn_final (p_conn s) \<and> n = length (conn_content (p_conn s))"
      by (auto simp add: prepend_ok_def)
    with True show ?thesis
      by (intro exI [of _ n] exI [of _ e])
        (auto simp add: prepend_read_def prepend_content_def prepend_final_def prepend_skip_def)
  next
    case False
    with ok k show ?thesis
      by (intro exI [of _ "min k (length (p_buf s))"] exI [of _ None])
        (auto simp add: prepend_read_def prepend_content_def prepend_skip_def prepend_ok_def
          min_def conn_src.skip_0)
  qed
qed (auto simp add: prepend_ok_def prepend_content_def prepend_final_def prepend_skip_def
      conn_src.content_skip conn_src.final_skip conn_src.ok_skip conn_src.skip_0)

lemma prepend_write_step:
  "prepend_write bs p = (n, e, p') \<Longrightarrow>
   p_buf p' = p_buf p \<and> n \<le> length bs \<and> (e = None \<longrightarrow> n = length bs)
   \<and> tx (p_conn p') = tx (p_conn p) @ take n bs \<and> rx (p_conn p') = rx (p_conn p)
   \<and> rx_end (p_conn p') = rx_end (p_conn p) \<and> closed (p_conn p') = closed (p_conn p)"
  by (auto simp add: prepend_write_def dest!: conn_write_step split: prod.splits)

lemma prepend_write_source:
  assumes "prepend_write bs p = (n, e, p')"
  shows "prepend_content p' = prepend_content p" "prepend_final p' = prepend_final p"
    "prepend_ok p' = prepend_ok p"
  using prepend_write_step [OF assms]
  by (auto simp add: prepend_content_def prepend_final_def prepend_ok_def conn_content_def
      conn_final_def conn_ok_def)

text \<open>Reading never touches the sending side.\<close>

lemma prepend_skip_tx [simp]:
  "tx (p_conn (prepend_skip n p)) = tx (p_conn p)"
  "tx_cap (p_conn (prepend_skip n p)) = tx_cap (p_conn p)"
  "closed (p_conn (prepend_skip n p)) = closed (p_conn p)"
  "wr_closed (p_conn (prepend_skip n p)) = wr_closed (p_conn p)"
  "deadline (p_conn (prepend_skip n p)) = deadline (p_conn p)"
  by (simp_all add: prepend_skip_def conn_skip_def)

text \<open>The bytes and the error of a read, without the state.\<close>

definition read_result :: "(byte list \<times> go_error option \<times> 's) option \<Rightarrow> (byte list \<times> go_error option) option" where
  "read_result r = map_option (\<lambda>(bs, e, s). (bs, e)) r"

lemma read_result_simps [simp]: "read_result None = None" "read_result (Some (bs, e, s)) = Some (bs, e)"
  by (simp_all add: read_result_def)

lemma read_full_same:
  assumes "exact_source rd content final skip ok" "exact_source rd' content' final' skip' ok'"
    and "ok s" "ok' s'" "content s = content' s'" "final s = final' s'"
  shows "read_result (read_full rd n s) = read_result (read_full rd' n s')"
  using exact_source.read_full_enough [OF assms(1,3)] exact_source.read_full_enough [OF assms(2,4)]
    exact_source.read_full_short [OF assms(1,3)] exact_source.read_full_short [OF assms(2,4)] assms(5,6)
  by (cases "n \<le> length (content s)") simp_all

text \<open>C19. Putting peeked bytes back loses and repeats nothing: after any first read of the raw connection,
  reading any number of bytes through the wrapper gives the bytes, and the error, that reading the
  untouched connection would have given.\<close>

theorem prepend_transparent:
  assumes "conn_ok c" "conn_read k c = Some (bs, e, c')" "0 < k"
  shows "read_result (read_full prepend_read n \<lparr>p_conn = c', p_buf = bs\<rparr>) =
    read_result (read_full conn_read n c)"
proof -
  from conn_src.rd_take [OF assms(1,3)] assms(2) obtain m where
    "bs = take m (conn_content c)" "c' = conn_skip m c" by auto
  then have "conn_content c = bs @ conn_content c'" "conn_ok c'" "conn_final c' = conn_final c"
    using assms(1) by (simp_all add: conn_src.content_skip conn_src.ok_skip conn_src.final_skip)
  then show ?thesis
    by (intro read_full_same [OF prepend_src.exact_source_axioms conn_src.exact_source_axioms])
      (simp_all add: assms(1) prepend_content_def prepend_ok_def prepend_final_def)
qed

theorem prepend_transparent_witness:
  "read_result (read_full prepend_read 3 \<lparr>p_conn = new_conn [[3, 4]] EOF, p_buf = [1, 2]\<rparr>) =
   read_result (read_full conn_read 3 (new_conn [[1, 2], [3, 4]] EOF))"
  by (rule prepend_transparent [where k = 4 and e = None])
    (simp_all add: conn_ok_def new_conn_def conn_read_def)

text \<open>Wrapping an error that ends a connection keeps it one.\<close>

lemma sublist_prepend: "sublist x s \<Longrightarrow> sublist x (p @ s)"
  by (auto simp add: sublist_def) (metis append.assoc)

lemma isConnClosedErr_wrap:
  "isConnClosedErr (Some e) \<Longrightarrow> isConnClosedErr (Some (ErrWrap p e))"
  using sublist_prepend [of _ "err_text e" "p @ '': ''"]
  by (auto simp add: isConnClosedErr_def contains_iff_sublist Let_def split: if_splits)

end
