(* ===== verification/Obfuscated.thy ===== *)
theory Obfuscated
  imports Crypto Config DcList Prepend
begin

text \<open>
  \<^verbatim>\<open>proxy/obfuscated.go\<close>: the dd transport. The handshake reads a 64-byte init, tries the dd secrets in
  order, and sets up two AES-CTR streams; reads are then decrypted and writes encrypted.
\<close>

section \<open>Helpers on byte slices\<close>

fun reverse_loop :: "nat \<Rightarrow> nat \<Rightarrow> byte list \<Rightarrow> byte list \<Rightarrow> byte list" where
  "reverse_loop n i [] r = r"
| "reverse_loop n i (v # vs) r = reverse_loop n (i + 1) vs (r[n - 1 - i := v])"

definition reverseBytes :: "byte list \<Rightarrow> byte list" where
  "reverseBytes b = reverse_loop (length b) 0 b (replicate (length b) 0)"

definition concat_bytes :: "byte list \<Rightarrow> byte list \<Rightarrow> byte list" where
  "concat_bytes a b =
     (let out = replicate (length a + length b) 0;
          out = go_copy out a
      in take (length a) out @ go_copy (drop (length a) out) b)"

lemma concat_bytes_append [simp]: "concat_bytes a b = a @ b"
  by (simp add: concat_bytes_def go_copy_def Let_def)

lemma drop_update_last: "j < length r \<Longrightarrow> drop j (r[j := v]) = v # drop (Suc j) r"
  by (metis Cons_nth_drop_Suc drop_update_cancel length_list_update lessI nth_list_update_eq)

lemma reverse_loop_rev:
  "n = i + length vs \<Longrightarrow> length r = n \<Longrightarrow> reverse_loop n i vs r = rev vs @ drop (n - i) r"
proof (induction vs arbitrary: i r)
  case (Cons v vs)
  then have "drop (n - Suc i) (r[n - 1 - i := v]) = v # drop (n - i) r"
    using drop_update_last [of "n - Suc i" r v] by (simp add: Suc_diff_Suc)
  with Cons show ?case by simp
qed simp

lemma reverseBytes_rev [simp]: "reverseBytes b = rev b"
  by (simp add: reverseBytes_def reverse_loop_rev)

section \<open>Protocol tags and key derivation\<close>

definition protoAbridged :: uint32 where "protoAbridged = 0xEFEFEFEF"
definition protoIntermediate :: uint32 where "protoIntermediate = 0xDDDDDDDD"
definition protoFull :: uint32 where "protoFull = 0xFEFEFEFE"

definition errNoMatchingSecret :: go_error where
  "errNoMatchingSecret = ErrText ''no matching secret''"

text \<open>
  What the body of the loop does with one secret (the same statements serve the dd and the ee
  handshake): derive the client's sending key, decrypt the init, check the protocol tag, read the
  data-centre number and derive the other direction. The outer \<open>None\<close> is a panic, the inner one
  \<^verbatim>\<open>continue\<close>; otherwise the result is the stream for incoming data, that for outgoing data, the
  data-centre number and the decrypted init.
\<close>

definition match_nonce :: "byte list \<Rightarrow> byte list \<Rightarrow> (ctr \<times> ctr \<times> int16 \<times> byte list) option option" where
  "match_nonce nonce raw = do {
     mid \<leftarrow> go_slice nonce 8 40;
     let encKey = sha256 (concat_bytes mid raw);
     encIV \<leftarrow> go_slice nonce 40 56;
     (case new_cipher encKey of
       None \<Rightarrow> Some None
     | Some block \<Rightarrow> do {
         encStream \<leftarrow> new_ctr block encIV;
         let (inner, encStream) = xor_key_stream encStream nonce;
         tag \<leftarrow> go_slice inner 56 60;
         let proto = le_uint32 tag;
         if proto \<noteq> protoAbridged \<and> proto \<noteq> protoIntermediate \<and> proto \<noteq> protoFull then Some None
         else do {
           dcb \<leftarrow> go_slice inner 60 64;
           let dcID = (ucast (le_uint32 dcb) :: int16);
           let decKey = sha256 (concat_bytes (reverseBytes mid) raw);
           let decIV = reverseBytes encIV;
           decBlock \<leftarrow> new_cipher decKey;
           decStream \<leftarrow> new_ctr decBlock decIV;
           Some (Some (encStream, decStream, dcID, inner))
         }
       })
   }"

section \<open>The connection\<close>

record obfs_conn =
  o_conn :: pconn
  o_dec :: ctr
  o_enc :: ctr

definition obfs_read :: "obfs_conn reader" where
  "obfs_read k c = Option.bind (prepend_read k (o_conn c)) (\<lambda>(b, err, p).
     if 0 < length b
     then (case xor_key_stream (o_enc c) b of (b', enc) \<Rightarrow>
             Some (b', err, c\<lparr>o_conn := p, o_enc := enc\<rparr>))
     else Some (b, err, c\<lparr>o_conn := p\<rparr>))"

definition obfs_write :: "obfs_conn writer" where
  "obfs_write b c =
     (case xor_key_stream (o_dec c) b of (buf, dec') \<Rightarrow>
        case prepend_write buf (o_conn c) of (n, err, p) \<Rightarrow>
          (n, err, c\<lparr>o_conn := p, o_dec := dec'\<rparr>))"

text \<open>
  The handshake returns the connection, the data-centre number, the secret and the decrypted init; on
  an error the state of the socket is all that is left.
\<close>

fun try_dd :: "pconn \<Rightarrow> byte list \<Rightarrow> secret list \<Rightarrow>
    ((go_error \<times> pconn) + (obfs_conn \<times> int16 \<times> secret \<times> byte list)) option" where
  "try_dd conn nonce [] = Some (Inl (errNoMatchingSecret, conn))"
| "try_dd conn nonce (s # secrets) =
     (if s_type s \<noteq> SecretTypeDD then try_dd conn nonce secrets
      else Option.bind (match_nonce nonce (s_raw s)) (\<lambda>r.
        case r of
          None \<Rightarrow> try_dd conn nonce secrets
        | Some (encStream, decStream, dcID, inner) \<Rightarrow>
            Some (Inr (\<lparr>o_conn = conn, o_dec = decStream, o_enc = encStream\<rparr>, dcID, s, inner))))"

definition newObfuscatedClientConn :: "pconn \<Rightarrow> secret list \<Rightarrow>
    ((go_error \<times> pconn) + (obfs_conn \<times> int16 \<times> secret \<times> byte list)) option" where
  "newObfuscatedClientConn conn secrets =
     Option.bind (read_full prepend_read 64 conn) (\<lambda>(nonce, err, conn).
       case err of
         Some e \<Rightarrow> Some (Inl (ErrWrap ''read nonce'' e, conn))
       | None \<Rightarrow> try_dd conn nonce secrets)"

section \<open>The handshake in closed form\<close>

text \<open>The two streams of a connection, as the documentation gives them, at their start.\<close>

definition send_stream :: "byte list \<Rightarrow> byte list \<Rightarrow> ctr" where
  "send_stream nonce raw =
     \<lparr>ctr_key = sha256 (seg 8 40 nonce @ raw), ctr_iv = seg 40 56 nonce, ctr_pos = 0\<rparr>"

definition recv_stream :: "byte list \<Rightarrow> byte list \<Rightarrow> ctr" where
  "recv_stream nonce raw =
     \<lparr>ctr_key = sha256 (rev (seg 8 40 nonce) @ raw), ctr_iv = rev (seg 40 56 nonce), ctr_pos = 0\<rparr>"

definition inner_nonce :: "byte list \<Rightarrow> byte list \<Rightarrow> byte list" where
  "inner_nonce nonce raw = fst (xor_key_stream (send_stream nonce raw) nonce)"

definition valid_tag :: "byte list \<Rightarrow> bool" where
  "valid_tag inner \<longleftrightarrow> le_uint32 (seg 56 60 inner) \<in> {protoAbridged, protoIntermediate, protoFull}"

definition nonce_dc :: "byte list \<Rightarrow> int16" where
  "nonce_dc inner = ucast (le_uint32 (seg 60 64 inner))"

definition dd_accepts :: "byte list \<Rightarrow> secret \<Rightarrow> bool" where
  "dd_accepts nonce s \<longleftrightarrow> s_type s = SecretTypeDD \<and> valid_tag (inner_nonce nonce (s_raw s))"

lemma length_inner_nonce [simp]: "length (inner_nonce nonce raw) = length nonce"
  by (simp add: inner_nonce_def aes_ctr.xk_length)

lemma match_nonce_eq:
  assumes "length nonce = 64"
  shows "match_nonce nonce raw =
    Some (if valid_tag (inner_nonce nonce raw)
          then Some (snd (xor_key_stream (send_stream nonce raw) nonce), recv_stream nonce raw,
                     nonce_dc (inner_nonce nonce raw), inner_nonce nonce raw)
          else None)"
proof -
  have enc: "new_ctr (sha256 (seg 8 40 nonce @ raw)) (seg 40 56 nonce) = Some (send_stream nonce raw)"
    using assms by (simp add: new_ctr_def send_stream_def)
  have dec: "new_ctr (sha256 (rev (seg 8 40 nonce) @ raw)) (rev (seg 40 56 nonce)) = Some (recv_stream nonce raw)"
    using assms by (simp add: new_ctr_def recv_stream_def)
  have ciph: "new_cipher (sha256 x) = Some (sha256 x)" for x by (simp add: new_cipher_def)
  obtain inner st where x: "xor_key_stream (send_stream nonce raw) nonce = (inner, st)" by fastforce
  then have inner: "inner_nonce nonce raw = inner" "length inner = 64"
    using assms aes_ctr.xk_length [of "send_stream nonce raw" nonce] by (simp_all add: inner_nonce_def)
  show ?thesis
    using assms inner
    by (simp add: match_nonce_def ciph enc dec x inner valid_tag_def nonce_dc_def Let_def)
qed

lemma try_dd_eq:
  assumes "length nonce = 64"
  shows "try_dd conn nonce secrets =
    Some (case find (dd_accepts nonce) secrets of
            None \<Rightarrow> Inl (errNoMatchingSecret, conn)
          | Some s \<Rightarrow>
              Inr (\<lparr>o_conn = conn, o_dec = recv_stream nonce (s_raw s),
                    o_enc = snd (xor_key_stream (send_stream nonce (s_raw s)) nonce)\<rparr>,
                   nonce_dc (inner_nonce nonce (s_raw s)), s, inner_nonce nonce (s_raw s)))"
  by (induction secrets) (auto simp add: match_nonce_eq [OF assms] dd_accepts_def)

text \<open>C14. The dd handshake always returns. It fails with the error of the read when fewer than 64 bytes
  arrive, with \<^verbatim>\<open>no matching secret\<close> when no dd secret decrypts the init to a known protocol tag, and
  otherwise settles on the first such secret, with the two streams of the documentation: incoming
  data continues after the 64 bytes of the init, outgoing data starts at the beginning.\<close>

theorem dd_handshake:
  assumes "prepend_ok conn"
  shows "newObfuscatedClientConn conn secrets =
    Some (let content = prepend_content conn; nonce = take 64 content in
      if length content < 64
      then Inl (ErrWrap ''read nonce'' (short_error content (prepend_final conn)),
                prepend_skip (length content) conn)
      else case find (dd_accepts nonce) secrets of
             None \<Rightarrow> Inl (errNoMatchingSecret, prepend_skip 64 conn)
           | Some s \<Rightarrow>
               Inr (\<lparr>o_conn = prepend_skip 64 conn, o_dec = recv_stream nonce (s_raw s),
                     o_enc = (send_stream nonce (s_raw s))\<lparr>ctr_pos := 64\<rparr>\<rparr>,
                    nonce_dc (inner_nonce nonce (s_raw s)), s, inner_nonce nonce (s_raw s)))"
proof (cases "length (prepend_content conn) < 64")
  case True
  with prepend_src.read_full_short [OF assms True] show ?thesis
    by (simp add: newObfuscatedClientConn_def Let_def)
next
  case False
  let ?nonce = "take 64 (prepend_content conn)"
  have len: "length ?nonce = 64" using False by simp
  have "snd (xor_key_stream (send_stream ?nonce raw) ?nonce) = (send_stream ?nonce raw)\<lparr>ctr_pos := 64\<rparr>" for raw
    using len by (simp add: xor_key_stream_def send_stream_def)
  then show ?thesis
    using False prepend_src.read_full_enough [OF assms, of 64] try_dd_eq [OF len]
    by (simp add: newObfuscatedClientConn_def Let_def split: option.split)
qed

theorem dd_handshake_witness:
  "newObfuscatedClientConn \<lparr>p_conn = new_conn [[1, 2, 3]] EOF, p_buf = [9]\<rparr> [] =
   Some (Inl (ErrWrap ''read nonce'' ErrUnexpectedEOF, \<lparr>p_conn = new_conn [] EOF, p_buf = []\<rparr>))"
proof -
  let ?c = "\<lparr>p_conn = new_conn [[1, 2, 3]] EOF, p_buf = [9]\<rparr>"
  have "prepend_ok ?c" by (simp add: prepend_ok_def conn_ok_def new_conn_def)
  from dd_handshake [OF this, of "[]"] show ?thesis
    by (simp add: prepend_content_def prepend_final_def prepend_skip_def conn_content_def
        conn_final_def conn_skip_def new_conn_def short_error_def)
qed

section \<open>Reading and writing through the cipher\<close>

definition obfs_content :: "obfs_conn \<Rightarrow> byte list" where
  "obfs_content c = fst (xor_key_stream (o_enc c) (prepend_content (o_conn c)))"

definition obfs_final :: "obfs_conn \<Rightarrow> go_error" where
  "obfs_final c = prepend_final (o_conn c)"

definition obfs_ok :: "obfs_conn \<Rightarrow> bool" where
  "obfs_ok c \<longleftrightarrow> prepend_ok (o_conn c)"

definition obfs_skip :: "nat \<Rightarrow> obfs_conn \<Rightarrow> obfs_conn" where
  "obfs_skip n c =
     c\<lparr>o_conn := prepend_skip n (o_conn c),
       o_enc := snd (xor_key_stream (o_enc c) (take n (prepend_content (o_conn c))))\<rparr>"

lemma length_obfs_content [simp]: "length (obfs_content c) = length (prepend_content (o_conn c))"
  by (simp add: obfs_content_def aes_ctr.xk_length)

text \<open>
  Reading through the cipher is reading the decryption of what arrives: the contract of a reader holds
  for the whole connection, whatever the chunks.
\<close>

interpretation obfs_src: exact_source obfs_read obfs_content obfs_final obfs_skip obfs_ok
proof
  fix c :: obfs_conn and m n
  assume ok: "obfs_ok c"
  show "obfs_content (obfs_skip n c) = drop n (obfs_content c)"
    using ok by (simp add: obfs_content_def obfs_skip_def obfs_ok_def prepend_src.content_skip aes_ctr.xk_drop)
  show "obfs_skip m (obfs_skip n c) = obfs_skip (n + m) c"
    using ok
    by (simp add: obfs_skip_def obfs_ok_def prepend_src.skip_skip prepend_src.content_skip take_add
        aes_ctr.xk_append)
next
  fix c :: obfs_conn and k :: nat
  assume ok: "obfs_ok c" and k: "0 < k"
  from prepend_src.rd_take [of "o_conn c" k] ok k obtain n e where
    n: "n \<le> k" "n \<le> length (prepend_content (o_conn c))" "e = None \<longrightarrow> 0 < n"
      "\<forall>er. e = Some er \<longrightarrow> er = prepend_final (o_conn c) \<and> n = length (prepend_content (o_conn c))"
    and rd: "prepend_read k (o_conn c) =
      Some (take n (prepend_content (o_conn c)), e, prepend_skip n (o_conn c))"
    by (auto simp add: obfs_ok_def)
  have "obfs_read k c = Some (take n (obfs_content c), e, obfs_skip n c)"
  proof (cases "n = 0 \<or> prepend_content (o_conn c) = []")
    case True
    then have "take n (prepend_content (o_conn c)) = []" by auto
    then show ?thesis
      using rd by (auto simp add: obfs_read_def obfs_content_def obfs_skip_def aes_ctr.xk_Nil aes_ctr.xk_take [symmetric])
  next
    case False
    then show ?thesis
      using rd by (simp add: obfs_read_def obfs_content_def obfs_skip_def aes_ctr.xk_take
          split: prod.split) (metis aes_ctr.xk_take fst_conv)
  qed
  then show "\<exists>n e. n \<le> k \<and> n \<le> length (obfs_content c)
      \<and> obfs_read k c = Some (take n (obfs_content c), e, obfs_skip n c)
      \<and> (e = None \<longrightarrow> 0 < n) \<and> (\<forall>er. e = Some er \<longrightarrow> er = obfs_final c \<and> n = length (obfs_content c))"
    using n by (intro exI [of _ n] exI [of _ e]) (simp add: obfs_final_def)
qed (auto simp add: obfs_ok_def obfs_final_def obfs_skip_def prepend_src.final_skip prepend_src.ok_skip
      prepend_src.skip_0 aes_ctr.xk_Nil)

text \<open>
  What the client will have decoded of the bytes sent to it after the first \<open>t0\<close>: the cipher is in step
  with the socket unless the socket takes no more.
\<close>

definition raw_conn :: "obfs_conn \<Rightarrow> conn" where
  "raw_conn c = p_conn (o_conn c)"

definition obfs_sent :: "nat \<Rightarrow> obfs_conn \<Rightarrow> byte list" where
  "obfs_sent t0 c = fst (xor_key_stream ((o_dec c)\<lparr>ctr_pos := 0\<rparr>) (drop t0 (tx (raw_conn c))))"

definition obfs_in_step :: "nat \<Rightarrow> obfs_conn \<Rightarrow> bool" where
  "obfs_in_step t0 c \<longleftrightarrow> t0 \<le> length (tx (raw_conn c))
     \<and> (ctr_pos (o_dec c) = length (tx (raw_conn c)) - t0 \<or> stuck (raw_conn c))"

lemma obfs_write_sink:
  assumes "obfs_in_step t0 c" "bs \<noteq> []" "obfs_write bs c = (n, e, c')"
  shows "obfs_in_step t0 c' \<and> n \<le> length bs \<and> (e = None \<longrightarrow> n = length bs)
    \<and> obfs_sent t0 c' = obfs_sent t0 c @ take n bs"
proof -
  let ?buf = "fst (xor_key_stream (o_dec c) bs)"
  obtain r where w: "conn_write ?buf (raw_conn c) = (n, e, r)" and c': "raw_conn c' = r"
    "o_dec c' = (o_dec c)\<lparr>ctr_pos := ctr_pos (o_dec c) + length bs\<rparr>"
    using assms(3) xor_key_stream_step [of "o_dec c" bs]
    by (auto simp add: obfs_write_def prepend_write_def raw_conn_def split: prod.splits)
  have len: "length ?buf = length bs" by (simp add: aes_ctr.xk_length)
  note step = conn_write_step [OF w]
  show ?thesis
  proof (cases "stuck (raw_conn c)")
    case True
    have "?buf \<noteq> []" using assms(2) len by (metis length_0_conv)
    from conn_write_stuck [OF True this w] have "n = 0" "e \<noteq> None" "stuck r" "tx r = tx (raw_conn c)"
      by auto
    then show ?thesis using assms(1) c' by (auto simp add: obfs_in_step_def obfs_sent_def)
  next
    case False
    let ?d0 = "(o_dec c)\<lparr>ctr_pos := 0\<rparr>" and ?old = "drop t0 (tx (raw_conn c))"
    have t0: "t0 \<le> length (tx (raw_conn c))" and pos: "ctr_pos (o_dec c) = length ?old"
      using assms(1) False by (simp_all add: obfs_in_step_def)
    have "snd (xor_key_stream ?d0 ?old) = o_dec c"
      using pos by (simp add: xor_key_stream_def)
    then have "obfs_sent t0 c' = obfs_sent t0 c @ fst (xor_key_stream (o_dec c) (take n ?buf))"
      using step c' t0 aes_ctr.xk_append [of ?d0 ?old "take n ?buf"] by (simp add: obfs_sent_def)
    then have "obfs_sent t0 c' = obfs_sent t0 c @ take n bs"
      by (simp add: aes_ctr.xk_undo_prefix)
    moreover have "obfs_in_step t0 c'"
    proof (cases "n = length bs \<and> e = None")
      case True
      with step c' pos t0 len show ?thesis by (simp add: obfs_in_step_def)
    next
      case False
      then have "stuck r" using conn_write_short [OF w] len by auto
      then show ?thesis using step c' t0 by (simp add: obfs_in_step_def)
    qed
    ultimately show ?thesis using step len by simp
  qed
qed

interpretation obfs_snk: byte_sink obfs_write "obfs_sent t0" "obfs_in_step t0" for t0
  by unfold_locales (rule obfs_write_sink)

text \<open>The two directions of the relay of a dd connection.\<close>

interpretation dd_up: relay_direction obfs_read obfs_content obfs_final
  "\<lambda>c. length (obfs_content c)" obfs_ok conn_write tx "\<lambda>_. True"
  by unfold_locales

interpretation dd_down: relay_direction conn_read conn_content conn_final
  "\<lambda>c. length (conn_content c)" conn_ok obfs_write "obfs_sent t0" "obfs_in_step t0" for t0
  by unfold_locales

section \<open>A client of the documented protocol\<close>

text \<open>
  The client picks 56 bytes at random and the last eight bytes of its init (protocol tag, data centre,
  two more bytes); it encrypts only those eight, with the key stream at their position. Afterwards it
  encrypts what it sends from position 64 of the same stream, and decrypts what it receives from the
  start of the other one.
\<close>

definition client_stream :: "byte list \<Rightarrow> byte list \<Rightarrow> ctr" where
  "client_stream pfx raw = send_stream (pfx @ replicate 8 0) raw"

definition client_init :: "byte list \<Rightarrow> byte list \<Rightarrow> byte list \<Rightarrow> byte list" where
  "client_init pfx tail raw = pfx @ drop 56 (fst (xor_key_stream (client_stream pfx raw) (pfx @ tail)))"

definition client_encrypt :: "byte list \<Rightarrow> byte list \<Rightarrow> byte list \<Rightarrow> byte list" where
  "client_encrypt pfx raw d = fst (xor_key_stream ((client_stream pfx raw)\<lparr>ctr_pos := 64\<rparr>) d)"

definition client_decrypt :: "byte list \<Rightarrow> byte list \<Rightarrow> byte list \<Rightarrow> byte list" where
  "client_decrypt pfx raw d = fst (xor_key_stream (recv_stream (pfx @ replicate 8 0) raw) d)"

lemma length_client_init: "length pfx = 56 \<Longrightarrow> length tail = 8 \<Longrightarrow> length (client_init pfx tail raw) = 64"
  by (simp add: client_init_def aes_ctr.xk_length)

lemma streams_prefix:
  assumes "length pfx = 56"
  shows "send_stream (pfx @ x) raw = client_stream pfx raw"
    and "recv_stream (pfx @ x) raw = recv_stream (pfx @ replicate 8 0) raw"
  using assms by (simp_all add: client_stream_def send_stream_def recv_stream_def seg_append1)

lemma client_inner:
  assumes "length pfx = 56" "length tail = 8"
  shows "drop 56 (inner_nonce (client_init pfx tail raw) raw) = tail"
proof -
  let ?st = "client_stream pfx raw"
  let ?enc = "fst (xor_key_stream ?st (pfx @ tail))"
  let ?st' = "snd (xor_key_stream ?st pfx)"
  have split: "?enc = fst (xor_key_stream ?st pfx) @ fst (xor_key_stream ?st' tail)"
    by (simp add: aes_ctr.xk_append)
  then have tail: "drop 56 ?enc = fst (xor_key_stream ?st' tail)"
    using assms by (simp add: aes_ctr.xk_length)
  have "inner_nonce (client_init pfx tail raw) raw =
      fst (xor_key_stream ?st (pfx @ fst (xor_key_stream ?st' tail)))"
    using streams_prefix(1) [OF assms(1), of _ raw] by (simp add: inner_nonce_def client_init_def tail)
  also have "\<dots> = fst (xor_key_stream ?st pfx) @ tail"
    by (simp add: aes_ctr.xk_append aes_ctr.xk_undo)
  finally show ?thesis using assms by (simp add: aes_ctr.xk_length)
qed

lemma seg_drop: "seg (i + k) (j + k) xs = seg i j (drop k xs)"
  by (simp add: seg_def add.commute)

lemma client_tag_dc:
  assumes "length pfx = 56" "length tail = 8"
  shows "valid_tag (inner_nonce (client_init pfx tail raw) raw) \<longleftrightarrow>
      le_uint32 (seg 0 4 tail) \<in> {protoAbridged, protoIntermediate, protoFull}"
    and "nonce_dc (inner_nonce (client_init pfx tail raw) raw) = ucast (le_uint32 (seg 4 8 tail))"
  using client_inner [OF assms, of raw] seg_drop [of 0 56 4 "inner_nonce (client_init pfx tail raw) raw"]
    seg_drop [of 4 56 8 "inner_nonce (client_init pfx tail raw) raw"]
  by (simp_all add: valid_tag_def nonce_dc_def)

text \<open>What \<^verbatim>\<open>io.Copy\<close> reports when its source ends with \<open>e\<close>.\<close>

definition copy_error :: "go_error \<Rightarrow> go_error option" where
  "copy_error e = (if e = EOF then None else Some e)"

lemma find_first: "\<forall>x \<in> set xs. \<not> P x \<Longrightarrow> P y \<Longrightarrow> find P (xs @ y # ys) = Some y"
  by (induction xs) auto

text \<open>A write through the cipher changes neither its key nor, on a socket that takes everything, fails.\<close>

lemma obfs_write_good:
  assumes "open_writer (raw_conn c) \<and> (o_dec c)\<lparr>ctr_pos := 0\<rparr> = d" "obfs_write bs c = (n, e, c')"
  shows "e = None \<and> open_writer (raw_conn c') \<and> (o_dec c')\<lparr>ctr_pos := 0\<rparr> = d"
proof -
  from assms(2) obtain buf r where w: "conn_write buf (raw_conn c) = (n, e, r)" "raw_conn c' = r"
    "o_dec c' = (o_dec c)\<lparr>ctr_pos := ctr_pos (o_dec c) + length bs\<rparr>"
    using xor_key_stream_step [of "o_dec c" bs]
    by (auto simp add: obfs_write_def prepend_write_def raw_conn_def split: prod.splits)
  with open_writer_write [OF conjunct1 [OF assms(1)] w(1)] assms(1) show ?thesis by auto
qed

text \<open>What the handshake makes of such a client, for the theorems about the whole connection.\<close>

lemma dd_session:
  assumes ok: "prepend_ok conn"
    and client: "length pfx = 56" "length tail = 8"
      "le_uint32 (seg 0 4 tail) \<in> {protoAbridged, protoIntermediate, protoFull}"
    and secrets: "secrets = earlier @ s # later" "s_type s = SecretTypeDD"
      "\<forall>r \<in> set earlier. \<not> dd_accepts (client_init pfx tail (s_raw s)) r"
    and arrives: "prepend_content conn =
      client_init pfx tail (s_raw s) @ client_encrypt pfx (s_raw s) data"
  shows "\<exists>oc inner. newObfuscatedClientConn conn secrets =
      Some (Inr (oc, ucast (le_uint32 (seg 4 8 tail)), s, inner))
    \<and> length inner = 64 \<and> drop 56 inner = tail
    \<and> obfs_content oc = data \<and> obfs_final oc = prepend_final conn \<and> obfs_ok oc
    \<and> o_conn oc = prepend_skip 64 conn \<and> o_dec oc = recv_stream (pfx @ replicate 8 0) (s_raw s)"
proof -
  let ?init = "client_init pfx tail (s_raw s)" and ?raw = "s_raw s"
  have len: "length ?init = 64" by (rule length_client_init [OF client(1,2)])
  have init: "take 64 (prepend_content conn) = ?init" using arrives len by simp
  have "dd_accepts ?init s"
    using secrets(2) client_tag_dc(1) [OF client(1,2)] client(3) by (simp add: dd_accepts_def)
  then have acc: "find (dd_accepts ?init) secrets = Some s"
    using find_first [OF secrets(3)] secrets(1) by simp
  have st: "send_stream ?init ?raw = client_stream pfx ?raw"
    "recv_stream ?init ?raw = recv_stream (pfx @ replicate 8 0) ?raw"
    using streams_prefix [OF client(1)] by (simp_all add: client_init_def)
  define oc where "oc = \<lparr>o_conn = prepend_skip 64 conn, o_dec = recv_stream (pfx @ replicate 8 0) ?raw,
      o_enc = (client_stream pfx ?raw)\<lparr>ctr_pos := 64\<rparr>\<rparr>"
  have hs: "newObfuscatedClientConn conn secrets =
      Some (Inr (oc, ucast (le_uint32 (seg 4 8 tail)), s, inner_nonce ?init ?raw))"
  proof -
    have "read_full prepend_read 64 conn = Some (?init, None, prepend_skip 64 conn)"
      using prepend_src.read_full_enough [OF ok(1), of 64] init arrives len by simp
    moreover have "snd (xor_key_stream (client_stream pfx ?raw) ?init) = (client_stream pfx ?raw)\<lparr>ctr_pos := 64\<rparr>"
      using len by (simp add: xor_key_stream_def client_stream_def send_stream_def)
    ultimately show ?thesis
      by (simp add: newObfuscatedClientConn_def try_dd_eq [OF len] acc st oc_def
          client_tag_dc(2) [OF client(1,2)])
  qed
  have content: "obfs_content oc = data"
  proof -
    have "prepend_content (prepend_skip 64 conn) = client_encrypt pfx ?raw data"
      using prepend_src.content_skip [OF ok(1)] arrives len by simp
    then show ?thesis by (simp add: obfs_content_def oc_def client_encrypt_def aes_ctr.xk_undo)
  qed
  moreover have "obfs_ok oc" using prepend_src.ok_skip [OF ok(1)] by (simp add: obfs_ok_def oc_def)
  moreover have "obfs_final oc = prepend_final conn"
    using prepend_src.final_skip [OF ok(1)] by (simp add: obfs_final_def oc_def)
  ultimately show ?thesis
    using hs client_inner [OF client(1,2), of ?raw] len
    by (intro exI [of _ oc] exI [of _ "inner_nonce ?init ?raw"]) (simp add: oc_def)
qed

text \<open>A client that holds a configured dd secret is served: when its init and its encrypted data arrive
  (in whatever chunks) and no earlier dd secret happens to decrypt the init to a protocol tag, the
  handshake settles on the client's secret and data centre; copying upstream then delivers exactly the
  client's data, and whatever the data centre answers reaches the client so that it decrypts to
  exactly that answer.\<close>

theorem dd_client_served:
  assumes ok: "prepend_ok conn" "conn_ok dc"
    and client: "length pfx = 56" "length tail = 8"
      "le_uint32 (seg 0 4 tail) \<in> {protoAbridged, protoIntermediate, protoFull}"
    and secrets: "secrets = earlier @ s # later" "s_type s = SecretTypeDD"
      "\<forall>r \<in> set earlier. \<not> dd_accepts (client_init pfx tail (s_raw s)) r"
    and arrives: "prepend_content conn =
      client_init pfx tail (s_raw s) @ client_encrypt pfx (s_raw s) data"
    and writers: "open_writer dc" "open_writer (p_conn conn)" "tx (p_conn conn) = []"
  shows "\<exists>oc inner up down.
    newObfuscatedClientConn conn secrets =
      Some (Inr (oc, ucast (le_uint32 (seg 4 8 tail)), s, inner))
    \<and> drop 56 inner = tail
    \<and> io_copy (rd_fst obfs_read) (wr_snd conn_write) (oc, dc) =
        Some (length data, copy_error (prepend_final conn), up) \<and> tx (snd up) = tx dc @ data
    \<and> io_copy (rd_snd conn_read) (wr_fst obfs_write) (oc, dc) =
        Some (length (conn_content dc), copy_error (conn_final dc), down)
    \<and> client_decrypt pfx (s_raw s) (tx (raw_conn (fst down))) = conn_content dc"
proof -
  let ?raw = "s_raw s"
  let ?d = "recv_stream (pfx @ replicate 8 0) ?raw"
  from dd_session [OF ok(1) client secrets arrives] obtain oc inner where
    hs: "newObfuscatedClientConn conn secrets = Some (Inr (oc, ucast (le_uint32 (seg 4 8 tail)), s, inner))"
    "drop 56 inner = tail"
    and oc: "obfs_content oc = data" "obfs_final oc = prepend_final conn" "obfs_ok oc"
      "o_conn oc = prepend_skip 64 conn" "o_dec oc = ?d" by (elim exE conjE)
  have raw: "tx (raw_conn oc) = []" "open_writer (raw_conn oc)"
    using writers by (simp_all add: raw_conn_def oc(4) open_writer_def)
  have step: "obfs_in_step 0 oc" by (simp add: obfs_in_step_def raw oc(5) recv_stream_def)
  obtain s' t' where up: "io_copy (rd_fst obfs_read) (wr_snd conn_write) (oc, dc) =
      Some (length data, (if obfs_final oc = EOF then None else Some (obfs_final oc)), (s', t'))"
    "tx t' = tx dc @ data"
    using dd_up.up_delivers [where good = open_writer, OF oc(3) TrueI writers(1)] open_writer_write oc(1)
    by blast
  let ?good = "\<lambda>c. open_writer (raw_conn c) \<and> (o_dec c)\<lparr>ctr_pos := 0\<rparr> = ?d"
  have good: "?good oc" using raw(2) by (simp add: oc(5) recv_stream_def)
  obtain s2 t2 where down: "io_copy (rd_snd conn_read) (wr_fst obfs_write) (oc, dc) =
      Some (length (conn_content dc), (if conn_final dc = EOF then None else Some (conn_final dc)), (t2, s2))"
    "?good t2" "obfs_sent 0 t2 = obfs_sent 0 oc @ conn_content dc"
    using dd_down.down_delivers [where good = ?good, OF ok(2) step good] obfs_write_good by blast
  have "client_decrypt pfx ?raw (tx (raw_conn t2)) = conn_content dc"
    using down(2,3) raw(1) by (simp add: obfs_sent_def client_decrypt_def aes_ctr.xk_Nil)
  with hs up down(1) show ?thesis
    by (intro exI [of _ oc] exI [of _ inner] exI [of _ "(s', t')"]
        exI [of _ "(t2, s2)"]) (simp add: copy_error_def oc(2))
qed

definition example_dd :: secret where
  "example_dd = example_secret\<lparr>s_type := SecretTypeDD, s_domain := '''', s_name := ''alice''\<rparr>"

definition example_pfx :: "byte list" where
  "example_pfx = replicate 56 7"

definition example_tail :: "byte list" where
  "example_tail = [0xEF, 0xEF, 0xEF, 0xEF, 2, 0, 0, 0]"

theorem dd_client_served_witness:
  "\<exists>oc inner up down.
    newObfuscatedClientConn
      \<lparr>p_conn = new_conn [client_init example_pfx example_tail (s_raw example_dd),
          client_encrypt example_pfx (s_raw example_dd) [1, 2, 3]] EOF, p_buf = []\<rparr> [example_dd] =
      Some (Inr (oc, 2, example_dd, inner))
    \<and> drop 56 inner = example_tail
    \<and> io_copy (rd_fst obfs_read) (wr_snd conn_write) (oc, new_conn [[8, 9]] EOF) = Some (3, None, up)
    \<and> tx (snd up) = [1, 2, 3]
    \<and> io_copy (rd_snd conn_read) (wr_fst obfs_write) (oc, new_conn [[8, 9]] EOF) = Some (2, None, down)
    \<and> client_decrypt example_pfx (s_raw example_dd) (tx (raw_conn (fst down))) = [8, 9]"
proof -
  let ?raw = "s_raw example_dd"
  let ?init = "client_init example_pfx example_tail ?raw" and ?enc = "client_encrypt example_pfx ?raw [1, 2, 3]"
  let ?conn = "\<lparr>p_conn = new_conn [?init, ?enc] EOF, p_buf = []\<rparr>"
  have len: "length example_pfx = 56" "length example_tail = 8"
    by (simp_all add: example_pfx_def example_tail_def)
  have "length ?init = 64" "length ?enc = 3"
    using length_client_init [OF len] by (simp_all add: client_encrypt_def aes_ctr.xk_length)
  then have ne: "?init \<noteq> []" "?enc \<noteq> []" by (metis list.size(3) zero_neq_numeral)+
  then have ok: "prepend_ok ?conn" "conn_ok (new_conn [[8, 9]] EOF)"
    by (simp_all add: prepend_ok_def conn_ok_def new_conn_def)
  have tag: "le_uint32 (seg 0 4 example_tail) = protoAbridged" "le_uint32 (seg 4 8 example_tail) = 2"
    by code_simp+
  have arrives: "prepend_content ?conn = ?init @ ?enc"
    by (simp add: prepend_content_def conn_content_def new_conn_def)
  have "s_type example_dd = SecretTypeDD" by (simp add: example_dd_def)
  from dd_client_served [OF ok len _ _ this _ arrives, of "[example_dd]" "[]" "[]"]
  show ?thesis
    by (simp add: tag) (simp add: open_writer_def new_conn_def conn_content_def conn_final_def
        prepend_final_def copy_error_def eval_nat_numeral)
qed

end
