(* ===== verification/FakeTLS.thy ===== *)
theory FakeTLS
  imports Obfuscated
begin

text \<open>
  \<^verbatim>\<open>proxy/faketls.go\<close>: the ee transport. The handshake reads one TLS record with a ClientHello, takes the
  init out of its random and session-id fields and the host name out of its extensions, and answers with
  a ServerHello; afterwards both directions are AES-CTR streams cut into ApplicationData records.
\<close>

section \<open>Records\<close>

definition tlsHandshake :: byte where "tlsHandshake = 0x16"
definition tlsChangeCipherSpec :: byte where "tlsChangeCipherSpec = 0x14"
definition tlsApplicationData :: byte where "tlsApplicationData = 0x17"

definition tlsRecord :: "byte \<Rightarrow> byte \<Rightarrow> byte \<Rightarrow> byte list \<Rightarrow> byte list" where
  "tlsRecord contentType v1 v2 payload =
     [contentType, v1, v2] @ put_uint16 (to_uint16 (length payload)) @ payload"

section \<open>The connection\<close>

record faketls_conn =
  f_conn :: pconn
  f_dec :: ctr
  f_enc :: ctr
  f_readBuf :: "byte list"

definition err_not_appdata :: go_error where
  "err_not_appdata = ErrText ''faketls: expected ApplicationData record''"

definition faketls_read :: "faketls_conn reader" where
  "faketls_read k c =
     (if 0 < length (f_readBuf c)
      then Some (take k (f_readBuf c), None, c\<lparr>f_readBuf := drop k (f_readBuf c)\<rparr>)
      else Option.bind (read_full prepend_read 5 (f_conn c)) (\<lambda>(hdr, err, p).
        case err of
          Some e \<Rightarrow> Some ([], Some e, c\<lparr>f_conn := p\<rparr>)
        | None \<Rightarrow>
            Option.bind (go_index hdr 0) (\<lambda>ty.
            if ty \<noteq> tlsApplicationData then Some ([], Some err_not_appdata, c\<lparr>f_conn := p\<rparr>)
            else Option.bind (go_slice hdr 3 5) (\<lambda>len.
              let recLen = unat (be_uint16 len)
              in if recLen = 0 then Some ([], None, c\<lparr>f_conn := p\<rparr>)
                 else Option.bind (read_full prepend_read recLen p) (\<lambda>(payload, err, p).
                   case err of
                     Some e \<Rightarrow> Some ([], Some e, c\<lparr>f_conn := p\<rparr>)
                   | None \<Rightarrow>
                       (case xor_key_stream (f_enc c) payload of (payload, enc) \<Rightarrow>
                          Some (take k payload, None,
                            c\<lparr>f_conn := p, f_enc := enc,
                              f_readBuf := (if k < length payload then drop k payload else f_readBuf c)\<rparr>)))))))"

text \<open>One round of the loop of \<^verbatim>\<open>Write\<close>: a chunk of at most 16384 bytes becomes one record.\<close>

definition maxRecord :: nat where "maxRecord = 16384"

definition write_chunk :: "byte list \<Rightarrow> byte list" where
  "write_chunk b = (if maxRecord < length b then take maxRecord b else b)"

definition write_record :: "byte list \<Rightarrow> faketls_conn \<Rightarrow> go_error option \<times> faketls_conn" where
  "write_record chunk c =
     (case xor_key_stream (f_dec c) chunk of (enc, dec') \<Rightarrow>
        let rec = tlsApplicationData # 0x03 # 0x03 # put_uint16 (to_uint16 (length enc)) @ enc
        in case prepend_write rec (f_conn c) of (n, err, p) \<Rightarrow>
             (err, c\<lparr>f_conn := p, f_dec := dec'\<rparr>))"

lemma write_chunk_nonempty: "b \<noteq> [] \<Longrightarrow> write_chunk b \<noteq> []"
  by (simp add: write_chunk_def maxRecord_def)

lemma length_write_chunk: "length (write_chunk b) = min maxRecord (length b)"
  by (simp add: write_chunk_def)

lemma write_chunk_take: "write_chunk b = take (length (write_chunk b)) b"
  by (simp add: write_chunk_def)

function faketls_write_loop :: "nat \<Rightarrow> byte list \<Rightarrow> faketls_conn \<Rightarrow> nat \<times> go_error option \<times> faketls_conn" where
  "faketls_write_loop done_n b c =
     (if 0 < length b
      then (let chunk = write_chunk b
            in case write_record chunk c of
                 (Some e, c) \<Rightarrow> (done_n, Some e, c)
               | (None, c) \<Rightarrow> faketls_write_loop (done_n + length chunk) (drop (length chunk) b) c)
      else (done_n, None, c))"
  by pat_completeness auto
termination
  by (relation "measure (\<lambda>(done_n, b, c). length b)")
    (auto simp add: length_write_chunk maxRecord_def)

declare faketls_write_loop.simps [simp del]

definition faketls_write :: "faketls_conn writer" where
  "faketls_write b c = faketls_write_loop 0 b c"

section \<open>The ClientHello\<close>

text \<open>
  The walk over the extensions, from \<open>pos\<close> to \<open>extEnd\<close>: every slice of the record is checked, as the Go
  run time does. \<open>extension_name\<close> is the body of the test for a server name, with \<open>pos\<close> after the header.
\<close>

definition extension_name :: "byte list \<Rightarrow> uint16 \<Rightarrow> nat \<Rightarrow> nat \<Rightarrow> nat \<Rightarrow> string \<Rightarrow> string option" where
  "extension_name rec extType pos extLen extDataEnd sni =
     (if extType = 0x0000 \<and> 5 \<le> extLen then do {
        n \<leftarrow> go_slice rec (pos + 3) (pos + 5);
        let nameLen = unat (be_uint16 n);
        if pos + 5 + nameLen \<le> extDataEnd
        then map_option string_of_bytes (go_slice rec (pos + 5) (pos + 5 + nameLen))
        else Some sni
      }
      else Some sni)"

function walk_extensions :: "byte list \<Rightarrow> nat \<Rightarrow> nat \<Rightarrow> string \<Rightarrow> string option" where
  "walk_extensions rec extEnd pos sni =
     (if pos + 4 \<le> extEnd then do {
        t \<leftarrow> go_slice rec pos (pos + 2);
        l \<leftarrow> go_slice rec (pos + 2) (pos + 4);
        let extType = be_uint16 t;
        let extLen = unat (be_uint16 l);
        let extDataEnd = pos + 4 + extLen;
        if extEnd < extDataEnd then Some sni
        else do {
          sni' \<leftarrow> extension_name rec extType (pos + 4) extLen extDataEnd sni;
          walk_extensions rec extEnd extDataEnd sni'
        }
      }
      else Some sni)"
  by pat_completeness auto
termination
  by (relation "measure (\<lambda>(rec, extEnd, pos, sni). extEnd - pos)") auto

declare walk_extensions.simps [simp del]

text \<open>The rest of the record after the session id; a record that stops early just has no host name.\<close>

definition parse_sni :: "byte list \<Rightarrow> nat \<Rightarrow> string option" where
  "parse_sni rec pos =
     (if length rec < pos + 2 then Some ''''
      else do {
        cs \<leftarrow> go_slice rec pos (pos + 2);
        let pos = pos + (2 + unat (be_uint16 cs));
        if length rec < pos + 1 then Some ''''
        else do {
          comp \<leftarrow> go_index rec pos;
          let pos = pos + (1 + unat comp);
          if length rec < pos + 2 then Some ''''
          else do {
            el \<leftarrow> go_slice rec pos (pos + 2);
            let extTotalLen = unat (be_uint16 el);
            let pos = pos + 2;
            let extEnd = (if length rec < pos + extTotalLen then length rec else pos + extTotalLen);
            walk_extensions rec extEnd pos ''''
          }
        }
      })"

definition parse_client_hello :: "byte list \<Rightarrow> (go_error + byte list \<times> string) option" where
  "parse_client_hello rec =
     Option.bind (if length rec < 4 then Some True else map_option (\<lambda>t. t \<noteq> 0x01) (go_index rec 0)) (\<lambda>other.
      if other then Some (Inl (ErrText ''expected ClientHello handshake type''))
      else if length rec < 4 + 2 then Some (Inl (ErrText ''truncated at legacy_version''))
      else if length rec < 6 + 32 then Some (Inl (ErrText ''truncated at random''))
      else do {
        random \<leftarrow> go_slice rec 6 (6 + 32);
        if length rec \<le> 38 then Some (Inl (ErrText ''truncated at session_id_len''))
        else do {
          sl \<leftarrow> go_index rec 38;
          let sessLen = unat sl;
          if sessLen \<noteq> 32 \<or> length rec < 39 + sessLen
          then Some (Inl (ErrText ''session_id length must be 32''))
          else do {
            sessionID \<leftarrow> go_slice rec 39 (39 + 32);
            let nonce = go_copy (replicate 32 0) random @ go_copy (replicate 32 0) sessionID;
            sni \<leftarrow> parse_sni rec (39 + sessLen);
            Some (Inr (nonce, sni))
          }
        }
      })"

lemma hello_type:
  "(if length rec < 4 then Some True else map_option (\<lambda>t. t \<noteq> 0x01) (go_index rec 0)) =
   Some (length rec < 4 \<or> rec ! 0 \<noteq> 0x01)"
proof (cases "length rec < 4")
  case False
  then show ?thesis by (cases rec) simp_all
qed simp

lemmas parse_client_hello_eq = parse_client_hello_def [unfolded hello_type Option.bind.bind_lunit]

definition hex2 :: "byte \<Rightarrow> string" where
  "hex2 b = hex_encode [b]"

definition readClientHello :: "pconn \<Rightarrow> ((go_error + byte list \<times> string) \<times> pconn) option" where
  "readClientHello conn =
     Option.bind (read_full prepend_read 5 conn) (\<lambda>(hdr, err, conn).
       case err of
         Some e \<Rightarrow> Some (Inl (ErrWrap ''read tls header'' e), conn)
       | None \<Rightarrow>
           Option.bind (go_index hdr 0) (\<lambda>ty.
           if ty \<noteq> tlsHandshake
           then Some (Inl (ErrText (''not a TLS handshake record (type=0x'' @ hex2 ty @ '')'')), conn)
           else Option.bind (go_slice hdr 3 5) (\<lambda>len.
             let recLen = unat (be_uint16 len)
             in Option.bind (read_full prepend_read recLen conn) (\<lambda>(rec, err, conn).
                  case err of
                    Some e \<Rightarrow>
                      Some (Inl (ErrWrap (''read tls body (recLen='' @ dec recLen @ '')'') e), conn)
                  | None \<Rightarrow> map_option (\<lambda>r. (r, conn)) (parse_client_hello rec)))))"

section \<open>The ServerHello and the handshake\<close>

text \<open>
  The results of the two calls of \<^verbatim>\<open>rand.Read\<close> (an error, or the 32 bytes) are the parameter \<open>rnd\<close>.
\<close>

type_synonym random_reads = "(go_error + byte list) \<times> (go_error + byte list)"

definition server_hello_body :: "byte list \<Rightarrow> byte list \<Rightarrow> byte list" where
  "server_hello_body serverRandom sessID =
     (let ext = [0x00, 0x2b, 0x00, 0x02, 0x03, 0x04]
      in [0x03, 0x03] @ serverRandom @ [of_nat (length sessID)] @ sessID @ [0x13, 0x01] @ [0x00]
         @ [0x00, of_nat (length ext)] @ ext)"

definition server_hello_bytes :: "byte list \<Rightarrow> byte list \<Rightarrow> byte list" where
  "server_hello_bytes serverRandom sessID =
     (let body = server_hello_body serverRandom sessID;
          hs = [0x02, 0x00, of_nat (length body div 256), of_nat (length body)] @ body;
          shRecord = tlsRecord tlsHandshake 0x03 0x03 hs;
          ccsRecord = [tlsChangeCipherSpec, 0x03, 0x03, 0x00, 0x01, 0x01]
      in shRecord @ ccsRecord)"

definition sendFakeTLSServerHello :: "random_reads \<Rightarrow> pconn \<Rightarrow> go_error option \<times> pconn" where
  "sendFakeTLSServerHello rnd conn =
     (case fst rnd of
        Inl e \<Rightarrow> (Some e, conn)
      | Inr serverRandom \<Rightarrow>
          (case snd rnd of
             Inl e \<Rightarrow> (Some e, conn)
           | Inr sessID \<Rightarrow>
               (case prepend_write (server_hello_bytes serverRandom sessID) conn of
                  (n, err, conn) \<Rightarrow> (err, conn))))"

fun try_ee :: "(string \<Rightarrow> string \<Rightarrow> bool) \<Rightarrow> random_reads \<Rightarrow> pconn \<Rightarrow> byte list \<Rightarrow> string \<Rightarrow> secret list \<Rightarrow>
    ((go_error \<times> pconn) + (faketls_conn \<times> int16 \<times> secret \<times> byte list)) option" where
  "try_ee uf rnd conn nonce sni [] = Some (Inl (errNoMatchingSecret, conn))"
| "try_ee uf rnd conn nonce sni (s # secrets) =
     (if s_type s \<noteq> SecretTypeEE then try_ee uf rnd conn nonce sni secrets
      else if s_domain s \<noteq> '''' \<and> sni \<noteq> '''' \<and> \<not> equal_fold uf sni (s_domain s)
      then try_ee uf rnd conn nonce sni secrets
      else Option.bind (match_nonce nonce (s_raw s)) (\<lambda>r.
        case r of
          None \<Rightarrow> try_ee uf rnd conn nonce sni secrets
        | Some (encStream, decStream, dcID, inner) \<Rightarrow>
            (case sendFakeTLSServerHello rnd conn of
               (Some e, conn) \<Rightarrow> Some (Inl (e, conn))
             | (None, conn) \<Rightarrow>
                 Some (Inr (\<lparr>f_conn = conn, f_dec = decStream, f_enc = encStream, f_readBuf = []\<rparr>,
                            dcID, s, inner)))))"

definition newFakeTLSClientConn :: "(string \<Rightarrow> string \<Rightarrow> bool) \<Rightarrow> random_reads \<Rightarrow> pconn \<Rightarrow> secret list \<Rightarrow>
    ((go_error \<times> pconn) + (faketls_conn \<times> int16 \<times> secret \<times> byte list)) option" where
  "newFakeTLSClientConn uf rnd conn secrets =
     Option.bind (readClientHello conn) (\<lambda>(r, conn).
       case r of
         Inl e \<Rightarrow> Some (Inl (ErrWrap ''faketls'' e, conn))
       | Inr (nonce, sni) \<Rightarrow> try_ee uf rnd conn nonce sni secrets)"

section \<open>What the records carry\<close>

text \<open>
  \<open>split_records\<close> is the receiver's view of a byte stream: the payloads of the leading complete
  ApplicationData records, and what follows them. \<open>records_final\<close> is the error a reader meets there.
\<close>

function split_records :: "byte list \<Rightarrow> byte list \<times> byte list" where
  "split_records bs =
     (if length bs < 5 \<or> bs ! 0 \<noteq> tlsApplicationData \<or> length bs < 5 + unat (be_uint16 (seg 3 5 bs))
      then ([], bs)
      else let n = unat (be_uint16 (seg 3 5 bs))
           in case split_records (drop (5 + n) bs) of (p, r) \<Rightarrow> (take n (drop 5 bs) @ p, r))"
  by pat_completeness auto
termination
  by (relation "measure length") auto

declare split_records.simps [simp del]

definition records_final :: "go_error \<Rightarrow> byte list \<Rightarrow> go_error" where
  "records_final e rest =
     (if length rest < 5 then short_error rest e
      else if rest ! 0 \<noteq> tlsApplicationData then err_not_appdata
      else short_error (drop 5 rest) e)"

definition ft_content :: "faketls_conn \<Rightarrow> byte list" where
  "ft_content c =
     f_readBuf c @ fst (xor_key_stream (f_enc c) (fst (split_records (prepend_content (f_conn c)))))"

definition ft_final :: "faketls_conn \<Rightarrow> go_error" where
  "ft_final c =
     records_final (prepend_final (f_conn c)) (snd (split_records (prepend_content (f_conn c))))"

definition ft_rank :: "faketls_conn \<Rightarrow> nat" where
  "ft_rank c = length (prepend_content (f_conn c)) + length (f_readBuf c)"

definition ft_ok :: "faketls_conn \<Rightarrow> bool" where
  "ft_ok c \<longleftrightarrow> prepend_ok (f_conn c)"

lemma split_records_stop:
  "length bs < 5 \<or> bs ! 0 \<noteq> tlsApplicationData \<or> length bs < 5 + unat (be_uint16 (seg 3 5 bs)) \<Longrightarrow>
   split_records bs = ([], bs)"
  by (subst split_records.simps) auto

lemma split_records_step:
  assumes "5 + n \<le> length bs" "bs ! 0 = tlsApplicationData" "unat (be_uint16 (seg 3 5 bs)) = n"
  shows "split_records bs =
    (take n (drop 5 bs) @ fst (split_records (drop (5 + n) bs)), snd (split_records (drop (5 + n) bs)))"
  by (subst split_records.simps) (use assms in \<open>auto split: prod.split\<close>)

text \<open>One read of an empty buffer, on every branch.\<close>

lemma faketls_read_buffered:
  "f_readBuf c \<noteq> [] \<Longrightarrow> faketls_read k c =
     Some (take k (f_readBuf c), None, c\<lparr>f_readBuf := drop k (f_readBuf c)\<rparr>)"
  by (simp add: faketls_read_def)

lemma faketls_read_short_header:
  assumes "ft_ok c" "f_readBuf c = []" "length (prepend_content (f_conn c)) < 5"
  shows "\<exists>s'. faketls_read k c = Some ([], Some (ft_final c), s')"
  using assms prepend_src.read_full_short [of "f_conn c" 5]
  by (simp add: faketls_read_def ft_ok_def ft_final_def records_final_def split_records_stop)

lemma read_header:
  assumes "prepend_ok p" "5 \<le> length (prepend_content p)"
  shows "read_full prepend_read 5 p = Some (take 5 (prepend_content p), None, prepend_skip 5 p)"
    and "go_index (take 5 (prepend_content p)) 0 = Some (prepend_content p ! 0)"
    and "go_slice (take 5 (prepend_content p)) 3 5 = Some (seg 3 5 (prepend_content p))"
    and "prepend_content (prepend_skip 5 p) = drop 5 (prepend_content p)"
  using prepend_src.read_full_enough [OF assms] prepend_src.content_skip [OF assms(1)]
    assms(2) by (simp_all add: go_index_def go_slice_def seg_def drop_take)

lemma faketls_read_wrong_type:
  assumes "ft_ok c" "f_readBuf c = []" "5 \<le> length (prepend_content (f_conn c))"
    "prepend_content (f_conn c) ! 0 \<noteq> tlsApplicationData"
  shows "\<exists>s'. faketls_read k c = Some ([], Some (ft_final c), s')"
  using assms read_header [of "f_conn c"]
  by (simp add: faketls_read_def ft_ok_def ft_final_def records_final_def split_records_stop)

lemma faketls_read_short_body:
  assumes "ft_ok c" "f_readBuf c = []" "5 \<le> length (prepend_content (f_conn c))"
    "prepend_content (f_conn c) ! 0 = tlsApplicationData"
    "length (prepend_content (f_conn c)) < 5 + unat (be_uint16 (seg 3 5 (prepend_content (f_conn c))))"
  shows "\<exists>s'. faketls_read k c = Some ([], Some (ft_final c), s')"
proof -
  let ?n = "unat (be_uint16 (seg 3 5 (prepend_content (f_conn c))))"
  have "prepend_ok (prepend_skip 5 (f_conn c))" using assms(1) by (simp add: ft_ok_def prepend_src.ok_skip)
  note short = prepend_src.read_full_short [OF this, of ?n]
  have n: "?n \<noteq> 0" using assms(3,5) by (metis add.right_neutral leD)
  have "length (prepend_content (prepend_skip 5 (f_conn c))) < ?n"
    using read_header(4) [of "f_conn c"] assms(1,3,5) by (simp add: ft_ok_def)
  from short [OF this] show ?thesis
    using assms n read_header [of "f_conn c"]
    by (simp add: faketls_read_def ft_ok_def ft_final_def records_final_def split_records_stop
        prepend_src.final_skip Let_def)
qed

lemma faketls_read_record:
  assumes "ft_ok c" "f_readBuf c = []" "prepend_content (f_conn c) ! 0 = tlsApplicationData"
    "unat (be_uint16 (seg 3 5 (prepend_content (f_conn c)))) = n"
    "5 + n \<le> length (prepend_content (f_conn c))"
  shows "faketls_read k c =
    (let d = fst (xor_key_stream (f_enc c) (take n (drop 5 (prepend_content (f_conn c)))))
     in Some (take k d, None,
          c\<lparr>f_conn := prepend_skip (5 + n) (f_conn c),
            f_enc := snd (xor_key_stream (f_enc c) (take n (drop 5 (prepend_content (f_conn c))))),
            f_readBuf := drop k d\<rparr>))"
proof -
  let ?p = "f_conn c"
  have ok: "prepend_ok ?p" using assms(1) by (simp add: ft_ok_def)
  have "prepend_ok (prepend_skip 5 ?p)" using ok by (simp add: prepend_src.ok_skip)
  note full = prepend_src.read_full_enough [OF this, of n]
  have skip: "prepend_skip n (prepend_skip 5 ?p) = prepend_skip (5 + n) ?p"
    using ok by (simp add: prepend_src.skip_skip)
  show ?thesis
    using assms full skip read_header [OF ok]
    by (cases "n = 0")
      (auto simp add: faketls_read_def Let_def aes_ctr.xk_Nil aes_ctr.xk_length split: prod.split)
qed

text \<open>Reading through the records and the cipher is reading the decrypted payloads, in order.\<close>

lemma ft_record_content:
  assumes "ft_ok c" "f_readBuf c = []" "prepend_content (f_conn c) ! 0 = tlsApplicationData"
    "unat (be_uint16 (seg 3 5 (prepend_content (f_conn c)))) = n"
    "5 + n \<le> length (prepend_content (f_conn c))"
    and "d = fst (xor_key_stream (f_enc c) (take n (drop 5 (prepend_content (f_conn c)))))"
    and "c' = c\<lparr>f_conn := prepend_skip (5 + n) (f_conn c),
      f_enc := snd (xor_key_stream (f_enc c) (take n (drop 5 (prepend_content (f_conn c))))),
      f_readBuf := drop k d\<rparr>"
  shows "ft_content c = take k d @ ft_content c'" "ft_final c' = ft_final c" "ft_ok c'"
    "0 < k \<Longrightarrow> ft_rank c' < ft_rank c"
proof -
  have ok: "prepend_ok (f_conn c)" using assms(1) by (simp add: ft_ok_def)
  have cont: "prepend_content (f_conn c') = drop (5 + n) (prepend_content (f_conn c))"
    using ok assms(7) by (simp add: prepend_src.content_skip)
  note split = split_records_step [OF assms(5,3,4)]
  show "ft_content c = take k d @ ft_content c'"
    using assms(2,6,7) cont by (simp add: ft_content_def split aes_ctr.xk_append)
  show "ft_final c' = ft_final c"
    using ok assms(7) cont by (simp add: ft_final_def split prepend_src.final_skip)
  show "ft_ok c'" using ok assms(7) by (simp add: ft_ok_def prepend_src.ok_skip)
  have "length d = n" using assms(5,6) by (simp add: aes_ctr.xk_length)
  then show "0 < k \<Longrightarrow> ft_rank c' < ft_rank c"
    using assms(2,5,7) cont by (simp add: ft_rank_def)
qed

interpretation ft_src: byte_source faketls_read ft_content ft_final ft_rank ft_ok
proof
  fix c :: faketls_conn and k :: nat
  assume ok: "ft_ok c" and k: "0 < k"
  let ?bs = "prepend_content (f_conn c)"
  let ?P = "\<lambda>bs e s'. length bs \<le> k
        \<and> (e = None \<longrightarrow> ft_ok s' \<and> ft_content c = bs @ ft_content s' \<and> ft_final s' = ft_final c
             \<and> ft_rank s' < ft_rank c)
        \<and> (\<forall>er. e = Some er \<longrightarrow> er = ft_final c \<and> ft_content c = bs)"
  consider (buf) "f_readBuf c \<noteq> []" | (short) "f_readBuf c = []" "length ?bs < 5"
    | (wrong) "f_readBuf c = []" "5 \<le> length ?bs" "?bs ! 0 \<noteq> tlsApplicationData"
    | (body) "f_readBuf c = []" "5 \<le> length ?bs" "?bs ! 0 = tlsApplicationData"
        "length ?bs < 5 + unat (be_uint16 (seg 3 5 ?bs))"
    | (rec) "f_readBuf c = []" "?bs ! 0 = tlsApplicationData" "5 + unat (be_uint16 (seg 3 5 ?bs)) \<le> length ?bs"
    by linarith
  then show "\<exists>bs e s'. faketls_read k c = Some (bs, e, s') \<and> ?P bs e s'"
  proof cases
    case buf
    with ok k show ?thesis
      by (simp add: faketls_read_buffered ft_ok_def ft_content_def ft_final_def ft_rank_def)
  next
    case short
    with faketls_read_short_header [OF ok short, of k] show ?thesis
      by (auto simp add: ft_content_def aes_ctr.xk_Nil split_records_stop)
  next
    case wrong
    with faketls_read_wrong_type [OF ok wrong, of k] show ?thesis
      by (auto simp add: ft_content_def aes_ctr.xk_Nil split_records_stop)
  next
    case body
    with faketls_read_short_body [OF ok body, of k] show ?thesis
      by (auto simp add: ft_content_def aes_ctr.xk_Nil split_records_stop)
  next
    case rec
    note r = faketls_read_record [OF ok rec(1,2) refl rec(3), of k]
    note c = ft_record_content [OF ok rec(1,2) refl rec(3) refl refl, of k]
    show ?thesis using c(4) [OF k] by (simp add: r Let_def c(1,2,3))
  qed
qed

section \<open>What the peer decodes of the writes\<close>

abbreviation app_record :: "byte list \<Rightarrow> byte list" where
  "app_record p \<equiv> tlsRecord tlsApplicationData 0x03 0x03 p"

lemma length_tlsRecord [simp]: "length (tlsRecord t v w p) = 5 + length p"
  by (simp add: tlsRecord_def)

lemma tlsRecord_header:
  "tlsRecord t v w p ! 0 = t" "drop 5 (tlsRecord t v w p) = p"
  "length p < 65536 \<Longrightarrow> unat (be_uint16 (seg 3 5 (tlsRecord t v w p @ xs))) = length p"
proof -
  show "tlsRecord t v w p ! 0 = t" by (simp add: tlsRecord_def)
  show "drop 5 (tlsRecord t v w p) = p" by (simp add: tlsRecord_def put_uint16_def)
  have "seg 3 5 (tlsRecord t v w p @ xs) = put_uint16 (to_uint16 (length p))"
    by (simp add: tlsRecord_def seg_def put_uint16_def)
  then show "length p < 65536 \<Longrightarrow> unat (be_uint16 (seg 3 5 (tlsRecord t v w p @ xs))) = length p"
    by simp
qed

lemma split_records_record:
  assumes "length p < 65536"
  shows "split_records (app_record p @ xs) = (p @ fst (split_records xs), snd (split_records xs))"
proof -
  have "drop (5 + length p) (app_record p @ xs) = xs" by simp
  moreover have "(app_record p @ xs) ! 0 = tlsApplicationData"
    using tlsRecord_header(1) by (simp add: nth_append)
  ultimately show ?thesis
    using split_records_step [of "length p" "app_record p @ xs"] assms
    by (simp add: tlsRecord_header(2,3))
qed

lemma split_records_partial:
  assumes "length p < 65536" "m < 5 + length p"
  shows "split_records (take m (app_record p)) = ([], take m (app_record p))"
proof (cases "5 \<le> m")
  case True
  then have "seg 3 5 (take m (app_record p)) = seg 3 5 (app_record p)"
    by (simp add: seg_def drop_take min_def)
  then have "unat (be_uint16 (seg 3 5 (take m (app_record p)))) = length p"
    using tlsRecord_header(3) [OF assms(1), of _ _ _ "[]"] by simp
  then show ?thesis using assms(2) by (intro split_records_stop) simp
next
  case False
  then show ?thesis by (intro split_records_stop) simp
qed

lemma split_records_append:
  "snd (split_records a) = [] \<Longrightarrow>
   split_records (a @ b) = (fst (split_records a) @ fst (split_records b), snd (split_records b))"
proof (induction a rule: split_records.induct)
  case (1 bs)
  let ?n = "unat (be_uint16 (seg 3 5 bs))"
  show ?case
  proof (cases "length bs < 5 \<or> bs ! 0 \<noteq> tlsApplicationData \<or> length bs < 5 + ?n")
    case True
    from split_records_stop [OF this] "1.prems" show ?thesis by simp
  next
    case False
    then have h: "5 + ?n \<le> length bs" "bs ! 0 = tlsApplicationData" by auto
    note s = split_records_step [OF h refl]
    then have "snd (split_records (drop (5 + ?n) bs)) = []" using "1.prems" by simp
    note ih = "1.IH" [OF False refl this]
    have "seg 3 5 (bs @ b) = seg 3 5 bs" "(bs @ b) ! 0 = bs ! 0"
      using h(1) by (auto simp add: seg_append1 nth_append)
    with split_records_step [of ?n "bs @ b"] h s ih show ?thesis by simp
  qed
qed

definition ft_raw :: "faketls_conn \<Rightarrow> conn" where
  "ft_raw c = p_conn (f_conn c)"

definition ft_sent :: "nat \<Rightarrow> faketls_conn \<Rightarrow> byte list" where
  "ft_sent t0 c =
     fst (xor_key_stream ((f_dec c)\<lparr>ctr_pos := 0\<rparr>) (fst (split_records (drop t0 (tx (ft_raw c))))))"

definition ft_in_step :: "nat \<Rightarrow> faketls_conn \<Rightarrow> bool" where
  "ft_in_step t0 c \<longleftrightarrow> t0 \<le> length (tx (ft_raw c))
     \<and> (stuck (ft_raw c) \<or>
        (snd (split_records (drop t0 (tx (ft_raw c)))) = []
         \<and> ctr_pos (f_dec c) = length (fst (split_records (drop t0 (tx (ft_raw c)))))))"

text \<open>What one record does to the socket and to the stream.\<close>

lemma write_record_raw:
  assumes "write_record chunk c = (e, c')"
  shows "\<exists>n. conn_write (app_record (fst (xor_key_stream (f_dec c) chunk))) (ft_raw c) = (n, e, ft_raw c')"
    and "f_dec c' = (f_dec c)\<lparr>ctr_pos := ctr_pos (f_dec c) + length chunk\<rparr>"
    and "f_readBuf c' = f_readBuf c" "f_enc c' = f_enc c"
  using assms xor_key_stream_step [of "f_dec c" chunk]
  by (auto simp add: write_record_def tlsRecord_def prepend_write_def ft_raw_def Let_def
      split: prod.splits)

lemma conn_write_err:
  "conn_write bs c = (n, Some e, c') \<Longrightarrow> bs \<noteq> [] \<Longrightarrow> n < length bs \<and> stuck c'"
  by (auto simp add: conn_write_def stuck_def split: if_splits option.splits)

lemma write_record_step:
  assumes "ft_in_step t0 c" "chunk \<noteq> []" "length chunk \<le> maxRecord" "write_record chunk c = (e, c')"
  shows "ft_in_step t0 c' \<and> ft_sent t0 c' = ft_sent t0 c @ (if e = None then chunk else [])"
proof -
  let ?enc = "fst (xor_key_stream (f_dec c) chunk)"
  note w = write_record_raw(2) [OF assms(4)]
  obtain n where wr: "conn_write (app_record ?enc) (ft_raw c) = (n, e, ft_raw c')"
    using write_record_raw(1) [OF assms(4)] by blast
  have len: "length ?enc = length chunk" "length ?enc < 65536"
    using assms(3) by (simp_all add: aes_ctr.xk_length maxRecord_def)
  have ne: "app_record ?enc \<noteq> []" by (simp add: tlsRecord_def)
  note step = conn_write_step [OF wr]
  let ?d0 = "(f_dec c)\<lparr>ctr_pos := 0\<rparr>" and ?old = "drop t0 (tx (ft_raw c))"
  have t0: "t0 \<le> length (tx (ft_raw c))" using assms(1) by (simp add: ft_in_step_def)
  show ?thesis
  proof (cases "stuck (ft_raw c)")
    case True
    from conn_write_stuck [OF True ne wr] t0 w show ?thesis
      by (auto simp add: ft_in_step_def ft_sent_def)
  next
    case False
    then have old: "snd (split_records ?old) = []" "ctr_pos (f_dec c) = length (fst (split_records ?old))"
      using assms(1) by (simp_all add: ft_in_step_def)
    have new: "drop t0 (tx (ft_raw c')) = ?old @ take n (app_record ?enc)" using step t0 by simp
    note split = split_records_append [OF old(1)]
    have st: "snd (xor_key_stream ?d0 (fst (split_records ?old))) = f_dec c"
      using old(2) by (simp add: xor_key_stream_def)
    show ?thesis
    proof (cases e)
      case None
      then have "split_records (drop t0 (tx (ft_raw c'))) = (fst (split_records ?old) @ ?enc, [])"
        using step new split split_records_record [OF len(2), of "[]"]
        by (simp add: split_records_stop)
      moreover have "fst (xor_key_stream ?d0 (fst (split_records ?old) @ ?enc)) =
          fst (xor_key_stream ?d0 (fst (split_records ?old))) @ chunk"
        by (simp only: aes_ctr.xk_append fst_conv st aes_ctr.xk_undo)
      ultimately show ?thesis
        using None w t0 step old(2) len(1) by (simp add: ft_in_step_def ft_sent_def)
    next
      case (Some er)
      with conn_write_err [of "app_record ?enc"] wr ne have "n < 5 + length ?enc" "stuck (ft_raw c')"
        by force+
      then show ?thesis
        using Some w t0 step new split split_records_partial [OF len(2), of n]
        by (simp add: ft_in_step_def ft_sent_def)
    qed
  qed
qed

lemma faketls_write_loop_step:
  assumes "ft_in_step t0 c" "faketls_write_loop d b c = (n, e, c')"
  shows "ft_in_step t0 c' \<and> d \<le> n \<and> n - d \<le> length b \<and> (e = None \<longrightarrow> n = d + length b)
    \<and> ft_sent t0 c' = ft_sent t0 c @ take (n - d) b"
  using assms
proof (induction d b c rule: faketls_write_loop.induct)
  case (1 d b c)
  show ?case
  proof (cases "b = []")
    case True
    with "1.prems" show ?thesis by (simp add: faketls_write_loop.simps)
  next
    case False
    let ?chunk = "write_chunk b"
    obtain e1 c1 where w: "write_record ?chunk c = (e1, c1)" by (cases "write_record ?chunk c")
    have len: "length ?chunk \<le> maxRecord" "length ?chunk \<le> length b" by (simp_all add: length_write_chunk)
    note step = write_record_step [OF "1.prems"(1) write_chunk_nonempty [OF False] len(1) w]
    show ?thesis
    proof (cases e1)
      case (Some er)
      with "1.prems"(2) False w have "(n, e, c') = (d, Some er, c1)"
        by (subst (asm) faketls_write_loop.simps) simp
      with step Some show ?thesis by simp
    next
      case None
      with "1.prems"(2) False w have
        rest: "faketls_write_loop (d + length ?chunk) (drop (length ?chunk) b) c1 = (n, e, c')"
        by (subst (asm) faketls_write_loop.simps) (simp add: Let_def)
      have pos: "0 < length b" using False by simp
      have "ft_in_step t0 c1" using step by simp
      note ih = "1.IH" [OF pos refl w [symmetric] None this rest]
      have "?chunk @ take (n - (d + length ?chunk)) (drop (length ?chunk) b) =
          take (length ?chunk + (n - (d + length ?chunk))) b"
        by (subst write_chunk_take) (simp add: take_add)
      with ih step None len(2) show ?thesis by auto
    qed
  qed
qed

section \<open>The relay of an ee connection\<close>

interpretation ft_snk: byte_sink faketls_write "ft_sent t0" "ft_in_step t0" for t0
proof
  fix c bs n e c'
  assume "ft_in_step t0 c" "faketls_write bs c = (n, e, c')"
  from faketls_write_loop_step [OF this(1) this(2) [unfolded faketls_write_def]]
  show "ft_in_step t0 c' \<and> n \<le> length bs \<and> (e = None \<longrightarrow> n = length bs)
      \<and> ft_sent t0 c' = ft_sent t0 c @ take n bs" by auto
qed

interpretation ee_up: relay_direction faketls_read ft_content ft_final ft_rank ft_ok
  conn_write tx "\<lambda>_. True"
  by unfold_locales

interpretation ee_down: relay_direction conn_read conn_content conn_final
  "\<lambda>c. length (conn_content c)" conn_ok faketls_write "ft_sent t0" "ft_in_step t0" for t0
  by unfold_locales

text \<open>A connection whose writes succeed, with its key and what its socket had sent at some point.\<close>

definition ft_open :: "ctr \<Rightarrow> byte list \<Rightarrow> faketls_conn \<Rightarrow> bool" where
  "ft_open d p c \<longleftrightarrow>
     open_writer (ft_raw c) \<and> (f_dec c)\<lparr>ctr_pos := 0\<rparr> = d \<and> prefix p (tx (ft_raw c))"

lemma write_record_open:
  assumes "ft_open d p c" "write_record chunk c = (e, c')"
  shows "e = None \<and> ft_open d p c'"
proof -
  obtain n where w: "conn_write (app_record (fst (xor_key_stream (f_dec c) chunk))) (ft_raw c) = (n, e, ft_raw c')"
    using write_record_raw(1) [OF assms(2)] by blast
  from open_writer_write [OF _ w] conn_write_step [OF w] assms(1) write_record_raw(2) [OF assms(2)]
  show ?thesis by (auto simp add: ft_open_def)
qed

lemma faketls_write_loop_open:
  "ft_open d p c \<Longrightarrow> faketls_write_loop k b c = (n, e, c') \<Longrightarrow> e = None \<and> ft_open d p c'"
proof (induction k b c rule: faketls_write_loop.induct)
  case (1 k b c)
  show ?case
  proof (cases "b = []")
    case True
    with "1.prems" show ?thesis by (simp add: faketls_write_loop.simps)
  next
    case False
    obtain e1 c1 where w: "write_record (write_chunk b) c = (e1, c1)" by (cases "write_record (write_chunk b) c")
    from write_record_open [OF "1.prems"(1) w] have o: "e1 = None" "ft_open d p c1" by auto
    with "1.prems"(2) False w have
      rest: "faketls_write_loop (k + length (write_chunk b)) (drop (length (write_chunk b)) b) c1 = (n, e, c')"
      by (subst (asm) faketls_write_loop.simps) (simp add: Let_def)
    have "0 < length b" using False by simp
    from "1.IH" [OF this refl w [symmetric] o rest] show ?thesis .
  qed
qed

lemma faketls_write_open:
  "ft_open d p c \<Longrightarrow> faketls_write b c = (n, e, c') \<Longrightarrow> e = None \<and> ft_open d p c'"
  unfolding faketls_write_def by (rule faketls_write_loop_open)

lemma ft_open_start:
  "open_writer (ft_raw c) \<Longrightarrow> ctr_pos (f_dec c) = 0 \<Longrightarrow> ft_open (f_dec c) (tx (ft_raw c)) c"
  by (simp add: ft_open_def)

lemma ft_in_step_start:
  "ctr_pos (f_dec c) = 0 \<Longrightarrow> ft_in_step (length (tx (ft_raw c))) c \<and> ft_sent (length (tx (ft_raw c))) c = []"
  by (simp add: ft_in_step_def ft_sent_def split_records_stop aes_ctr.xk_Nil)

text \<open>What the socket has been given since then is a sequence of complete records that decrypts to \<open>ft_sent\<close>.\<close>

lemma ft_sent_records:
  assumes "ft_in_step (length p) c" "ft_open d p c"
  shows "\<exists>recs. tx (ft_raw c) = p @ recs \<and> snd (split_records recs) = []
    \<and> ft_sent (length p) c = fst (xor_key_stream d (fst (split_records recs)))"
proof -
  obtain recs where "tx (ft_raw c) = p @ recs" using assms(2) by (auto simp add: ft_open_def prefix_def)
  moreover have "\<not> stuck (ft_raw c)" using assms(2) by (simp add: ft_open_def open_writer_def stuck_def)
  ultimately show ?thesis using assms by (auto simp add: ft_in_step_def ft_open_def ft_sent_def)
qed

section \<open>The parser never leaves the record\<close>

lemma extension_name_returns:
  "pos + extLen = extDataEnd \<Longrightarrow> extDataEnd \<le> length bs \<Longrightarrow>
   \<exists>s. extension_name bs t pos extLen extDataEnd sni = Some s"
  by (auto simp add: extension_name_def Let_def)

lemma walk_extensions_returns:
  "extEnd \<le> length bs \<Longrightarrow> \<exists>s. walk_extensions bs extEnd pos sni = Some s"
proof (induction bs extEnd pos sni rule: walk_extensions.induct)
  case (1 bs extEnd pos sni)
  show ?case
  proof (cases "pos + 4 \<le> extEnd")
    case False
    then show ?thesis by (simp add: walk_extensions.simps)
  next
    case True
    let ?t = "be_uint16 (seg pos (pos + 2) bs)"
    let ?n = "unat (be_uint16 (seg (pos + 2) (pos + 4) bs))"
    have g: "go_slice bs pos (pos + 2) = Some (seg pos (pos + 2) bs)"
      "go_slice bs (pos + 2) (pos + 4) = Some (seg (pos + 2) (pos + 4) bs)"
      using True "1.prems" by simp_all
    show ?thesis
    proof (cases "extEnd < pos + 4 + ?n")
      case True
      with \<open>pos + 4 \<le> extEnd\<close> g show ?thesis by (subst walk_extensions.simps) (simp add: Let_def)
    next
      case False
      with "1.prems" have "pos + 4 + ?n \<le> length bs" by simp
      from extension_name_returns [OF refl this] obtain s where
        s: "extension_name bs ?t (pos + 4) ?n (pos + 4 + ?n) sni = Some s" by blast
      from "1.IH" [OF True g refl refl refl False s "1.prems"] obtain u where
        "walk_extensions bs extEnd (pos + 4 + ?n) s = Some u" by blast
      with True False g s show ?thesis by (subst walk_extensions.simps) (simp add: Let_def)
    qed
  qed
qed

lemma parse_sni_returns: "\<exists>s. parse_sni bs pos = Some s"
  using walk_extensions_returns [of _ bs] by (simp add: parse_sni_def Let_def)

lemma parse_client_hello_returns: "\<exists>r. parse_client_hello bs = Some r"
proof -
  obtain s where "parse_sni bs 71 = Some s" using parse_sni_returns by blast
  then show ?thesis by (auto simp add: parse_client_hello_eq Let_def)
qed

section \<open>Building a ClientHello\<close>

text \<open>The TLS encoding of an extension list, a server name, and a ClientHello message (RFC 8446, RFC 6066).\<close>

definition encode_ext :: "uint16 \<times> byte list \<Rightarrow> byte list" where
  "encode_ext e = put_uint16 (fst e) @ put_uint16 (to_uint16 (length (snd e))) @ snd e"

definition server_name_data :: "string \<Rightarrow> byte list" where
  "server_name_data host =
     put_uint16 (to_uint16 (length host + 3)) @ [0] @ put_uint16 (to_uint16 (length host)) @ bytes_of_string host"

definition hello_head :: "nat \<Rightarrow> byte list \<Rightarrow> byte list \<Rightarrow> byte list" where
  "hello_head n random sess =
     [0x01, of_nat (n div 65536), of_nat (n div 256), of_nat n, 3, 3] @ random @ [of_nat (length sess)] @ sess"

definition hello_tail :: "byte list \<Rightarrow> byte list \<Rightarrow> (uint16 \<times> byte list) list \<Rightarrow> byte list" where
  "hello_tail suites comps exts =
     put_uint16 (to_uint16 (length suites)) @ suites @ [of_nat (length comps)] @ comps
     @ put_uint16 (to_uint16 (length (concat (map encode_ext exts)))) @ concat (map encode_ext exts)"

definition client_hello :: "byte list \<Rightarrow> byte list \<Rightarrow> byte list \<Rightarrow> byte list \<Rightarrow> (uint16 \<times> byte list) list \<Rightarrow> byte list" where
  "client_hello random sess suites comps exts =
     hello_head (35 + length sess + length (hello_tail suites comps exts)) random sess @ hello_tail suites comps exts"

text \<open>What the walk makes of one extension.\<close>

definition ext_sni :: "string \<Rightarrow> uint16 \<times> byte list \<Rightarrow> string" where
  "ext_sni sni e =
     (if fst e = 0 \<and> 5 \<le> length (snd e) \<and> 5 + unat (be_uint16 (seg 3 5 (snd e))) \<le> length (snd e)
      then string_of_bytes (take (unat (be_uint16 (seg 3 5 (snd e)))) (drop 5 (snd e)))
      else sni)"

lemma length_encode_ext [simp]: "length (encode_ext e) = 4 + length (snd e)"
  by (simp add: encode_ext_def)

lemma seg_shift: "seg (length pre + i) (length pre + j) (pre @ xs) = seg i j xs"
  by (simp add: seg_def)

lemma ext_fields:
  assumes "length (snd e) < 65536"
  shows "be_uint16 (seg 0 2 (encode_ext e @ xs)) = fst e"
    and "unat (be_uint16 (seg 2 4 (encode_ext e @ xs))) = length (snd e)"
    and "i \<le> j \<Longrightarrow> j \<le> length (snd e) \<Longrightarrow> seg (4 + i) (4 + j) (encode_ext e @ xs) = seg i j (snd e)"
proof -
  have "seg 0 2 (encode_ext e @ xs) = put_uint16 (fst e)"
    by (simp add: encode_ext_def seg_def)
  then show "be_uint16 (seg 0 2 (encode_ext e @ xs)) = fst e" by simp
  have "seg 2 4 (encode_ext e @ xs) = put_uint16 (to_uint16 (length (snd e)))"
    by (simp add: encode_ext_def seg_def)
  then show "unat (be_uint16 (seg 2 4 (encode_ext e @ xs))) = length (snd e)" using assms by simp
  show "i \<le> j \<Longrightarrow> j \<le> length (snd e) \<Longrightarrow> seg (4 + i) (4 + j) (encode_ext e @ xs) = seg i j (snd e)"
    by (simp add: encode_ext_def seg_def)
qed

lemma walk_one_extension:
  assumes "length (snd e) < 65536" "bs = pre @ encode_ext e @ xs"
    and "length pre + length (encode_ext e) \<le> extEnd" "extEnd \<le> length bs"
  shows "walk_extensions bs extEnd (length pre) sni =
    walk_extensions bs extEnd (length pre + length (encode_ext e)) (ext_sni sni e)"
proof -
  note f = ext_fields [OF assms(1)]
  have le: "length pre + 4 + length (snd e) \<le> extEnd" using assms(3) by simp
  have segs: "seg (length pre) (length pre + 2) bs = seg 0 2 (encode_ext e @ xs)"
    "seg (length pre + 2) (length pre + 4) bs = seg 2 4 (encode_ext e @ xs)"
    "seg (length pre + (4 + i)) (length pre + (4 + j)) bs = seg (4 + i) (4 + j) (encode_ext e @ xs)" for i j
    unfolding assms(2) using seg_shift [of pre 0 2] seg_shift [of pre 2 4] seg_shift [of pre "4 + i" "4 + j"]
    by simp_all
  have g: "go_slice bs (length pre) (length pre + 2) = Some (seg 0 2 (encode_ext e @ xs))"
    "go_slice bs (length pre + 2) (length pre + 4) = Some (seg 2 4 (encode_ext e @ xs))"
    using le assms(4) segs by simp_all
  have n: "go_slice bs (length pre + 4 + i) (length pre + 4 + j) = Some (seg i j (snd e))"
    if "i \<le> j" "j \<le> length (snd e)" for i j
    using that le assms(4) segs(3) f(3) [OF that] by (simp add: add.assoc)
  have "extension_name bs (fst e) (length pre + 4) (length (snd e)) (length pre + 4 + length (snd e)) sni =
      Some (ext_sni sni e)"
  proof -
    have n1: "5 \<le> length (snd e) \<Longrightarrow> go_slice bs (7 + length pre) (9 + length pre) = Some (seg 3 5 (snd e))"
      using n [of 3 5] by simp
    have n2: "5 + k \<le> length (snd e) \<Longrightarrow>
        go_slice bs (9 + length pre) (9 + length pre + k) = Some (take k (drop 5 (snd e)))" for k
      using n [of 5 "5 + k"] by (simp add: seg_def add.commute add.left_commute)
    show ?thesis
      using n1 n2 by (auto simp add: extension_name_def ext_sni_def Let_def)
  qed
  then show ?thesis
    using le g f(1,2) by (subst walk_extensions.simps) (simp add: Let_def add.assoc)
qed

lemma walk_extension_list:
  assumes "\<forall>e \<in> set exts. length (snd e) < 65536"
  shows "walk_extensions (pre @ concat (map encode_ext exts)) (length pre + length (concat (map encode_ext exts)))
    (length pre) sni = Some (foldl ext_sni sni exts)"
  using assms
proof (induction exts arbitrary: pre sni)
  case Nil
  then show ?case by (simp add: walk_extensions.simps)
next
  case (Cons e exts)
  let ?rest = "concat (map encode_ext exts)"
  let ?bs = "pre @ encode_ext e @ ?rest"
  have "walk_extensions ?bs (length ?bs) (length pre) sni =
      walk_extensions ?bs (length ?bs) (length pre + length (encode_ext e)) (ext_sni sni e)"
    using Cons.prems by (intro walk_one_extension [of e ?bs pre ?rest]) simp_all
  also have "\<dots> = Some (foldl ext_sni (ext_sni sni e) exts)"
    using Cons.IH [of "pre @ encode_ext e"] Cons.prems by (simp add: add.assoc)
  finally show ?case by (simp add: add.assoc)
qed

lemma length_concat_ext: "e \<in> set exts \<Longrightarrow> length (snd e) \<le> length (concat (map encode_ext exts))"
  by (induction exts) auto

lemma parse_sni_hello:
  assumes "length suites < 65536" "length comps < 256" "length (concat (map encode_ext exts)) < 65536"
  shows "parse_sni (pre @ hello_tail suites comps exts) (length pre) = Some (foldl ext_sni '''' exts)"
proof -
  let ?exts = "concat (map encode_ext exts)"
  let ?bs = "pre @ hello_tail suites comps exts"
  let ?p1 = "pre @ put_uint16 (to_uint16 (length suites)) @ suites"
  let ?p2 = "?p1 @ [of_nat (length comps)] @ comps"
  let ?p3 = "?p2 @ put_uint16 (to_uint16 (length ?exts))"
  have bs: "?bs = ?p3 @ ?exts" by (simp add: hello_tail_def)
  have s1: "go_slice ?bs (length pre) (length pre + 2) = Some (put_uint16 (to_uint16 (length suites)))"
    by (simp add: go_slice_def hello_tail_def)
  have s2: "go_index ?bs (length pre + (2 + length suites)) = Some (of_nat (length comps))"
    using assms by (simp add: go_index_def hello_tail_def nth_append)
  have s3: "go_slice ?bs (length ?p2) (length ?p2 + 2) = Some (put_uint16 (to_uint16 (length ?exts)))"
    by (simp add: go_slice_def bs)
  have c: "unat (of_nat (length comps) :: byte) = length comps" using assms(2) by (simp add: unat_of_nat)
  have p2: "length ?p2 = length pre + (2 + length suites) + (1 + length comps)" by simp
  have len: "length ?bs = length ?p2 + 2 + length ?exts" by (simp add: bs)
  have w: "walk_extensions ?bs (length ?p2 + 2 + length ?exts) (length ?p2 + 2) '''' = Some (foldl ext_sni '''' exts)"
    using walk_extension_list [of exts ?p3 "''''"] length_concat_ext [of _ exts] assms(3) unfolding bs
    by fastforce
  show ?thesis
    using assms s1 s2 s3 c w len unfolding parse_sni_def Let_def p2
    by (simp add: add.assoc)
qed

lemma parse_client_hello_built:
  assumes "length random = 32" "length sess = 32" "length suites < 65536" "length comps < 256"
    "length (concat (map encode_ext exts)) < 65536"
  shows "parse_client_hello (client_hello random sess suites comps exts) =
    Some (Inr (random @ sess, foldl ext_sni '''' exts))"
proof -
  define n where "n = 35 + length sess + length (hello_tail suites comps exts)"
  define tl where "tl = hello_tail suites comps exts"
  define h where "h = [of_nat (n div 65536), of_nat (n div 256), of_nat n, 3, 3 :: byte]"
  have bs: "client_hello random sess suites comps exts = 0x01 # h @ random @ (32 :: byte) # sess @ tl"
    unfolding n_def tl_def h_def using assms(2) by (simp add: client_hello_def hello_head_def)
  have h: "length h = 5" by (simp add: h_def)
  have "client_hello random sess suites comps exts = hello_head n random sess @ tl"
    by (simp add: client_hello_def n_def tl_def)
  then have sni: "parse_sni (0x01 # h @ random @ (32 :: byte) # sess @ tl) 71 = Some (foldl ext_sni '''' exts)"
    using parse_sni_hello [OF assms(3,4,5), of "hello_head n random sess"] assms(1,2) bs
    by (simp add: hello_head_def tl_def)
  have r: "seg 6 38 (0x01 # h @ random @ (32 :: byte) # sess @ tl) = random"
    and s: "seg 39 71 (0x01 # h @ random @ (32 :: byte) # sess @ tl) = sess"
    using assms(1,2) h by (simp_all add: seg_def)
  have i: "(0x01 # h @ random @ (32 :: byte) # sess @ tl) ! 38 = 32"
    using assms(1) h by (simp add: nth_append)
  show ?thesis
    unfolding bs using assms(1,2) h sni r s i
    by (simp add: parse_client_hello_eq Let_def go_copy_def)
qed

lemma parse_client_hello_nonce:
  "parse_client_hello bs = Some (Inr (nonce, sni)) \<Longrightarrow>
   71 \<le> length bs \<and> nonce = seg 6 38 bs @ seg 39 71 bs"
proof -
  assume a: "parse_client_hello bs = Some (Inr (nonce, sni))"
  obtain t where "parse_sni bs 71 = Some t" using parse_sni_returns by blast
  with a show ?thesis
    by (auto simp add: parse_client_hello_eq Let_def go_copy_def split: if_splits)
qed

lemma server_name_ext_sni:
  assumes "length host < 65536"
  shows "ext_sni sni (0, server_name_data host) = host"
proof -
  have "seg 3 5 (server_name_data host) = put_uint16 (to_uint16 (length host))"
    "drop 5 (server_name_data host) = bytes_of_string host" "length (server_name_data host) = 5 + length host"
    by (simp_all add: server_name_data_def seg_def)
  then show ?thesis using assms by (simp add: ext_sni_def)
qed

lemma foldl_ext_other: "\<forall>e \<in> set exts. fst e \<noteq> 0 \<Longrightarrow> foldl ext_sni sni exts = sni"
  by (induction exts arbitrary: sni) (auto simp add: ext_sni_def)

section \<open>Reading the ClientHello\<close>

lemma readClientHello_returns:
  assumes "prepend_ok conn"
  shows "\<exists>r c. readClientHello conn = Some (r, c) \<and> prepend_ok c
    \<and> (\<forall>nonce sni. r = Inr (nonce, sni) \<longrightarrow> length nonce = 64)"
proof -
  obtain hdr err c where r: "read_full prepend_read 5 conn = Some (hdr, err, c)" "prepend_ok c"
    "err = None \<longrightarrow> length hdr = 5"
    using prepend_src.read_full_returns [OF assms, of 5] by blast
  obtain rec err' c' where r': "read_full prepend_read (unat (be_uint16 (seg 3 5 hdr))) c = Some (rec, err', c')"
    "prepend_ok c'"
    using prepend_src.read_full_returns [OF r(2)] by blast
  obtain x where x: "parse_client_hello rec = Some x" using parse_client_hello_returns by blast
  have "x = Inr (nonce, sni) \<Longrightarrow> length nonce = 64" for nonce sni
    using parse_client_hello_nonce [of rec nonce sni] x by auto
  with r r' x show ?thesis
    by (cases err; cases err') (auto simp add: readClientHello_def Let_def)
qed

text \<open>C18. Reading the ClientHello, on every branch: too few bytes for the record header, another record
  type, fewer bytes than the record announces; otherwise the result is that of the parser on exactly the
  record's body, and the connection is left right after the record.\<close>

theorem read_client_hello_branches:
  assumes "prepend_ok conn" "bs = prepend_content conn" "n = unat (be_uint16 (seg 3 5 bs))"
  shows "readClientHello conn =
    (if length bs < 5
     then Some (Inl (ErrWrap ''read tls header'' (short_error bs (prepend_final conn))),
                prepend_skip (length bs) conn)
     else if bs ! 0 \<noteq> tlsHandshake
     then Some (Inl (ErrText (''not a TLS handshake record (type=0x'' @ hex2 (bs ! 0) @ '')'')), prepend_skip 5 conn)
     else if length bs < 5 + n
     then Some (Inl (ErrWrap (''read tls body (recLen='' @ dec n @ '')'')
                      (short_error (drop 5 bs) (prepend_final conn))), prepend_skip (length bs) conn)
     else map_option (\<lambda>r. (r, prepend_skip (5 + n) conn)) (parse_client_hello (seg 5 (5 + n) bs)))"
proof (cases "length bs < 5")
  case True
  with prepend_src.read_full_short [OF assms(1), of 5] assms(2) show ?thesis
    by (simp add: readClientHello_def)
next
  case False
  then have le: "5 \<le> length (prepend_content conn)" using assms(2) by simp
  note h = read_header [OF assms(1) le, folded assms(2)]
  have ok: "prepend_ok (prepend_skip 5 conn)" using assms(1) by (rule prepend_src.ok_skip)
  have skip: "prepend_skip m (prepend_skip 5 conn) = prepend_skip (5 + m) conn" for m
    using assms(1) by (rule prepend_src.skip_skip)
  show ?thesis
  proof (cases "length bs < 5 + n")
    case True
    then have "length (prepend_content (prepend_skip 5 conn)) < n" using h(4) False by simp
    from prepend_src.read_full_short [OF ok this] True False show ?thesis
      using h skip [of "length bs - 5"] assms(1,3)
      by (simp add: readClientHello_def Let_def prepend_src.final_skip)
  next
    case long: False
    then have "n \<le> length (prepend_content (prepend_skip 5 conn))" using h(4) by simp
    from prepend_src.read_full_enough [OF ok this] False long show ?thesis
      using h skip [of n] assms(3) by (simp add: readClientHello_def Let_def seg_def)
  qed
qed

theorem read_client_hello_branches_witness:
  "readClientHello \<lparr>p_conn = new_conn [[3, 1, 0, 9, 1]] EOF, p_buf = [0x16]\<rparr> =
   Some (Inl (ErrWrap ''read tls body (recLen=9)'' ErrUnexpectedEOF), \<lparr>p_conn = new_conn [] EOF, p_buf = []\<rparr>)"
proof -
  let ?c = "\<lparr>p_conn = new_conn [[3, 1, 0, 9, 1]] EOF, p_buf = [0x16]\<rparr>"
  have "prepend_ok ?c" by (simp add: prepend_ok_def conn_ok_def new_conn_def)
  note * = read_client_hello_branches [OF this refl refl]
  have bs: "prepend_content ?c = [0x16, 3, 1, 0, 9, 1]"
    by (simp add: prepend_content_def conn_content_def new_conn_def)
  have n: "unat (be_uint16 (seg 3 5 [0x16, 3, 1, 0, 9, 1])) = 9" by code_simp
  have d: "dec 9 = ''9''" by code_simp
  show ?thesis
    unfolding * bs n d
    by (simp add: tlsHandshake_def prepend_final_def prepend_skip_def conn_final_def conn_skip_def
        new_conn_def short_error_def)
qed

text \<open>C17. A well-formed ClientHello is understood: from the encoding of any random, session id (32 bytes
  each), cipher suites, compression methods and extensions that fits the length fields, the parser takes
  the init \<open>random @ sess\<close> and the name of the last server-name extension.\<close>

theorem client_hello_roundtrip:
  assumes "length random = 32" "length sess = 32" "length suites < 65536" "length comps < 256"
    and "exts = before @ (0, server_name_data host) # after" "\<forall>e \<in> set after. fst e \<noteq> 0"
    and "length (concat (map encode_ext exts)) < 65536"
  shows "parse_client_hello (client_hello random sess suites comps exts) = Some (Inr (random @ sess, host))"
proof -
  have "length (server_name_data host) < 65536"
    using length_concat_ext [of "(0, server_name_data host)" exts] assms(5,7) by simp
  then have "length host < 65536" by (simp add: server_name_data_def)
  then have "foldl ext_sni '''' exts = host"
    by (simp add: assms(5) server_name_ext_sni foldl_ext_other [OF assms(6)])
  with parse_client_hello_built [OF assms(1,2,3,4,7)] show ?thesis by simp
qed

theorem client_hello_roundtrip_witness:
  "parse_client_hello (client_hello (replicate 32 1) (replicate 32 2) [0x13, 0x01] [0]
     [(43, [2, 3, 4]), (0, server_name_data ''google.com''), (16, [0, 3, 2, 104, 50])]) =
   Some (Inr (replicate 32 1 @ replicate 32 2, ''google.com''))"
  by (rule client_hello_roundtrip [where before = "[(43, [2, 3, 4])]" and after = "[(16, [0, 3, 2, 104, 50])]"])
    (simp_all add: server_name_data_def)

section \<open>The handshake\<close>

definition ee_accepts :: "(string \<Rightarrow> string \<Rightarrow> bool) \<Rightarrow> byte list \<Rightarrow> string \<Rightarrow> secret \<Rightarrow> bool" where
  "ee_accepts uf nonce sni s \<longleftrightarrow> s_type s = SecretTypeEE
     \<and> (s_domain s = '''' \<or> sni = '''' \<or> equal_fold uf sni (s_domain s))
     \<and> valid_tag (inner_nonce nonce (s_raw s))"

lemma try_ee_eq:
  assumes "length nonce = 64"
  shows "try_ee uf rnd conn nonce sni secrets =
    Some (case find (ee_accepts uf nonce sni) secrets of
            None \<Rightarrow> Inl (errNoMatchingSecret, conn)
          | Some s \<Rightarrow>
              (case sendFakeTLSServerHello rnd conn of
                 (Some e, c) \<Rightarrow> Inl (e, c)
               | (None, c) \<Rightarrow>
                   Inr (\<lparr>f_conn = c, f_dec = recv_stream nonce (s_raw s),
                         f_enc = (send_stream nonce (s_raw s))\<lparr>ctr_pos := 64\<rparr>, f_readBuf = []\<rparr>,
                        nonce_dc (inner_nonce nonce (s_raw s)), s, inner_nonce nonce (s_raw s))))"
proof -
  have "snd (xor_key_stream (send_stream nonce raw) nonce) = (send_stream nonce raw)\<lparr>ctr_pos := 64\<rparr>" for raw
    using assms by (simp add: xor_key_stream_def send_stream_def)
  then show ?thesis
    by (induction secrets)
      (auto simp add: match_nonce_eq [OF assms] ee_accepts_def split: prod.split option.split)
qed

text \<open>C7. The ee handshake never panics and always returns, whatever the client sends and whatever the
  random source and the socket do.\<close>

theorem ee_never_panics:
  assumes "prepend_ok conn"
  shows "\<exists>r. newFakeTLSClientConn uf rnd conn secrets = Some r"
proof -
  obtain r c where "readClientHello conn = Some (r, c)"
    "\<forall>nonce sni. r = Inr (nonce, sni) \<longrightarrow> length nonce = 64"
    using readClientHello_returns [OF assms] by blast
  then show ?thesis
    by (cases r) (auto simp add: newFakeTLSClientConn_def try_ee_eq)
qed

theorem ee_never_panics_witness:
  "\<exists>r. newFakeTLSClientConn (\<lambda>_ _. False) (Inl EOF, Inl EOF)
     \<lparr>p_conn = new_conn [[3, 1, 0, 2, 1, 255]] EOF, p_buf = [0x16]\<rparr> [] = Some r"
  by (rule ee_never_panics) (simp add: prepend_ok_def conn_ok_def new_conn_def)

text \<open>The record that carries a ClientHello, read off a connection.\<close>

lemma read_built_hello:
  assumes "prepend_ok conn" "prepend_content conn = tlsRecord tlsHandshake v w hello @ rest"
    "length hello < 65536"
  shows "readClientHello conn = map_option (\<lambda>r. (r, prepend_skip (5 + length hello) conn)) (parse_client_hello hello)"
proof -
  let ?r = "tlsRecord tlsHandshake v w hello"
  have n: "unat (be_uint16 (seg 3 5 (?r @ rest))) = length hello"
    by (rule tlsRecord_header(3) [OF assms(3)])
  have t: "(?r @ rest) ! 0 = tlsHandshake" by (simp add: tlsRecord_def)
  have "read_full prepend_read 5 conn = Some (take 5 (?r @ rest), None, prepend_skip 5 conn)"
    "take 5 (?r @ rest) ! 0 = (?r @ rest) ! 0" "seg 3 5 (take 5 (?r @ rest)) = seg 3 5 (?r @ rest)"
    "prepend_content (prepend_skip 5 conn) = drop 5 (?r @ rest)"
    using read_header [OF assms(1)] assms(2) by simp_all
  note h = this [unfolded t n]
  have ok: "prepend_ok (prepend_skip 5 conn)" using assms(1) by (rule prepend_src.ok_skip)
  have d: "drop 5 (?r @ rest) = hello @ rest" using tlsRecord_header(2) by simp
  have "read_full prepend_read (length hello) (prepend_skip 5 conn) =
      Some (hello, None, prepend_skip (5 + length hello) conn)"
    using prepend_src.read_full_enough [OF ok, of "length hello"] h(4) d assms(1)
    by (simp add: prepend_src.skip_skip)
  then show ?thesis using h t n by (simp add: readClientHello_def Let_def)
qed

text \<open>C13. The ee handshake on a ClientHello record: it settles on the first ee secret whose domain agrees
  with the host name (both being present; letter case does not matter) and whose key decrypts the init to
  a known protocol tag. It answers that client, and no other, with a ServerHello, and the two streams are
  those of the documentation. Without such a secret nothing is sent.\<close>

theorem ee_handshake:
  assumes "prepend_ok conn" "prepend_content conn = tlsRecord tlsHandshake v w hello @ rest"
    and "length hello < 65536" "parse_client_hello hello = Some (Inr (nonce, sni))"
  shows "newFakeTLSClientConn uf rnd conn secrets =
    (let conn' = prepend_skip (5 + length hello) conn
     in Some (case find (ee_accepts uf nonce sni) secrets of
          None \<Rightarrow> Inl (errNoMatchingSecret, conn')
        | Some s \<Rightarrow>
            (case sendFakeTLSServerHello rnd conn' of
               (Some e, c) \<Rightarrow> Inl (e, c)
             | (None, c) \<Rightarrow>
                 Inr (\<lparr>f_conn = c, f_dec = recv_stream nonce (s_raw s),
                       f_enc = (send_stream nonce (s_raw s))\<lparr>ctr_pos := 64\<rparr>, f_readBuf = []\<rparr>,
                      nonce_dc (inner_nonce nonce (s_raw s)), s, inner_nonce nonce (s_raw s)))))"
proof -
  have "length nonce = 64" using parse_client_hello_nonce [OF assms(4)] by auto
  then show ?thesis
    using read_built_hello [OF assms(1,2,3)] assms(4)
    by (simp add: newFakeTLSClientConn_def try_ee_eq Let_def)
qed

definition example_hello :: "byte list" where
  "example_hello = client_hello (replicate 32 1) (replicate 32 2) [0x13, 0x01] [0] []"

lemma example_hello_parsed:
  "length example_hello = 79"
  "parse_client_hello example_hello = Some (Inr (replicate 32 1 @ replicate 32 2, ''''))"
  using parse_client_hello_built [of "replicate 32 1" "replicate 32 2" "[0x13, 0x01]" "[0]" "[]"]
  by (simp_all add: example_hello_def) (simp add: client_hello_def hello_head_def hello_tail_def)

theorem ee_handshake_witness:
  "newFakeTLSClientConn (\<lambda>_ _. False) (Inl EOF, Inl EOF)
     \<lparr>p_conn = new_conn [tlsRecord tlsHandshake 3 1 example_hello] EOF, p_buf = []\<rparr> [] =
   Some (Inl (errNoMatchingSecret, \<lparr>p_conn = new_conn [] EOF, p_buf = []\<rparr>))"
proof -
  let ?r = "tlsRecord tlsHandshake 3 1 example_hello"
  let ?c = "\<lparr>p_conn = new_conn [?r] EOF, p_buf = []\<rparr>"
  have "?r \<noteq> []" by (simp add: tlsRecord_def)
  then have ok: "prepend_ok ?c" by (simp add: prepend_ok_def conn_ok_def new_conn_def)
  have "prepend_content ?c = ?r @ []" by (simp add: prepend_content_def conn_content_def new_conn_def)
  from ee_handshake [OF ok this _ example_hello_parsed(2)] example_hello_parsed(1) show ?thesis
    by (simp add: prepend_skip_def conn_skip_def new_conn_def)
qed

lemma one_byte_length: "put_uint16 (to_uint16 (Suc 0)) = [0, 1]"
  by code_simp

text \<open>The answer is well formed: one handshake record holding one ServerHello message whose three-byte
  length, session-id length and extension-list length are those of the parts that follow, and one
  ChangeCipherSpec record; 93 bytes in all.\<close>

theorem server_hello_wellformed:
  assumes "length serverRandom = 32" "length sessID = 32"
  shows "server_hello_bytes serverRandom sessID =
      tlsRecord tlsHandshake 3 3 ([2, 0, 0, 78] @ server_hello_body serverRandom sessID)
      @ tlsRecord tlsChangeCipherSpec 3 3 [1]
    \<and> length (server_hello_body serverRandom sessID) = 78
    \<and> seg 2 34 (server_hello_body serverRandom sessID) = serverRandom
    \<and> seg 34 35 (server_hello_body serverRandom sessID) = [32]
    \<and> seg 35 67 (server_hello_body serverRandom sessID) = sessID
    \<and> seg 67 78 (server_hello_body serverRandom sessID) = [0x13, 1, 0, 0, 6, 0, 0x2b, 0, 2, 3, 4]"
  using assms by (simp add: server_hello_bytes_def server_hello_body_def tlsRecord_def seg_def one_byte_length Let_def)

theorem server_hello_wellformed_witness:
  "length (server_hello_body (replicate 32 5) (replicate 32 6)) = 78
   \<and> seg 35 67 (server_hello_body (replicate 32 5) (replicate 32 6)) = replicate 32 6"
  using server_hello_wellformed [of "replicate 32 5" "replicate 32 6"] by simp

section \<open>Both ends\<close>

definition write_all :: "byte list list \<Rightarrow> faketls_conn \<Rightarrow> faketls_conn" where
  "write_all bss c = foldl (\<lambda>c bs. snd (snd (faketls_write bs c))) c bss"

lemma write_all_sent:
  assumes "ft_in_step t0 c" "ft_open d p c"
  shows "ft_in_step t0 (write_all bss c) \<and> ft_open d p (write_all bss c)
    \<and> ft_sent t0 (write_all bss c) = ft_sent t0 c @ concat bss"
  using assms
proof (induction bss arbitrary: c)
  case (Cons bs bss)
  obtain n e c1 where w: "faketls_write bs c = (n, e, c1)" by (cases "faketls_write bs c")
  have "e = None" "ft_open d p c1" using faketls_write_open [OF Cons.prems(2) w] by auto
  moreover have "ft_in_step t0 c1" "e = None \<longrightarrow> ft_sent t0 c1 = ft_sent t0 c @ bs"
    using faketls_write_loop_step [OF Cons.prems(1) w [unfolded faketls_write_def]] by auto
  ultimately show ?case using Cons.IH [of c1] w by (simp add: write_all_def)
qed (simp add: write_all_def)

lemma ft_content_records:
  "f_readBuf c = [] \<Longrightarrow> prepend_content (f_conn c) = recs \<Longrightarrow>
   ft_content c = fst (xor_key_stream (f_enc c) (fst (split_records recs)))"
  by (simp add: ft_content_def)

lemma ft_final_records:
  "prepend_content (f_conn c) = recs \<Longrightarrow> snd (split_records recs) = [] \<Longrightarrow> ft_final c = prepend_final (f_conn c)"
  by (simp add: ft_final_def records_final_def short_error_def)

text \<open>C6. Framing round trip: whatever sequence of writes goes through one connection, of whatever sizes,
  a connection with the matching stream that receives the resulting bytes, cut into chunks in any way,
  delivers exactly the concatenation of what was written and then the end of its socket.\<close>

theorem faketls_roundtrip:
  assumes "open_writer (ft_raw a)" "ctr_pos (f_dec a) = 0"
    and "ft_ok b" "f_enc b = f_dec a" "f_readBuf b = []"
    and "tx (ft_raw a) @ prepend_content (f_conn b) = tx (ft_raw (write_all bss a))"
    and "open_writer out"
  shows "\<exists>st. io_copy (rd_fst faketls_read) (wr_snd conn_write) (b, out) =
      Some (length (concat bss), copy_error (prepend_final (f_conn b)), st)
    \<and> tx (snd st) = tx out @ concat bss"
proof -
  let ?p = "tx (ft_raw a)"
  note start = ft_in_step_start [OF assms(2)]
  note w = write_all_sent [OF conjunct1 [OF start] ft_open_start [OF assms(1,2)], of bss]
  obtain recs where recs: "tx (ft_raw (write_all bss a)) = ?p @ recs" "snd (split_records recs) = []"
    "concat bss = fst (xor_key_stream (f_dec a) (fst (split_records recs)))"
    using ft_sent_records [of ?p "write_all bss a" "f_dec a"] w start by auto
  then have content: "prepend_content (f_conn b) = recs" using assms(6) by simp
  have "ft_content b = concat bss"
    using ft_content_records [OF assms(5) content] recs(3) assms(4) by simp
  moreover have "ft_final b = prepend_final (f_conn b)" by (rule ft_final_records [OF content recs(2)])
  ultimately show ?thesis
    using ee_up.up_delivers [where good = open_writer, OF assms(3) TrueI assms(7)] open_writer_write
    by (fastforce simp add: copy_error_def)
qed

definition example_ctr :: ctr where
  "example_ctr = \<lparr>ctr_key = replicate 32 1, ctr_iv = replicate 16 2, ctr_pos = 0\<rparr>"

definition example_sender :: faketls_conn where
  "example_sender = \<lparr>f_conn = \<lparr>p_conn = new_conn [] EOF, p_buf = []\<rparr>, f_dec = example_ctr,
     f_enc = example_ctr, f_readBuf = []\<rparr>"

definition example_receiver :: "byte list \<Rightarrow> faketls_conn" where
  "example_receiver bs = example_sender\<lparr>f_conn := \<lparr>p_conn = new_conn [] EOF, p_buf = bs\<rparr>\<rparr>"

theorem faketls_roundtrip_witness:
  "\<exists>st. io_copy (rd_fst faketls_read) (wr_snd conn_write)
      (example_receiver (tx (ft_raw (write_all [[1, 2], [], [3]] example_sender))), new_conn [] EOF) = Some (3, None, st)
    \<and> tx (snd st) = [1, 2, 3]"
proof -
  let ?bs = "tx (ft_raw (write_all [[1, 2], [], [3]] example_sender))"
  have a: "open_writer (ft_raw example_sender)" "ctr_pos (f_dec example_sender) = 0"
    "tx (ft_raw example_sender) = []" "open_writer (new_conn [] EOF)"
    by (simp_all add: example_sender_def example_ctr_def ft_raw_def open_writer_def new_conn_def)
  have b: "ft_ok (example_receiver ?bs)" "f_enc (example_receiver ?bs) = f_dec example_sender"
    "f_readBuf (example_receiver ?bs) = []" "prepend_final (f_conn (example_receiver ?bs)) = EOF"
    "tx (ft_raw example_sender) @ prepend_content (f_conn (example_receiver ?bs)) = ?bs"
    unfolding a(3) by (simp_all add: example_receiver_def example_sender_def ft_ok_def prepend_ok_def
        conn_ok_def prepend_content_def conn_content_def prepend_final_def conn_final_def new_conn_def)
  from faketls_roundtrip [OF a(1,2) b(1,2,3,5) a(4)] b(4) show ?thesis
    by (simp add: copy_error_def new_conn_def eval_nat_numeral)
qed

text \<open>What the handshake makes of a client of the documented protocol.\<close>

lemma ee_session:
  assumes ok: "prepend_ok conn"
    and client: "length pfx = 56" "length tail = 8"
      "le_uint32 (seg 0 4 tail) \<in> {protoAbridged, protoIntermediate, protoFull}"
    and hello: "hello = client_hello (take 32 init) (drop 32 init) suites comps exts"
      "init = client_init pfx tail (s_raw s)"
      "length suites < 65536" "length comps < 256" "length (concat (map encode_ext exts)) < 65536"
      "length hello < 65536"
    and secrets: "secrets = earlier @ s # later" "s_type s = SecretTypeEE"
      "s_domain s = '''' \<or> equal_fold uf (foldl ext_sni '''' exts) (s_domain s)"
      "\<forall>r \<in> set earlier. \<not> ee_accepts uf init (foldl ext_sni '''' exts) r"
    and arrives: "prepend_content conn = tlsRecord tlsHandshake v w hello @ recs"
      "split_records recs = (client_encrypt pfx (s_raw s) data, [])"
    and writers: "open_writer (p_conn conn)" "tx (p_conn conn) = []"
  shows "\<exists>fc inner. newFakeTLSClientConn uf (Inr r1, Inr r2) conn secrets =
      Some (Inr (fc, ucast (le_uint32 (seg 4 8 tail)), s, inner))
    \<and> length inner = 64 \<and> drop 56 inner = tail
    \<and> ft_content fc = data \<and> ft_final fc = prepend_final conn \<and> ft_ok fc
    \<and> tx (ft_raw fc) = server_hello_bytes r1 r2 \<and> open_writer (ft_raw fc)
    \<and> f_dec fc = recv_stream (pfx @ replicate 8 0) (s_raw s)"
proof -
  let ?raw = "s_raw s" and ?sni = "foldl ext_sni '''' exts"
  let ?d = "recv_stream (pfx @ replicate 8 0) ?raw"
  have len: "length init = 64" using length_client_init [OF client(1,2)] hello(2) by simp
  have parsed: "parse_client_hello hello = Some (Inr (init, ?sni))"
    using parse_client_hello_built [OF _ _ hello(3,4,5), of "take 32 init" "drop 32 init"] len hello(1) by simp
  have "ee_accepts uf init ?sni s"
    using secrets(2,3) client_tag_dc(1) [OF client(1,2)] client(3) hello(2) by (auto simp add: ee_accepts_def)
  then have acc: "find (ee_accepts uf init ?sni) secrets = Some s"
    using find_first [OF secrets(4)] secrets(1) by simp
  have st: "send_stream init ?raw = client_stream pfx ?raw" "recv_stream init ?raw = ?d"
    using streams_prefix [OF client(1)] hello(2) by (simp_all add: client_init_def)
  let ?c1 = "prepend_skip (5 + length hello) conn"
  have c1: "prepend_ok ?c1" "prepend_final ?c1 = prepend_final conn" "prepend_content ?c1 = recs"
    using ok(1) arrives(1) by (simp_all add: prepend_src.ok_skip prepend_src.final_skip prepend_src.content_skip)
  have ow: "open_writer (p_conn ?c1)" "tx (p_conn ?c1) = []" using writers by (simp_all add: open_writer_def)
  obtain n e c2 where w: "prepend_write (server_hello_bytes r1 r2) ?c1 = (n, e, c2)"
    by (cases "prepend_write (server_hello_bytes r1 r2) ?c1")
  have c2: "e = None" "open_writer (p_conn c2)" "tx (p_conn c2) = server_hello_bytes r1 r2"
    using w open_writer_write [OF ow(1)] prepend_write_step [OF w] ow(2)
    by (auto simp add: prepend_write_def split: prod.splits)
  note src = prepend_write_source [OF w]
  define fc where "fc = \<lparr>f_conn = c2, f_dec = ?d, f_enc = (client_stream pfx ?raw)\<lparr>ctr_pos := 64\<rparr>, f_readBuf = []\<rparr>"
  have hs: "newFakeTLSClientConn uf (Inr r1, Inr r2) conn secrets =
      Some (Inr (fc, ucast (le_uint32 (seg 4 8 tail)), s, inner_nonce init ?raw))"
    using read_built_hello [OF ok(1) arrives(1) hello(6)] parsed try_ee_eq [OF len] acc w c2(1)
      client_tag_dc(2) [OF client(1,2), of ?raw, folded hello(2)]
    by (simp add: newFakeTLSClientConn_def sendFakeTLSServerHello_def st fc_def)
  have c: "prepend_content (f_conn fc) = recs" using src(1) c1(3) by (simp add: fc_def)
  have "ft_content fc = data"
    using ft_content_records [OF _ c] arrives(2) by (simp add: fc_def client_encrypt_def aes_ctr.xk_undo)
  moreover have "ft_final fc = prepend_final conn"
    using ft_final_records [OF c] arrives(2) src(2) c1(2) by (simp add: fc_def)
  moreover have "ft_ok fc" using src(3) c1(1) by (simp add: ft_ok_def fc_def)
  ultimately show ?thesis
    using hs client_inner [OF client(1,2), of ?raw] hello(2) len c2
    by (intro exI [of _ fc] exI [of _ "inner_nonce init ?raw"]) (simp add: ft_raw_def fc_def)
qed

text \<open>A client that holds a configured ee secret is served: it puts its init into the random and
  session-id fields of a ClientHello for the secret's domain (or for any host, if the secret has none),
  and its encrypted data, cut into records as it likes, follows. If no earlier ee secret accepts the
  init, the handshake settles on its secret and data centre; copying upstream delivers exactly the
  client's data; and what the socket has sent back is the ServerHello followed by complete records that
  decrypt to exactly the data centre's answer.\<close>

theorem ee_client_served:
  assumes ok: "prepend_ok conn" "conn_ok dc"
    and client: "length pfx = 56" "length tail = 8"
      "le_uint32 (seg 0 4 tail) \<in> {protoAbridged, protoIntermediate, protoFull}"
    and hello: "hello = client_hello (take 32 init) (drop 32 init) suites comps exts"
      "init = client_init pfx tail (s_raw s)"
      "length suites < 65536" "length comps < 256" "length (concat (map encode_ext exts)) < 65536"
      "length hello < 65536"
    and secrets: "secrets = earlier @ s # later" "s_type s = SecretTypeEE"
      "s_domain s = '''' \<or> equal_fold uf (foldl ext_sni '''' exts) (s_domain s)"
      "\<forall>r \<in> set earlier. \<not> ee_accepts uf init (foldl ext_sni '''' exts) r"
    and arrives: "prepend_content conn = tlsRecord tlsHandshake v w hello @ recs"
      "split_records recs = (client_encrypt pfx (s_raw s) data, [])"
    and writers: "open_writer dc" "open_writer (p_conn conn)" "tx (p_conn conn) = []"
  shows "\<exists>fc inner up down sent.
    newFakeTLSClientConn uf (Inr r1, Inr r2) conn secrets =
      Some (Inr (fc, ucast (le_uint32 (seg 4 8 tail)), s, inner))
    \<and> drop 56 inner = tail
    \<and> io_copy (rd_fst faketls_read) (wr_snd conn_write) (fc, dc) =
        Some (length data, copy_error (prepend_final conn), up) \<and> tx (snd up) = tx dc @ data
    \<and> io_copy (rd_snd conn_read) (wr_fst faketls_write) (fc, dc) =
        Some (length (conn_content dc), copy_error (conn_final dc), down)
    \<and> tx (ft_raw (fst down)) = server_hello_bytes r1 r2 @ sent
    \<and> snd (split_records sent) = []
    \<and> client_decrypt pfx (s_raw s) (fst (split_records sent)) = conn_content dc"
proof -
  let ?d = "recv_stream (pfx @ replicate 8 0) (s_raw s)"
  from ee_session [OF ok(1) client hello secrets arrives writers(2,3), of r1 r2] obtain fc inner where
    hs: "newFakeTLSClientConn uf (Inr r1, Inr r2) conn secrets = Some (Inr (fc, ucast (le_uint32 (seg 4 8 tail)), s, inner))"
    "drop 56 inner = tail"
    and content: "ft_content fc = data" "ft_final fc = prepend_final conn" "ft_ok fc"
    and raw: "tx (ft_raw fc) = server_hello_bytes r1 r2" "open_writer (ft_raw fc)" "f_dec fc = ?d"
    by (elim exE conjE)
  obtain up where up: "io_copy (rd_fst faketls_read) (wr_snd conn_write) (fc, dc) =
      Some (length data, copy_error (prepend_final conn), up)" "tx (snd up) = tx dc @ data"
    using ee_up.up_delivers [where good = open_writer, OF content(3) TrueI writers(1)] open_writer_write content
    by (fastforce simp add: copy_error_def)
  have pos: "ctr_pos ?d = 0" by (simp add: recv_stream_def)
  let ?p = "server_hello_bytes r1 r2"
  have open_fc: "ft_open ?d ?p fc" using ft_open_start [of fc] raw pos by simp
  have step: "ft_in_step (length ?p) fc" "ft_sent (length ?p) fc = []"
    using ft_in_step_start [of fc] raw pos by auto
  obtain s2 t2 where down: "io_copy (rd_snd conn_read) (wr_fst faketls_write) (fc, dc) =
      Some (length (conn_content dc), copy_error (conn_final dc), (t2, s2))"
    "ft_in_step (length ?p) t2" "ft_open ?d ?p t2" "ft_sent (length ?p) t2 = conn_content dc"
    using ee_down.down_delivers [where good = "ft_open ?d ?p", OF ok(2) step(1) open_fc] faketls_write_open step(2)
    by (fastforce simp add: copy_error_def)
  obtain sent where "tx (ft_raw t2) = ?p @ sent" "snd (split_records sent) = []"
    "ft_sent (length ?p) t2 = fst (xor_key_stream ?d (fst (split_records sent)))"
    using ft_sent_records [OF down(2,3)] by blast
  with hs up down show ?thesis
    by (intro exI [of _ fc] exI [of _ inner] exI [of _ up] exI [of _ "(t2, s2)"]
        exI [of _ sent]) (simp add: client_decrypt_def)
qed

definition example_ee :: secret where
  "example_ee = example_secret\<lparr>s_type := SecretTypeEE, s_domain := ''example.org'', s_name := ''bob''\<rparr>"

definition example_init :: "byte list" where
  "example_init = client_init example_pfx example_tail (s_raw example_ee)"

definition example_ee_hello :: "byte list" where
  "example_ee_hello = client_hello (take 32 example_init) (drop 32 example_init) [0x13, 0x01] [0]
     [(0, server_name_data ''EXAMPLE.org'')]"

definition example_data :: "byte list" where
  "example_data = client_encrypt example_pfx (s_raw example_ee) [1, 2, 3]"

lemma example_ee_facts:
  "length example_pfx = 56" "length example_tail = 8" "length example_ee_hello < 65536"
  "split_records (app_record example_data) = (client_encrypt example_pfx (s_raw example_ee) [1, 2, 3], [])"
  "equal_fold (\<lambda>_ _. False) (foldl ext_sni '''' [(0, server_name_data ''EXAMPLE.org'')]) (s_domain example_ee)"
  "s_type example_ee = SecretTypeEE"
  "tlsRecord tlsHandshake 3 1 example_ee_hello \<noteq> []" "app_record example_data \<noteq> []"
proof -
  show len: "length example_pfx = 56" "length example_tail = 8"
    by (simp_all add: example_pfx_def example_tail_def)
  have il: "length example_init = 64" using length_client_init [OF len] by (simp add: example_init_def)
  show "length example_ee_hello < 65536"
    using il by (simp add: example_ee_hello_def client_hello_def hello_head_def hello_tail_def server_name_data_def)
  have "length example_data = 3" by (simp add: example_data_def client_encrypt_def aes_ctr.xk_length)
  then have "split_records (app_record example_data) = (example_data, [])"
    using split_records_record [of example_data "[]"] by (simp add: split_records_stop)
  then show "split_records (app_record example_data) = (client_encrypt example_pfx (s_raw example_ee) [1, 2, 3], [])"
    by (simp only: example_data_def)
  show "equal_fold (\<lambda>_ _. False) (foldl ext_sni '''' [(0, server_name_data ''EXAMPLE.org'')]) (s_domain example_ee)"
    by (simp add: server_name_ext_sni example_ee_def) code_simp
qed (simp_all add: example_ee_def tlsRecord_def)

theorem ee_client_served_witness:
  "\<exists>fc inner up down sent.
    newFakeTLSClientConn (\<lambda>_ _. False) (Inr (replicate 32 3), Inr (replicate 32 4))
      \<lparr>p_conn = new_conn [tlsRecord tlsHandshake 3 1 example_ee_hello, app_record example_data] EOF, p_buf = []\<rparr>
      [example_ee] = Some (Inr (fc, 2, example_ee, inner))
    \<and> drop 56 inner = example_tail
    \<and> io_copy (rd_fst faketls_read) (wr_snd conn_write) (fc, new_conn [[8, 9]] EOF) = Some (3, None, up)
    \<and> tx (snd up) = [1, 2, 3]
    \<and> io_copy (rd_snd conn_read) (wr_fst faketls_write) (fc, new_conn [[8, 9]] EOF) = Some (2, None, down)
    \<and> tx (ft_raw (fst down)) = server_hello_bytes (replicate 32 3) (replicate 32 4) @ sent
    \<and> snd (split_records sent) = []
    \<and> client_decrypt example_pfx (s_raw example_ee) (fst (split_records sent)) = [8, 9]"
proof -
  let ?r = "tlsRecord tlsHandshake 3 1 example_ee_hello" and ?a = "app_record example_data"
  let ?conn = "\<lparr>p_conn = new_conn [?r, ?a] EOF, p_buf = []\<rparr>"
  have ok: "prepend_ok ?conn" "conn_ok (new_conn [[8, 9]] EOF)"
    using example_ee_facts(7,8) by (simp_all add: prepend_ok_def conn_ok_def new_conn_def)
  have tag: "le_uint32 (seg 0 4 example_tail) = protoAbridged" "le_uint32 (seg 4 8 example_tail) = 2"
    by code_simp+
  have arrives: "prepend_content ?conn = ?r @ ?a"
    by (simp add: prepend_content_def conn_content_def new_conn_def)
  from ee_client_served [OF ok example_ee_facts(1,2) _ example_ee_hello_def example_init_def _ _ _ example_ee_facts(3) _
      example_ee_facts(6) disjI2 [OF example_ee_facts(5)] _ arrives example_ee_facts(4), of "[example_ee]" "[]" "[]" "replicate 32 3" "replicate 32 4"]
  show ?thesis
    by (simp add: tag server_name_data_def) (simp add: open_writer_def new_conn_def conn_content_def conn_final_def
        prepend_final_def copy_error_def eval_nat_numeral)
qed

end
