(* ===== verification/Socks5.thy ===== *)
theory Socks5
  imports GoIO
begin

text \<open>
  \<^verbatim>\<open>proxy/socks5.go\<close>: the SOCKS5 negotiation. Dialling is the parameter \<open>dial\<close>; the relay that follows a
  successful negotiation is the subject of theory \<open>Relay\<close>.
\<close>

section \<open>The negotiation\<close>

definition socks5Version :: byte where "socks5Version = 0x05"
definition socks5NoAuth :: byte where "socks5NoAuth = 0x00"
definition socks5CmdConnect :: byte where "socks5CmdConnect = 0x01"
definition socks5AtypIPv4 :: byte where "socks5AtypIPv4 = 0x01"
definition socks5AtypDomain :: byte where "socks5AtypDomain = 0x03"
definition socks5AtypIPv6 :: byte where "socks5AtypIPv6 = 0x04"

lemmas socks5_constants = socks5Version_def socks5NoAuth_def socks5CmdConnect_def socks5AtypIPv4_def
  socks5AtypDomain_def socks5AtypIPv6_def

text \<open>The formats of \<^verbatim>\<open>fmt\<close> for a byte, a byte slice, and of \<^verbatim>\<open>net.IP.String\<close> for four bytes.\<close>

definition dec_byte :: "byte \<Rightarrow> string" where
  "dec_byte b = dec (unat b)"

fun join_with :: "string \<Rightarrow> string list \<Rightarrow> string" where
  "join_with sep [] = ''''"
| "join_with sep [s] = s"
| "join_with sep (s # t # ss) = s @ sep @ join_with sep (t # ss)"

definition show_bytes :: "byte list \<Rightarrow> string" where
  "show_bytes bs = ''['' @ join_with '' '' (map dec_byte bs) @ '']''"

definition ipv4_string :: "byte list \<Rightarrow> string" where
  "ipv4_string b = join_with ''.'' (map dec_byte b)"

definition reply :: "byte \<Rightarrow> byte list" where
  "reply code = [0x05, code, 0x00, 0x01, 0, 0, 0, 0, 0, 0]"

text \<open>The greeting: complete the two-byte header, then the list of methods.\<close>

definition read_greeting :: "byte list \<Rightarrow> (conn, byte list) go" where
  "read_greeting peek =
     (if length peek < 2
      then go_bind (go_read conn_read (ErrWrap ''read greeting'') (2 - length peek)) (\<lambda>extra.
             go_return (peek @ extra))
      else go_return peek)"

definition read_methods :: "byte list \<Rightarrow> (conn, byte list) go" where
  "read_methods peek =
     go_bind (go_at peek 1) (\<lambda>n.
     go_bind (go_cut peek 2 (length peek)) (\<lambda>got.
     let nMethods = unat n;
         haveMethods = length peek - 2;
         methods = go_copy (replicate nMethods 0) got
     in if haveMethods < nMethods
        then go_bind (go_cut methods haveMethods nMethods) (\<lambda>dst.
             go_bind (go_read conn_read (ErrWrap ''read auth methods'') (length dst)) (\<lambda>bs.
             go_return (take haveMethods methods @ bs)))
        else go_return methods))"

fun select_method :: "byte list \<Rightarrow> byte" where
  "select_method [] = 0xFF"
| "select_method (m # ms) = (if m = socks5NoAuth then socks5NoAuth else select_method ms)"

definition read_host :: "byte \<Rightarrow> (conn, string) go" where
  "read_host atyp =
     (if atyp = socks5AtypIPv4 then
        go_bind (go_read conn_read (ErrWrap ''read ipv4'') 4) (\<lambda>b. go_return (ipv4_string b))
      else if atyp = socks5AtypDomain then
        go_bind (go_read conn_read (ErrWrap ''read domain len'') 1) (\<lambda>lenB.
        go_bind (go_at lenB 0) (\<lambda>n.
        go_bind (go_read conn_read (ErrWrap ''read domain'') (unat n)) (\<lambda>domain.
        go_return (string_of_bytes domain))))
      else if atyp = socks5AtypIPv6 then
        go_bind (go_drain conn_read 18) (\<lambda>_.
        go_bind (go_send conn_write (reply 0x08)) (\<lambda>_.
        go_fail (ErrText ''IPv6 not supported'')))
      else
        go_bind (go_send conn_write (reply 0x08)) (\<lambda>_.
        go_fail (ErrText (''unsupported address type '' @ dec_byte atyp))))"

definition read_request :: "(conn, string) go" where
  "read_request =
     go_bind (go_read conn_read (ErrWrap ''read request header'') 4) (\<lambda>hdr.
     go_bind (go_at hdr 0) (\<lambda>ver.
     if ver \<noteq> socks5Version then go_fail (ErrText (''bad request version '' @ dec_byte ver))
     else
       go_bind (go_at hdr 1) (\<lambda>cmd.
       if cmd \<noteq> socks5CmdConnect then
         go_bind (go_send conn_write (reply 0x07)) (\<lambda>_.
         go_fail (ErrText (''unsupported command '' @ dec_byte cmd)))
       else
         go_bind (go_at hdr 3) (\<lambda>atyp.
         go_bind (read_host atyp) (\<lambda>host.
         go_bind (go_read conn_read (ErrWrap ''read port'') 2) (\<lambda>portB.
         go_return (host @ '':'' @ dec (unat (be_uint16 portB)))))))))"

definition socks5Handshake :: "byte list \<Rightarrow> (conn, string) go" where
  "socks5Handshake peek =
     go_bind (read_greeting peek) (\<lambda>peek.
     go_bind (go_at peek 0) (\<lambda>ver.
     if ver \<noteq> socks5Version
     then go_fail (ErrText (''unsupported SOCKS version '' @ dec_byte ver))
     else
       go_bind (read_methods peek) (\<lambda>methods.
       go_bind (go_write conn_write (ErrWrap ''write method'') [socks5Version, select_method methods]) (\<lambda>_.
       if select_method methods = 0xFF
       then go_fail (ErrText (''no acceptable auth method in '' @ show_bytes methods))
       else read_request))))"

text \<open>The outcome of a SOCKS5 connection up to the relay: closed, or two sockets to relay between.\<close>

datatype socks5_outcome = SocksClosed conn | SocksRelay conn conn

definition handleSOCKS5 :: "(string \<Rightarrow> go_error + conn) \<Rightarrow> byte list \<Rightarrow> conn \<Rightarrow> socks5_outcome option" where
  "handleSOCKS5 dial peek conn =
     map_option (\<lambda>(r, conn).
       case r of
         Inl err \<Rightarrow> SocksClosed conn
       | Inr target \<Rightarrow>
           (case dial target of
              Inl err \<Rightarrow> (case conn_write (reply 0x04) conn of (n, e, conn) \<Rightarrow> SocksClosed conn)
            | Inr targetConn \<Rightarrow>
                (case conn_write (reply 0x00) conn of (n, e, conn) \<Rightarrow> SocksRelay conn targetConn)))
       (socks5Handshake peek conn)"

section \<open>Shape of the negotiation\<close>

lemma select_method_eq: "select_method ms = (if 0 \<in> set ms then 0 else 0xFF)"
  by (induction ms) (auto simp add: socks5NoAuth_def)

lemma chunk_free_handshake: "chunk_free (socks5Handshake peek)"
  unfolding socks5Handshake_def read_greeting_def read_methods_def read_request_def read_host_def Let_def
  by (intro chunk_free_intros conjI impI | simp split del: if_split | split if_split)+

text \<open>No access is out of range: the greeting that is parsed has at least its two-byte header.\<close>

lemma yields_greeting: "yields conn_ok (\<lambda>p. 2 \<le> length p) (read_greeting peek)"
  unfolding read_greeting_def
  by (auto intro!: yields_bind [OF conn_src.yields_read] yields_return)

lemma yields_methods:
  assumes "2 \<le> length p"
  shows "yields conn_ok (\<lambda>_. True) (read_methods p)"
proof -
  have len: "length (go_copy (replicate n 0) xs) = n" for n and xs :: "byte list"
    by (simp add: go_copy_def)
  show ?thesis
    unfolding read_methods_def Let_def using assms
    by (auto intro!: yields_bind [OF yields_at] yields_bind [OF yields_cut] yields_bind [OF conn_src.yields_read]
        yields_return simp add: len)
qed

lemma yields_host: "yields conn_ok (\<lambda>_. True) (read_host atyp)"
  unfolding read_host_def
  by (auto intro!: yields_bind [OF conn_src.yields_read] yields_bind [OF conn_src.yields_drain]
      yields_bind [OF yields_conn_send] yields_bind [OF yields_at] yields_return yields_fail)

lemma yields_request: "yields conn_ok (\<lambda>_. True) read_request"
  unfolding read_request_def
  by (auto intro!: yields_bind [OF conn_src.yields_read] yields_bind [OF yields_at] yields_bind [OF yields_host]
      yields_bind [OF yields_conn_send] yields_return yields_fail)

lemma yields_handshake: "yields conn_ok (\<lambda>_. True) (socks5Handshake peek)"
  unfolding socks5Handshake_def
  by (auto intro!: yields_bind [OF yields_greeting] yields_bind [OF yields_at] yields_bind [OF yields_methods]
      yields_bind [OF yields_conn_write] yields_fail yields_request)

section \<open>What a client sends (RFC 1928)\<close>

datatype socks5_addr = AddrIPv4 "byte list" | AddrDomain string

definition addr_ok :: "socks5_addr \<Rightarrow> bool" where
  "addr_ok a = (case a of AddrIPv4 b \<Rightarrow> length b = 4 | AddrDomain d \<Rightarrow> length d < 256)"

definition encode_addr :: "socks5_addr \<Rightarrow> byte list" where
  "encode_addr a =
     (case a of AddrIPv4 b \<Rightarrow> 1 # b | AddrDomain d \<Rightarrow> 3 # of_nat (length d) # bytes_of_string d)"

definition addr_host :: "socks5_addr \<Rightarrow> string" where
  "addr_host a = (case a of AddrIPv4 b \<Rightarrow> ipv4_string b | AddrDomain d \<Rightarrow> d)"

definition encode_request :: "byte \<Rightarrow> byte \<Rightarrow> socks5_addr \<Rightarrow> uint16 \<Rightarrow> byte list" where
  "encode_request cmd rsv a port = [5, cmd, rsv] @ encode_addr a @ put_uint16 port"

definition encode_greeting :: "byte list \<Rightarrow> byte list" where
  "encode_greeting ms = [5, of_nat (length ms)] @ ms"

lemma greeting_done:
  assumes "conn_ok c" "peek @ conn_content c = encode_greeting ms @ rest" "length ms < 256"
    and "length peek \<le> 2 + length ms"
  shows "\<exists>p k. read_greeting peek c = Some (Inr p, conn_skip k c) \<and> 0 < length p \<and> p ! 0 = 5
    \<and> read_methods p (conn_skip k c) = Some (Inr ms, conn_skip (2 + length ms - length peek) c)"
proof -
  have n: "unat (of_nat (length ms) :: byte) = length ms" using assms(3) by (simp add: unat_of_nat)
  show ?thesis
  proof (cases "length peek < 2")
    case True
    then have content: "conn_content c = drop (length peek) ([5, of_nat (length ms)] @ ms @ rest)"
      using assms(2) by (simp add: encode_greeting_def append_eq_conv_conj)
    let ?k = "2 - length peek"
    have p: "peek @ take ?k (conn_content c) = [5, of_nat (length ms)]"
    proof -
      have "take 2 (peek @ conn_content c) = [5, of_nat (length ms)]"
        by (simp add: assms(2) encode_greeting_def)
      then show ?thesis using True by simp
    qed
    have len: "length (conn_content c) = 2 + length ms + length rest - length peek"
      by (simp add: content)
    have "read_greeting peek c = Some (Inr [5, of_nat (length ms)], conn_skip ?k c)"
      using True len assms(1) p
      by (simp add: read_greeting_def go_bind_def conn_src.go_read_enough)
    moreover have "drop ?k (conn_content c) = ms @ rest"
      using True by (simp add: content)
    then have "read_methods [5, of_nat (length ms)] (conn_skip ?k c) =
        Some (Inr ms, conn_skip (2 + length ms - length peek) c)"
      using assms(1) n True
      by (cases "ms = []") (simp_all add: read_methods_def go_bind_def conn_src.go_read_enough conn_src_simps
          go_copy_def seg_def Let_def)
    ultimately show ?thesis by (intro exI conjI) auto
  next
    case False
    then obtain old where peek: "peek = [5, of_nat (length ms)] @ old"
      using assms(2) by (cases peek; cases "tl peek") (auto simp add: encode_greeting_def)
    with assms(2,4) have content: "old @ conn_content c = ms @ rest" "length old \<le> length ms"
      by (simp_all add: encode_greeting_def)
    then obtain more where ms: "ms = old @ more" "conn_content c = more @ rest"
      by (auto simp add: append_eq_append_conv2)
    have "read_greeting peek c = Some (Inr peek, conn_skip 0 c)"
      using False assms(1) by (simp add: read_greeting_def conn_src.skip_0)
    moreover have "read_methods peek (conn_skip 0 c) = Some (Inr ms, conn_skip (2 + length ms - length peek) c)"
      using assms(1) n
      by (cases "more = []") (simp_all add: peek ms read_methods_def go_bind_def conn_src.go_read_enough
          conn_src.skip_0 go_copy_def seg_def Let_def)
    ultimately show ?thesis using peek by (intro exI conjI) auto
  qed
qed

lemma read_host_done:
  assumes "conn_ok c" "addr_ok a" "hd (encode_addr a) # conn_content c = encode_addr a @ rest"
  shows "read_host (hd (encode_addr a)) c =
    Some (Inr (addr_host a), conn_skip (length (encode_addr a) - 1) c)"
proof (cases a)
  case (AddrIPv4 b)
  with assms show ?thesis
    by (simp add: read_host_def encode_addr_def addr_host_def addr_ok_def socks5_constants go_bind_def
        conn_src.go_read_enough)
next
  case (AddrDomain d)
  with assms have c: "conn_content c = of_nat (length d) # bytes_of_string d @ rest"
    and n: "unat (of_nat (length d) :: byte) = length d"
    by (simp_all add: encode_addr_def addr_ok_def unat_of_nat)
  show ?thesis
    using AddrDomain assms(1) n
    by (simp add: c read_host_def encode_addr_def addr_host_def socks5_constants go_bind_def
        conn_src.go_read_enough conn_src_simps)
qed

lemma read_request_done:
  assumes "conn_ok c" "addr_ok a" "conn_content c = encode_request 1 rsv a port @ rest"
  shows "read_request c = Some (Inr (addr_host a @ '':'' @ dec (unat port)),
    conn_skip (length (encode_request 1 rsv a port)) c)"
proof -
  obtain t ad where a: "encode_addr a = t # ad"
    by (cases a) (auto simp add: encode_addr_def)
  have c: "conn_content c = [5, 1, rsv, t] @ ad @ put_uint16 port @ rest"
    using assms(3) a by (simp add: encode_request_def)
  have ok: "conn_ok (conn_skip 4 c)" using assms(1) by (simp add: conn_src_simps)
  have "read_host t (conn_skip 4 c) = Some (Inr (addr_host a), conn_skip (length ad) (conn_skip 4 c))"
    using read_host_done [OF ok assms(2)] assms(1) a c by (simp add: conn_src_simps)
  moreover have "go_read conn_read wrap 4 c = Some (Inr [5, 1, rsv, t], conn_skip 4 c)" for wrap
    using assms(1) c by (simp add: conn_src.go_read_enough)
  moreover have "go_read conn_read wrap 2 (conn_skip (4 + length ad) c) =
      Some (Inr (put_uint16 port), conn_skip (4 + length ad + 2) c)" for wrap
  proof -
    have "drop (4 + length ad) (conn_content c) = put_uint16 port @ rest"
      unfolding c by (simp only: drop_drop [symmetric] add.commute [of 4]) simp
    then show ?thesis
      using conn_src.go_read_enough [of "conn_skip (4 + length ad) c" 2] assms(1)
      by (simp add: conn_src_simps)
  qed
  moreover have "length (encode_request 1 rsv a port) = 6 + length ad"
    using a by (simp add: encode_request_def)
  ultimately show ?thesis
    using assms(1) a by (simp add: read_request_def go_bind_def socks5_constants conn_src_simps)
qed

text \<open>A well-formed negotiation succeeds: a greeting that offers no authentication among its methods,
  followed by a CONNECT request for an IPv4 address or a domain name of at most 255 bytes, is answered by
  \<open>05 00\<close> and yields the address in the form \<^verbatim>\<open>host:port\<close>; nothing after the request is consumed, however
  many bytes of the greeting the caller had already read.\<close>

theorem socks5_connect:
  assumes "conn_ok c" "open_writer c" "addr_ok a" "length ms < 256" "0 \<in> set ms"
    and "peek @ conn_content c = encode_greeting ms @ encode_request 1 rsv a port @ rest"
    and "length peek \<le> length (encode_greeting ms)"
  shows "\<exists>c'. socks5Handshake peek c = Some (Inr (addr_host a @ '':'' @ dec (unat port)), c')
    \<and> conn_content c' = rest \<and> tx c' = tx c @ [5, 0] \<and> conn_ok c' \<and> open_writer c'"
proof -
  have le: "length peek \<le> 2 + length ms" using assms(7) by (simp add: encode_greeting_def)
  from greeting_done [OF assms(1,6,4) le] obtain p k where
    g: "read_greeting peek c = Some (Inr p, conn_skip k c)" "0 < length p" "p ! 0 = 5"
      "read_methods p (conn_skip k c) = Some (Inr ms, conn_skip (2 + length ms - length peek) c)" by blast
  let ?c = "conn_put [5, 0] (conn_skip (2 + length ms - length peek) c)"
  have "drop (2 + length ms) (peek @ conn_content c) = encode_request 1 rsv a port @ rest"
    by (simp add: assms(6) encode_greeting_def)
  then have content: "conn_content ?c = encode_request 1 rsv a port @ rest"
    using assms(1) le by (simp add: io_simps)
  have ok: "conn_ok ?c" using assms(1) by (simp add: io_simps)
  have "socks5Handshake peek c = read_request ?c"
    using g assms(2,5) by (simp add: socks5Handshake_def go_bind_def io_simps select_method_eq socks5_constants)
  with read_request_done [OF ok assms(3) content] ok content assms(2) show ?thesis
    by (simp add: io_simps)
qed

theorem socks5_connect_witness:
  "\<exists>c'. socks5Handshake [5, 2, 2, 0] (new_conn [[5, 1, 0, 3, 2, 104], [105, 1, 187, 9]] EOF) =
     Some (Inr ''hi:443'', c') \<and> conn_content c' = [9] \<and> tx c' = [5, 0]"
proof -
  have p: "put_uint16 443 = [1, 187]" by code_simp
  have d: "dec (unat (443 :: uint16)) = ''443''" by code_simp
  have hi: "bytes_of_string ''hi'' = [104, 105]" by code_simp
  let ?c = "new_conn [[5, 1, 0, 3, 2, 104], [105, 1, 187, 9]] EOF"
  have c: "conn_ok ?c" "open_writer ?c" "tx ?c = []"
    "conn_content ?c = [5, 1, 0, 3, 2, 104, 105, 1, 187, 9]"
    by (simp_all add: new_conn_def conn_ok_def open_writer_def conn_content_def)
  show ?thesis
    using socks5_connect [OF c(1,2), of "AddrDomain ''hi''" "[2, 0]" "[5, 2, 2, 0]" 0 443 "[9]"]
    by (simp add: c addr_ok_def encode_greeting_def encode_request_def encode_addr_def addr_host_def p hi
        d [simplified]) blast
qed

text \<open>The phases of a negotiation that goes wrong after the greeting.\<close>

lemma handshake_after_greeting:
  assumes "conn_ok c" "open_writer c" "length ms < 256" "length peek \<le> length (encode_greeting ms)"
    and "peek @ conn_content c = encode_greeting ms @ rest"
  shows "\<exists>c'. conn_ok c' \<and> open_writer c' \<and> conn_content c' = rest \<and> conn_final c' = conn_final c
    \<and> tx c' = tx c @ [5, select_method ms]
    \<and> socks5Handshake peek c =
        (if 0 \<in> set ms then read_request c'
         else Some (Inl (ErrText (''no acceptable auth method in '' @ show_bytes ms)), c'))"
proof -
  have le: "length peek \<le> 2 + length ms" using assms(4) by (simp add: encode_greeting_def)
  from greeting_done [OF assms(1,5,3) le] obtain p k where
    g: "read_greeting peek c = Some (Inr p, conn_skip k c)" "0 < length p" "p ! 0 = 5"
      "read_methods p (conn_skip k c) = Some (Inr ms, conn_skip (2 + length ms - length peek) c)" by blast
  let ?c = "conn_put [5, select_method ms] (conn_skip (2 + length ms - length peek) c)"
  have "drop (2 + length ms) (peek @ conn_content c) = rest"
    by (simp add: assms(5) encode_greeting_def)
  then have "conn_content ?c = rest" using assms(1) le by (simp add: io_simps)
  moreover have "socks5Handshake peek c = (if 0 \<in> set ms then read_request ?c
      else Some (Inl (ErrText (''no acceptable auth method in '' @ show_bytes ms)), ?c))"
    using g assms(2) by (simp add: socks5Handshake_def go_bind_def io_simps select_method_eq socks5_constants)
  ultimately show ?thesis
    using assms(1,2) by (intro exI [of _ ?c]) (simp add: io_simps)
qed

text \<open>C26. A client that does not offer \<^verbatim>\<open>no authentication\<close> is told so (\<open>05 FF\<close>) and nothing more is
  sent or read; the handshake fails.\<close>

theorem socks5_auth_rejected:
  assumes "conn_ok c" "open_writer c" "length ms < 256" "0 \<notin> set ms"
    and "peek @ conn_content c = encode_greeting ms @ rest" "length peek \<le> length (encode_greeting ms)"
  shows "\<exists>c'. socks5Handshake peek c =
      Some (Inl (ErrText (''no acceptable auth method in '' @ show_bytes ms)), c')
    \<and> conn_content c' = rest \<and> tx c' = tx c @ [5, 0xFF]"
  using handshake_after_greeting [OF assms(1,2,3,6,5)] assms(4) by (auto simp add: select_method_eq)

theorem socks5_auth_rejected_witness:
  "\<exists>c'. socks5Handshake [5, 2] (new_conn [[1, 2, 5, 1]] EOF) =
      Some (Inl (ErrText ''no acceptable auth method in [1 2]''), c')
    \<and> conn_content c' = [5, 1] \<and> tx c' = [5, 0xFF]"
proof -
  let ?c = "new_conn [[1, 2, 5, 1]] EOF"
  have c: "conn_ok ?c" "open_writer ?c" "tx ?c = []" "conn_content ?c = [1, 2, 5, 1]"
    by (simp_all add: new_conn_def conn_ok_def open_writer_def conn_content_def)
  have s: "show_bytes [1, 2] = ''[1 2]''" by code_simp
  show ?thesis
    using socks5_auth_rejected [OF c(1,2), of "[1, 2]" "[5, 2]" "[5, 1]"]
    by (simp add: c encode_greeting_def s)
qed

text \<open>C27. After an accepted greeting, a request that is not CONNECT is answered with reply 07 and a CONNECT to
  an address type other than IPv4 and domain with reply 08 (for IPv6 after the address and port have been
  read); both fail the handshake, so no connection is ever dialled for them.\<close>

theorem socks5_refusals:
  assumes "conn_ok c" "open_writer c" "length ms < 256" "0 \<in> set ms"
    and "peek @ conn_content c = encode_greeting ms @ [5, cmd, rsv, atyp] @ rest"
    and "length peek \<le> length (encode_greeting ms)" "cmd \<noteq> 1 \<or> atyp \<notin> {1, 3}"
  shows "\<exists>err c'. socks5Handshake peek c = Some (Inl err, c')
    \<and> tx c' = tx c @ [5, 0] @ reply (if cmd \<noteq> 1 then 7 else 8)
    \<and> conn_content c' = (if cmd = 1 \<and> atyp = 4 then drop 18 rest else rest)"
proof -
  from handshake_after_greeting [OF assms(1,2,3,6,5)] assms(4) obtain c1 where
    c1: "conn_ok c1" "open_writer c1" "conn_content c1 = [5, cmd, rsv, atyp] @ rest" "tx c1 = tx c @ [5, 0]"
      "socks5Handshake peek c = read_request c1" by (auto simp add: select_method_eq)
  have hdr: "go_read conn_read wrap 4 c1 = Some (Inr [5, cmd, rsv, atyp], conn_skip 4 c1)" for wrap
    using c1(1,3) by (simp add: conn_src.go_read_enough)
  have drain: "go_drain conn_read 18 (conn_skip 4 c1) = Some (Inr (), conn_skip (min 18 (length rest)) (conn_skip 4 c1))"
    using conn_src.go_drain_skip [of "conn_skip 4 c1" 18] c1(1,3) by (simp add: io_simps)
  show ?thesis
  proof (cases "cmd = 1 \<and> atyp = 4")
    case True
    have "drop (min 18 (length rest)) rest = drop 18 rest" by (simp add: min_def)
    then have "conn_content (conn_skip (min 18 (length rest)) (conn_skip 4 c1)) = drop 18 rest"
      using c1(1,3) by (simp only: io_simps drop_drop [symmetric] add.commute [of 4]) simp
    with True c1 hdr drain show ?thesis
      by (simp add: read_request_def read_host_def go_bind_def socks5_constants io_simps)
  next
    case False
    with c1 hdr assms(7) show ?thesis
      by (auto simp add: read_request_def read_host_def go_bind_def socks5_constants io_simps)
  qed
qed

theorem socks5_refusals_witness:
  "\<exists>err c'. socks5Handshake [] (new_conn [[5, 1, 0, 5, 2, 0, 1, 9]] EOF) = Some (Inl err, c')
    \<and> tx c' = [5, 0] @ reply 7 \<and> conn_content c' = [9]"
proof -
  let ?c = "new_conn [[5, 1, 0, 5, 2, 0, 1, 9]] EOF"
  have c: "conn_ok ?c" "open_writer ?c" "tx ?c = []" "conn_content ?c = [5, 1, 0, 5, 2, 0, 1, 9]"
    by (simp_all add: new_conn_def conn_ok_def open_writer_def conn_content_def)
  show ?thesis
    using socks5_refusals [OF c(1,2), of "[0]" "[]" 2 0 1 "[9]"] by (simp add: c encode_greeting_def)
qed

text \<open>C25. The negotiation always returns and never panics, whatever arrives, and its result, its replies and
  the bytes left do not depend on how the incoming bytes are cut into chunks.\<close>

theorem socks5_chunking:
  assumes "same_bytes c d"
  shows "\<exists>r c' d'. socks5Handshake peek c = Some (r, c') \<and> socks5Handshake peek d = Some (r, d')
    \<and> tx c' = tx d' \<and> conn_content c' = conn_content d'"
proof -
  obtain r c' where c: "socks5Handshake peek c = Some (r, c')"
    using yieldsD [OF yields_handshake, of c peek] same_bytes_fields(1) [OF assms] by blast
  have "rel_option (rel_prod (=) same_bytes) (socks5Handshake peek c) (socks5Handshake peek d)"
    using chunk_free_handshake assms by (simp add: chunk_free_def)
  then obtain d' where r: "socks5Handshake peek c = Some (r, c')" "socks5Handshake peek d = Some (r, d')"
    "same_bytes c' d'"
    using c by (cases "socks5Handshake peek d") auto
  from same_bytes_fields [OF r(3)] r(1,2) show ?thesis by simp
qed

theorem socks5_chunking_witness:
  "\<exists>r c' d'. socks5Handshake [5] (new_conn [[1, 0, 5], [1, 0, 9]] EOF) = Some (r, c')
    \<and> socks5Handshake [5] (new_conn [[1], [0], [5, 1, 0, 9]] EOF) = Some (r, d')
    \<and> tx c' = tx d' \<and> conn_content c' = conn_content d'"
  by (rule socks5_chunking) (simp add: same_bytes_def conn_ok_def new_conn_def)

text \<open>C28. Pipelining loses bytes: when the caller has read past the end of the greeting (it reads up to four
  bytes, a greeting with one method has three), the surplus is dropped, and the request that follows is
  read from its second byte on. A client that sends its greeting and its request at once is refused.\<close>

theorem socks5_pipelined_request_refused:
  assumes "conn_ok c" "open_writer c"
    and "conn_content c = tl (encode_request 1 0 a port) @ rest"
  shows "\<exists>c'. socks5Handshake (encode_greeting [0] @ [hd (encode_request 1 0 a port)]) c =
      Some (Inl (ErrText ''bad request version 1''), c')
    \<and> tx c' = tx c @ [5, 0]"
proof -
  obtain t ad where a: "encode_addr a = t # ad" by (cases a) (auto simp add: encode_addr_def)
  have d1: "dec_byte 1 = ''1''" by code_simp
  let ?c = "conn_put [5, 0] c"
  obtain y ys where y: "ad @ put_uint16 port @ rest = y # ys"
    by (cases "ad @ put_uint16 port @ rest") (auto simp add: put_uint16_def)
  then have "conn_content ?c = [1, 0, t, y] @ ys"
    using assms(3) a by (simp add: io_simps encode_request_def)
  then have hdr: "go_read conn_read wrap 4 ?c = Some (Inr [1, 0, t, y], conn_skip 4 ?c)" for wrap
    using assms(1) conn_src.go_read_enough [of ?c 4] by (simp add: io_simps)
  have "socks5Handshake (encode_greeting [0] @ [hd (encode_request 1 0 a port)]) c = read_request ?c"
    using assms(2) a
    by (simp add: socks5Handshake_def read_greeting_def read_methods_def go_bind_def io_simps go_copy_def seg_def
        encode_greeting_def encode_request_def socks5_constants)
  moreover have "read_request ?c = Some (Inl (ErrText ''bad request version 1''), conn_skip 4 ?c)"
    using hdr by (simp add: read_request_def go_bind_def socks5_constants d1)
  ultimately show ?thesis by (simp add: io_simps)
qed

theorem socks5_pipelined_request_refused_witness:
  "\<exists>c'. socks5Handshake [5, 1, 0, 5] (new_conn [[1, 0, 1, 10, 0, 0, 1, 0, 80]] EOF) =
      Some (Inl (ErrText ''bad request version 1''), c') \<and> tx c' = [5, 0]"
proof -
  let ?c = "new_conn [[1, 0, 1, 10, 0, 0, 1, 0, 80]] EOF"
  have c: "conn_ok ?c" "open_writer ?c" "tx ?c = []" "conn_content ?c = [1, 0, 1, 10, 0, 0, 1, 0, 80]"
    by (simp_all add: new_conn_def conn_ok_def open_writer_def conn_content_def)
  have p: "put_uint16 80 = [0, 80]" by code_simp
  show ?thesis
    using socks5_pipelined_request_refused [OF c(1,2), of "AddrIPv4 [10, 0, 0, 1]" 80 "[]"]
    by (simp add: c encode_greeting_def encode_request_def encode_addr_def p)
qed

text \<open>The target determines the host and the port it was made from.\<close>

lemma socks5_target_inject:
  "h @ '':'' @ dec (unat p) = h' @ '':'' @ dec (unat p') \<Longrightarrow> h = h' \<and> p = (p' :: uint16)"
  using colon_dec_inject [of h "unat p" h' "unat p'"] by (auto intro: unsigned_word_eqI)

end
