(* ===== verification/Hysteria2.thy ===== *)
theory Hysteria2
  imports GoIO
begin

text \<open>
  \<^verbatim>\<open>proxy/hysteria2.go\<close>: what the server does on the streams of one QUIC connection. QUIC itself is a
  parameter: a stream is any state with a reader \<open>rd\<close> and a writer \<open>wr\<close> (the properties assume of them the
  contract \<open>duplex\<close>), \<open>cl\<close> closes it, and an accepted connection is the list of what \<^verbatim>\<open>AcceptStream\<close> has returned on
  it. Dialling is the parameter \<open>dial\<close>.
\<close>

section \<open>Strings on the wire\<close>

definition hy2ReadStr :: "'s reader \<Rightarrow> ('s, string) go" where
  "hy2ReadStr rd =
     go_bind (go_read rd id 2) (\<lambda>lenBuf.
     let n = unat (be_uint16 lenBuf)
     in if n = 0 then go_return ''''
        else go_bind (go_read rd id n) (\<lambda>data. go_return (string_of_bytes data)))"

definition hy2AppendStr :: "byte list \<Rightarrow> string \<Rightarrow> byte list" where
  "hy2AppendStr b s = b @ put_uint16 (to_uint16 (length s)) @ bytes_of_string s"

section \<open>The authentication stream\<close>

definition auth_response :: "bool \<Rightarrow> byte list" where
  "auth_response ok =
     (let resp = (if ok then [0x01] else [0x00]) @ put_uint64 0;
          msg = (if \<not> ok then ''auth failed'' else '''')
      in hy2AppendStr resp msg)"

definition hy2HandleAuth :: "'s reader \<Rightarrow> 's writer \<Rightarrow> string \<Rightarrow> ('s, bool) go" where
  "hy2HandleAuth rd wr password =
     (\<lambda>s. Option.bind (hy2ReadStr rd s) (\<lambda>(auth, s).
        case auth of
          Inl err \<Rightarrow> Some (Inl (ErrWrap ''read auth'' err), s)
        | Inr auth \<Rightarrow>
            go_bind (go_read rd (ErrWrap ''read rx'') 8) (\<lambda>rxBuf.
            go_bind (go_send wr (auth_response (auth = password))) (\<lambda>_.
            go_return (auth = password))) s))"

section \<open>A proxy stream\<close>

definition hy2StreamTypeTCP :: byte where "hy2StreamTypeTCP = 0x01"

datatype 's hy2_outcome = Hy2Closed 's | Hy2Relay 's conn

definition hy2HandleTCP :: "(string \<Rightarrow> go_error + conn) \<Rightarrow> 's reader \<Rightarrow> 's writer \<Rightarrow> 's \<Rightarrow> 's hy2_outcome option" where
  "hy2HandleTCP dial rd wr s =
     Option.bind (hy2ReadStr rd s) (\<lambda>(addr, s).
       case addr of
         Inl err \<Rightarrow> Some (Hy2Closed s)
       | Inr addr \<Rightarrow>
           Option.bind (go_read rd id 4 s) (\<lambda>(reqID, s).
             case reqID of
               Inl err \<Rightarrow> Some (Hy2Closed s)
             | Inr reqID \<Rightarrow>
                 (case dial addr of
                    Inl err \<Rightarrow>
                      (case wr (hy2AppendStr [0x00] (err_text err)) s of (n, e, s) \<Rightarrow> Some (Hy2Closed s))
                  | Inr target \<Rightarrow>
                      (case wr (hy2AppendStr [0x01] '''') s of
                         (n, Some e, s) \<Rightarrow> Some (Hy2Closed s)
                       | (n, None, s) \<Rightarrow> Some (Hy2Relay s target)))))"

definition hy2HandleStream :: "(string \<Rightarrow> go_error + conn) \<Rightarrow> 's reader \<Rightarrow> 's writer \<Rightarrow> 's \<Rightarrow> 's hy2_outcome option" where
  "hy2HandleStream dial rd wr s =
     Option.bind (go_read rd id 1 s) (\<lambda>(typeBuf, s).
       case typeBuf of
         Inl err \<Rightarrow> Some (Hy2Closed s)
       | Inr typeBuf \<Rightarrow>
           Option.bind (go_index typeBuf 0) (\<lambda>ty.
             if ty = hy2StreamTypeTCP then hy2HandleTCP dial rd wr s else Some (Hy2Closed s)))"

section \<open>A connection\<close>

text \<open>
  What \<^verbatim>\<open>AcceptStream\<close> has returned so far on a connection, call after call: a stream or an error. The loop
  starts a goroutine for each stream and returns at the first error; at the end of the list it is
  waiting in the next call. The result is what becomes of the streams, and whether the loop has returned.
\<close>

type_synonym 's accept_results = "(go_error + 's) list"

fun accept_streams ::
  "(string \<Rightarrow> go_error + conn) \<Rightarrow> 's reader \<Rightarrow> 's writer \<Rightarrow> 's accept_results \<Rightarrow> 's hy2_outcome option list \<times> bool"
  where
  "accept_streams dial rd wr [] = ([], False)"
| "accept_streams dial rd wr (Inl err # as) = ([], True)"
| "accept_streams dial rd wr (Inr stream # as) =
     (case accept_streams dial rd wr as of (started, returned) \<Rightarrow> (hy2HandleStream dial rd wr stream # started, returned))"

text \<open>
  \<^verbatim>\<open>hy2HandleConn\<close> after these results: the authentication stream as it was closed, what became of the streams
  after it (each is handled by a goroutine of its own), and the codes the connection was closed with: none as
  long as the function has not returned, for its deferred call closes the connection last.
\<close>

record 's hy2_result =
  h_auth :: "'s option"
  h_streams :: "'s hy2_outcome option list"
  h_close :: "(nat \<times> string) list"

definition hy2HandleConn ::
  "(string \<Rightarrow> go_error + conn) \<Rightarrow> 's reader \<Rightarrow> 's writer \<Rightarrow> ('s \<Rightarrow> 's) \<Rightarrow> string \<Rightarrow> 's accept_results \<Rightarrow> 's hy2_result option"
  where
  "hy2HandleConn dial rd wr cl password accepted =
     (case accepted of
        [] \<Rightarrow> Some \<lparr>h_auth = None, h_streams = [], h_close = []\<rparr>
      | Inl err # rest \<Rightarrow> Some \<lparr>h_auth = None, h_streams = [], h_close = [(0, ''done'')]\<rparr>
      | Inr authStream # rest \<Rightarrow>
          Option.bind (hy2HandleAuth rd wr password authStream) (\<lambda>(authed, authStream).
            case authed of
              Inl err \<Rightarrow>
                Some \<lparr>h_auth = Some (cl authStream), h_streams = [], h_close = [(1, ''auth error''), (0, ''done'')]\<rparr>
            | Inr ok \<Rightarrow>
                if \<not> ok
                then Some \<lparr>h_auth = Some (cl authStream), h_streams = [],
                           h_close = [(1, ''auth failed''), (0, ''done'')]\<rparr>
                else (case accept_streams dial rd wr rest of
                        (started, returned) \<Rightarrow>
                          Some \<lparr>h_auth = Some (cl authStream), h_streams = started,
                                h_close = (if returned then [(0, ''done'')] else [])\<rparr>)))"

text \<open>The streams the loop starts a goroutine for are those accepted before the first error.\<close>

definition accepted_streams :: "'s accept_results \<Rightarrow> 's list" where
  "accepted_streams as = map projr (takeWhile (\<lambda>a. \<not> isl a) as)"

lemma accept_streams_eq:
  "accept_streams dial rd wr as =
     (map (hy2HandleStream dial rd wr) (accepted_streams as), \<exists>e. Inl e \<in> set as)"
  by (induction dial rd wr as rule: accept_streams.induct) (auto simp add: accepted_streams_def)

lemma accepted_streams_mem: "t \<in> set (accepted_streams as) \<Longrightarrow> Inr t \<in> set as"
  unfolding accepted_streams_def
  by (induction as) (auto split: if_splits simp add: isl_def)

section \<open>The streams over an arbitrary two-way stream\<close>

text \<open>A length of 65536 or more wraps around in the two bytes it is written to.\<close>

definition wire_len :: "string \<Rightarrow> nat" where
  "wire_len s = length s mod 65536"

lemma wire_len_small [simp]: "length s < 65536 \<Longrightarrow> wire_len s = length s"
  by (simp add: wire_len_def)

lemma length_hy2AppendStr [simp]: "length (hy2AppendStr b s) = length b + 2 + length s"
  by (simp add: hy2AppendStr_def)

context duplex
begin

lemma read_str:
  assumes "ok s" "content s = hy2AppendStr [] str @ rest"
  shows "hy2ReadStr rd s = Some (Inr (take (wire_len str) str), skip (2 + wire_len str) s)"
    and "content (skip (2 + wire_len str) s) = bytes_of_string (drop (wire_len str) str) @ rest"
proof -
  let ?n = "wire_len str"
  have c: "content s = put_uint16 (to_uint16 (length str)) @ bytes_of_string str @ rest"
    using assms(2) by (simp add: hy2AppendStr_def)
  have le: "?n \<le> length str" by (simp add: wire_len_def)
  have len: "go_read rd id 2 s = Some (Inr (put_uint16 (to_uint16 (length str))), skip 2 s)"
    using assms(1) c by (simp add: go_read_enough)
  have ok2: "ok (skip 2 s)" "content (skip 2 s) = bytes_of_string str @ rest"
    using assms(1) c by (simp_all add: ok_skip content_skip)
  have data: "go_read rd id ?n (skip 2 s) = Some (Inr (bytes_of_string (take ?n str)), skip (2 + ?n) s)"
    using ok2 le assms(1) by (simp add: go_read_enough skip_skip take_bytes_of_string)
  show "hy2ReadStr rd s = Some (Inr (take ?n str), skip (2 + ?n) s)"
    using data by (cases "?n = 0") (simp_all add: hy2ReadStr_def go_bind_def len wire_len_def)
  show "content (skip (2 + ?n) s) = bytes_of_string (drop ?n str) @ rest"
  proof -
    have "content (skip (2 + ?n) s) = drop ?n (drop 2 (content s))"
      using assms(1) by (simp add: content_skip add.commute)
    also have "drop 2 (content s) = bytes_of_string str @ rest" using ok2(2) assms(1) by (simp add: content_skip)
    finally show ?thesis using le by (simp add: drop_bytes_of_string)
  qed
qed

lemma yields_str: "yields ok (\<lambda>_. True) (hy2ReadStr rd)"
  unfolding hy2ReadStr_def Let_def
  by (auto intro!: yields_bind [OF yields_read] yields_return)

lemma handle_auth:
  assumes "ok s" "acc s" "content s = hy2AppendStr [] auth @ bps @ rest" "length auth < 65536" "length bps = 8"
  shows "\<exists>s'. hy2HandleAuth rd wr password s = Some (Inr (auth = password), s')
    \<and> ok s' \<and> acc s' \<and> content s' = rest \<and> sent s' = sent s @ auth_response (auth = password)"
proof -
  note str = read_str [OF assms(1,3)]
  let ?s = "skip (2 + length auth) s" and ?t = "skip (2 + length auth + 8) s"
  have s: "ok ?s" "content ?s = bps @ rest" using str(2) assms(1,4) by (simp_all add: skip_facts)
  have t: "ok ?t" "acc ?t" "sent ?t = sent s" using assms(1,2) by (simp_all add: skip_facts)
  have "drop 8 (content ?s) = rest" using s(2) assms(5) by simp
  then have ct: "content ?t = rest" using assms(1) by (simp add: content_skip add.commute)
  have bps: "go_read rd (ErrWrap ''read rx'') 8 ?s = Some (Inr bps, ?t)"
    using s assms(1,5) by (simp add: go_read_enough skip_facts(6))
  obtain s' where "go_send wr (auth_response (auth = password)) ?t = Some (Inr (), s')" "acc s'" "ok s'"
    "sent s' = sent ?t @ auth_response (auth = password)" "content s' = content ?t"
    using go_write_accepted [OF t(2,1)] by blast
  then show ?thesis
    using str(1) assms(4) bps t(3) ct by (simp add: hy2HandleAuth_def go_bind_def)
qed

lemma handle_tcp:
  assumes "ok s" "acc s" "content s = hy2AppendStr [] addr @ req @ rest" "length addr < 65536" "length req = 4"
  shows "\<exists>s'. ok s' \<and> acc s' \<and> content s' = rest \<and> final s' = final s
    \<and> sent s' = sent s @ (case dial addr of Inl err \<Rightarrow> hy2AppendStr [0] (err_text err) | Inr t \<Rightarrow> hy2AppendStr [1] '''')
    \<and> hy2HandleTCP dial rd wr s =
        Some (case dial addr of Inl err \<Rightarrow> Hy2Closed s' | Inr target \<Rightarrow> Hy2Relay s' target)"
proof -
  note str = read_str [OF assms(1,3)]
  let ?s = "skip (2 + length addr) s" and ?t = "skip (2 + length addr + 4) s"
  have s: "ok ?s" "content ?s = req @ rest" using str(2) assms(1,4) by (simp_all add: skip_facts)
  have t: "ok ?t" "acc ?t" "sent ?t = sent s" "final ?t = final s" using assms(1,2) by (simp_all add: skip_facts)
  have "drop 4 (content ?s) = rest" using s(2) assms(5) by simp
  then have ct: "content ?t = rest" using assms(1) by (simp add: content_skip add.commute)
  have req: "go_read rd id 4 ?s = Some (Inr req, ?t)"
    using s assms(1,5) by (simp add: go_read_enough skip_facts(6))
  let ?resp = "case dial addr of Inl err \<Rightarrow> hy2AppendStr [0] (err_text err) | Inr t \<Rightarrow> hy2AppendStr [1] ''''"
  obtain s' where "wr ?resp ?t = (length ?resp, None, s')" "acc s'" "ok s'"
    "sent s' = sent ?t @ ?resp" "content s' = content ?t" "final s' = final ?t"
    using write_accepted [OF t(2,1)] by blast
  then show ?thesis
    using str(1) assms(4) req t(3,4) ct
    by (cases "dial addr") (simp_all add: hy2HandleTCP_def)
qed

lemma read_str_result: "ok s \<Longrightarrow> \<exists>r s'. hy2ReadStr rd s = Some (r, s') \<and> ok s'"
  using yieldsD [OF yields_str] by blast

lemma go_read_result:
  "ok s \<Longrightarrow> \<exists>r s'. go_read rd wrap n s = Some (r, s') \<and> ok s' \<and> (\<forall>bs. r = Inr bs \<longrightarrow> length bs = n)"
  using yieldsD [OF yields_read] by blast

text \<open>A handler returns, closing its stream, or comes to the relay of a stream and a dialled connection.\<close>

lemma handle_tcp_returns:
  assumes "ok s"
  shows "\<exists>s'. ok s' \<and> (hy2HandleTCP dial rd wr s = Some (Hy2Closed s')
    \<or> (\<exists>addr t. dial addr = Inr t \<and> hy2HandleTCP dial rd wr s = Some (Hy2Relay s' t)))"
proof -
  obtain a s1 where a: "hy2ReadStr rd s = Some (a, s1)" "ok s1" using read_str_result [OF assms] by blast
  obtain b s2 where b: "go_read rd id 4 s1 = Some (b, s2)" "ok s2" using go_read_result [OF a(2)] by blast
  show ?thesis
  proof (cases a)
    case (Inr addr)
    show ?thesis
    proof (cases b)
      case r: (Inr reqID)
      let ?resp = "case dial addr of Inl err \<Rightarrow> hy2AppendStr [0] (err_text err) | Inr t \<Rightarrow> hy2AppendStr [1] ''''"
      obtain n e s3 where w: "wr ?resp s2 = (n, e, s3)" by (cases "wr ?resp s2")
      with b(2) wr_source have ok3: "ok s3" by metis
      with a b r w Inr show ?thesis
        by (cases "dial addr"; cases e; intro exI [of _ s3]) (auto simp add: hy2HandleTCP_def)
    qed (use a b Inr in \<open>auto simp add: hy2HandleTCP_def\<close>)
  qed (use a in \<open>auto simp add: hy2HandleTCP_def\<close>)
qed

lemma handle_stream_returns:
  assumes "ok s"
  shows "\<exists>s'. ok s' \<and> (hy2HandleStream dial rd wr s = Some (Hy2Closed s')
    \<or> (\<exists>addr t. dial addr = Inr t \<and> hy2HandleStream dial rd wr s = Some (Hy2Relay s' t)))"
proof -
  obtain a s1 where a: "go_read rd id 1 s = Some (a, s1)" "ok s1" "\<forall>bs. a = Inr bs \<longrightarrow> length bs = 1"
    using go_read_result [OF assms] by blast
  show ?thesis
  proof (cases a)
    case (Inr bs)
    with a(3) have i: "go_index bs 0 = Some (bs ! 0)" by simp
    from handle_tcp_returns [OF a(2), of dial] show ?thesis
      using a(1,2) i Inr by (cases "bs ! 0 = hy2StreamTypeTCP") (auto simp add: hy2HandleStream_def)
  qed (use a in \<open>auto simp add: hy2HandleStream_def\<close>)
qed

lemma handle_auth_returns:
  assumes "ok s"
  shows "\<exists>r s'. hy2HandleAuth rd wr password s = Some (r, s') \<and> ok s'"
proof -
  obtain a s1 where a: "hy2ReadStr rd s = Some (a, s1)" "ok s1" using read_str_result [OF assms] by blast
  have "yields ok (\<lambda>_. True) (go_bind (go_read rd (ErrWrap ''read rx'') 8) (\<lambda>rxBuf.
      go_bind (go_send wr (auth_response x)) (\<lambda>_. go_return x)))" for x
    by (intro yields_bind [OF yields_read] yields_bind [OF yields_write(2)] yields_return) simp
  from yieldsD [OF this a(2)] have "\<exists>r s'. go_bind (go_read rd (ErrWrap ''read rx'') 8) (\<lambda>rxBuf.
      go_bind (go_send wr (auth_response x)) (\<lambda>_. go_return x)) s1 = Some (r, s') \<and> ok s'" for x
    by blast
  with a show ?thesis by (cases a) (simp_all add: hy2HandleAuth_def)
qed

text \<open>Authentication succeeds only if the stream starts with the password, length-prefixed.\<close>

lemma read_str_parses:
  assumes "ok s" "hy2ReadStr rd s = Some (Inr str, s')"
  shows "\<exists>rest. content s = hy2AppendStr [] str @ rest \<and> length str < 65536"
proof -
  have two: "2 \<le> length (content s)"
  proof (rule ccontr)
    assume "\<not> 2 \<le> length (content s)"
    then have "length (content s) < 2" by simp
    from go_read_short [OF assms(1) this] assms(2) show False by (simp add: hy2ReadStr_def go_bind_def)
  qed
  let ?l = "take 2 (content s)" and ?d = "drop 2 (content s)"
  let ?n = "unat (be_uint16 ?l)"
  have len: "go_read rd id 2 s = Some (Inr ?l, skip 2 s)" using two assms(1) by (simp add: go_read_enough)
  have s2: "ok (skip 2 s)" "content (skip 2 s) = ?d" using assms(1) by (simp_all add: skip_facts)
  have le: "?n \<le> length ?d"
  proof (rule ccontr)
    assume "\<not> ?n \<le> length ?d"
    then have "length (content (skip 2 s)) < ?n" "?n \<noteq> 0" using s2(2) by simp_all
    from go_read_short [OF s2(1) this(1)] this(2) len assms(2) show False
      by (simp add: hy2ReadStr_def go_bind_def)
  qed
  have str: "str = string_of_bytes (take ?n ?d)"
    using assms(2) len le s2 go_read_enough [OF s2(1), of ?n id]
    by (cases "?n = 0") (auto simp add: hy2ReadStr_def go_bind_def string_of_bytes_def)
  then have n: "length str = ?n" using le by simp
  have "length ?l = Suc (Suc 0)" using two by simp
  then obtain a b where ab: "?l = [a, b]" by (auto simp add: length_Suc_conv simp del: length_take)
  have prefix_bytes: "put_uint16 (to_uint16 (length str)) = ?l"
    unfolding n ab by (simp add: to_uint16_def put_be_uint16)
  have "bytes_of_string str = take ?n ?d" by (simp only: str bytes_of_string_of_bytes)
  then have "hy2AppendStr [] str @ drop ?n ?d = ?l @ ?d"
    by (simp only: hy2AppendStr_def prefix_bytes append_Nil append_assoc append_take_drop_id)
  then have "content s = hy2AppendStr [] str @ drop ?n ?d" by simp
  moreover have "length str < 65536" using n unsigned_less [of "be_uint16 ?l"] by simp
  ultimately show ?thesis by blast
qed

lemma handle_auth_only:
  assumes "ok s" "hy2HandleAuth rd wr password s = Some (Inr True, s')"
  shows "\<exists>rest. content s = hy2AppendStr [] password @ rest \<and> 8 \<le> length rest"
proof -
  obtain a s1 where a: "hy2ReadStr rd s = Some (a, s1)" "ok s1" using read_str_result [OF assms(1)] by blast
  then obtain auth where auth: "a = Inr auth" using assms(2) by (cases a) (simp_all add: hy2HandleAuth_def)
  obtain rest where rest: "content s = hy2AppendStr [] auth @ rest" "length auth < 65536"
    using read_str_parses [OF assms(1)] a(1) auth by blast
  from read_str [OF assms(1) rest(1)] a(1) auth rest(2) have s1: "content s1 = rest"
    by simp
  have "8 \<le> length rest"
  proof (rule ccontr)
    assume "\<not> 8 \<le> length rest"
    then have "length (content s1) < 8" using s1 by simp
    from go_read_short [OF a(2) this] assms(2) a(1) auth show False
      by (simp add: hy2HandleAuth_def go_bind_def)
  qed
  then obtain bps more where "rest = bps @ more" "length bps = 8"
    by (metis append_take_drop_id length_take min.absorb2)
  obtain b s2 where r: "go_read rd (ErrWrap ''read rx'') 8 s1 = Some (Inr b, s2)"
    using go_read_enough [OF a(2), of 8] s1 \<open>8 \<le> length rest\<close> by auto
  have "auth = password"
    using assms(2) a(1) auth r by (auto simp add: hy2HandleAuth_def go_bind_def go_send_def split: prod.splits)
  with rest(1) \<open>8 \<le> length rest\<close> show ?thesis by blast
qed

end

text \<open>What happens on a connection, by what its first stream carried.\<close>

lemma handled_after_auth:
  assumes "duplex rd content final skip ok wr sent acc" "\<forall>t. Inr t \<in> set accepted \<longrightarrow> ok t"
    and "hy2HandleConn dial rd wr cl password accepted = Some r" "h_streams r \<noteq> []"
  shows "\<exists>a rest more. accepted = Inr a # rest \<and> content a = hy2AppendStr [] password @ more \<and> 8 \<le> length more
    \<and> h_streams r = map (hy2HandleStream dial rd wr) (accepted_streams rest)"
proof -
  obtain a rest where st: "accepted = Inr a # rest"
    using assms(3,4) by (auto simp add: hy2HandleConn_def split: list.splits sum.splits)
  then have ok: "ok a" using assms(2) by simp
  obtain x s' where auth: "hy2HandleAuth rd wr password a = Some (x, s')"
    using duplex.handle_auth_returns [OF assms(1) ok] by blast
  have x: "x = Inr True" and streams: "h_streams r = map (hy2HandleStream dial rd wr) (accepted_streams rest)"
    using assms(3,4) by (auto simp add: hy2HandleConn_def st auth accept_streams_eq split: sum.splits if_splits)
  from duplex.handle_auth_only [OF assms(1) ok] auth x st streams show ?thesis by blast
qed

lemma handle_conn_returns:
  assumes "duplex rd content final skip ok wr sent acc" "\<forall>t. Inr t \<in> set accepted \<longrightarrow> ok t"
  shows "\<exists>r. hy2HandleConn dial rd wr cl password accepted = Some r
    \<and> (\<exists>as. set (h_streams r) = hy2HandleStream dial rd wr ` as \<and> (\<forall>t \<in> as. ok t))
    \<and> (h_close r = [] \<longrightarrow> (\<forall>e. Inl e \<notin> set accepted))
    \<and> (h_close r \<noteq> [] \<longrightarrow> last (h_close r) = (0, ''done'')
        \<and> ((\<exists>e. Inl e \<in> set accepted) \<or> h_streams r = [] \<and> fst (hd (h_close r)) = 1))"
proof (cases accepted)
  case Nil
  then show ?thesis by (simp add: hy2HandleConn_def)
next
  case (Cons x rest)
  show ?thesis
  proof (cases x)
    case (Inl e)
    with Cons show ?thesis by (auto simp add: hy2HandleConn_def)
  next
    case (Inr a)
    obtain y s' where auth: "hy2HandleAuth rd wr password a = Some (y, s')"
      using duplex.handle_auth_returns [OF assms(1)] assms(2) Cons Inr by fastforce
    have "\<forall>t \<in> set (accepted_streams rest). ok t" using assms(2) Cons accepted_streams_mem by fastforce
    then have "\<exists>as. set (map (hy2HandleStream dial rd wr) (accepted_streams rest)) = hy2HandleStream dial rd wr ` as
        \<and> (\<forall>t \<in> as. ok t)"
      by (intro exI [of _ "set (accepted_streams rest)"]) simp
    with auth Cons Inr show ?thesis
      by (cases y) (auto simp add: hy2HandleConn_def accept_streams_eq)
  qed
qed

section \<open>Properties\<close>

text \<open>The string codec: what \<open>hy2AppendStr\<close> wrote is read back, and nothing after it is consumed. A
  string of 65536 bytes or more does not survive: its length wraps around, the reader gets the first
  \<open>length mod 65536\<close> bytes, and takes the remainder for what follows the string.\<close>

theorem hy2_str_roundtrip:
  assumes "duplex rd content final skip ok wr sent acc" "ok s" "content s = hy2AppendStr [] str @ rest"
  shows "\<exists>s'. hy2ReadStr rd s = Some (Inr (take (length str mod 65536) str), s')
    \<and> content s' = bytes_of_string (drop (length str mod 65536) str) @ rest"
  using duplex.read_str [OF assms] by (simp add: wire_len_def)

theorem hy2_str_roundtrip_witness:
  "\<exists>s'. hy2ReadStr conn_read (new_conn [hy2AppendStr [] ''host:1'' @ [7, 8]] EOF) = Some (Inr ''host:1'', s')
    \<and> conn_content s' = [7, 8]"
proof -
  let ?c = "new_conn [hy2AppendStr [] ''host:1'' @ [7, 8]] EOF"
  have "conn_ok ?c" "conn_content ?c = hy2AppendStr [] ''host:1'' @ [7, 8]"
    by (simp_all add: new_conn_def conn_ok_def conn_content_def)
  from hy2_str_roundtrip [OF conn_duplex.duplex_axioms, OF this] show ?thesis
    by (simp add: bytes_of_string_def)
qed

text \<open>Authentication decides by equality of the presented string with the password and always answers: 01
  and an empty message, or 00 and \<^verbatim>\<open>auth failed\<close>; the eight bytes after the string are ignored.\<close>

theorem hy2_auth_decides:
  assumes "duplex rd content final skip ok wr sent acc" "ok s" "acc s"
    and "content s = hy2AppendStr [] auth @ bps @ rest" "length auth < 65536" "length bps = 8"
  shows "\<exists>s'. hy2HandleAuth rd wr password s = Some (Inr (auth = password), s') \<and> content s' = rest
    \<and> sent s' = sent s @ (if auth = password then [1] else [0]) @ replicate 8 0
        @ hy2AppendStr [] (if auth = password then '''' else ''auth failed'')"
proof -
  have z: "put_uint64 0 = replicate 8 0" by code_simp
  have "auth_response x = (if x then [1] else [0]) @ replicate 8 0 @ hy2AppendStr [] (if x then '''' else ''auth failed'')" for x
    by (simp add: auth_response_def hy2AppendStr_def z)
  with duplex.handle_auth [OF assms] show ?thesis by metis
qed

definition example_auth :: "string \<Rightarrow> conn" where
  "example_auth pw = new_conn [hy2AppendStr [] pw @ replicate 8 0] EOF"

lemma example_auth_facts:
  "conn_ok (example_auth pw)" "open_writer (example_auth pw)" "tx (example_auth pw) = []"
  "conn_content (example_auth pw) = hy2AppendStr [] pw @ replicate 8 0 @ []"
  by (simp_all add: example_auth_def new_conn_def conn_ok_def open_writer_def conn_content_def hy2AppendStr_def
      put_uint16_def)

theorem hy2_auth_decides_witness:
  "\<exists>s'. hy2HandleAuth conn_read conn_write ''secret'' (example_auth ''guess'') = Some (Inr False, s')
    \<and> tx s' = [0] @ replicate 8 0 @ hy2AppendStr [] ''auth failed''"
  using hy2_auth_decides [OF conn_duplex.duplex_axioms, OF example_auth_facts(1,2,4), of "''guess''" "''secret''"]
    example_auth_facts(3) [of "''guess''"] by auto

text \<open>C8. No proxy stream is looked at before authentication: if anything became of any stream after the
  first, then the first stream carried exactly the password, length-prefixed, followed by eight bytes.\<close>

theorem hy2_no_stream_before_auth:
  assumes "duplex rd content final skip ok wr sent acc" "\<forall>t. Inr t \<in> set accepted \<longrightarrow> ok t"
    and "hy2HandleConn dial rd wr cl password accepted = Some r" "h_streams r \<noteq> []"
  shows "\<exists>a rest more. accepted = Inr a # rest \<and> content a = hy2AppendStr [] password @ more \<and> 8 \<le> length more
    \<and> h_streams r = map (hy2HandleStream dial rd wr) (accepted_streams rest)"
  by (rule handled_after_auth [OF assms])

theorem hy2_no_stream_before_auth_witness:
  "\<exists>r. hy2HandleConn (\<lambda>_. Inl EOF) conn_read conn_write conn_close_write ''pw''
      [Inr (example_auth ''pw''), Inr (new_conn [] EOF)] = Some r
    \<and> h_streams r \<noteq> [] \<and> (\<exists>more. conn_content (example_auth ''pw'') = hy2AppendStr [] ''pw'' @ more)"
proof -
  obtain s' where "hy2HandleAuth conn_read conn_write ''pw'' (example_auth ''pw'') = Some (Inr True, s')"
    using conn_duplex.handle_auth [OF example_auth_facts(1,2,4), of "''pw''" "''pw''"] by auto
  then obtain r where r: "hy2HandleConn (\<lambda>_. Inl EOF) conn_read conn_write conn_close_write ''pw''
      [Inr (example_auth ''pw''), Inr (new_conn [] EOF)] = Some r" "h_streams r \<noteq> []"
    by (auto simp add: hy2HandleConn_def)
  have ok: "\<forall>t. Inr t \<in> set [Inr (example_auth ''pw''), Inr (new_conn [] EOF)] \<longrightarrow> conn_ok t"
    using example_auth_facts(1) by (auto simp add: new_conn_def conn_ok_def)
  from hy2_no_stream_before_auth [OF conn_duplex.duplex_axioms, OF ok r] r show ?thesis by auto
qed

text \<open>C40. A proxy stream of type 1 with an address of fewer than 65536 bytes: exactly that address is dialled;
  on success the answer is 01 and an empty message and the relay starts with nothing of the client's data
  consumed; on failure the answer is 00 and the text of the error, and the stream is closed. Another type is
  closed without an answer.\<close>

theorem hy2_stream_outcome:
  assumes "duplex rd content final skip ok wr sent acc" "ok s" "acc s"
    and "content s = [ty] @ hy2AppendStr [] addr @ req @ rest" "length addr < 65536" "length req = 4"
  shows "if ty = 1
    then \<exists>s'. content s' = rest
      \<and> (case dial addr of
           Inl err \<Rightarrow> hy2HandleStream dial rd wr s = Some (Hy2Closed s')
             \<and> sent s' = sent s @ [0] @ hy2AppendStr [] (err_text err)
         | Inr target \<Rightarrow> hy2HandleStream dial rd wr s = Some (Hy2Relay s' target)
             \<and> sent s' = sent s @ [1, 0, 0])
    else \<exists>s'. hy2HandleStream dial rd wr s = Some (Hy2Closed s') \<and> sent s' = sent s"
proof -
  have "1 \<le> length (content s)" using assms(4) by simp
  note one = exact_source.go_read_enough [OF duplex.axioms(1) [OF assms(1)] assms(2) this, of id]
  note f = duplex.skip_facts [OF assms(1,2), of 1]
  have c: "content (skip 1 s) = hy2AppendStr [] addr @ req @ rest" using f(2) assms(4) by simp
  have a: "acc (skip 1 s)" using f(5) assms(3) by simp
  have z: "put_uint16 (to_uint16 0) = [0, 0]" by code_simp
  from duplex.handle_tcp [OF assms(1) f(1) a c assms(5,6), of dial] obtain s' where
    "content s' = rest" "hy2HandleTCP dial rd wr (skip 1 s) =
      Some (case dial addr of Inl err \<Rightarrow> Hy2Closed s' | Inr target \<Rightarrow> Hy2Relay s' target)"
    "sent s' = sent (skip 1 s) @ (case dial addr of Inl err \<Rightarrow> hy2AppendStr [0] (err_text err) | Inr t \<Rightarrow> hy2AppendStr [1] '''')"
    by blast
  then show ?thesis
    using one f(4) assms(4) by (auto simp add: hy2HandleStream_def hy2StreamTypeTCP_def hy2AppendStr_def z split: sum.splits)
qed

theorem hy2_stream_outcome_witness:
  "\<exists>s'. conn_content s' = [42]
    \<and> hy2HandleStream (\<lambda>a. if a = ''h:80'' then Inr (new_conn [] EOF) else Inl EOF) conn_read conn_write
        (new_conn [[1] @ hy2AppendStr [] ''h:80'' @ [0, 0, 0, 0] @ [42]] EOF) = Some (Hy2Relay s' (new_conn [] EOF))
    \<and> tx s' = [1, 0, 0]"
proof -
  let ?c = "new_conn [[1] @ hy2AppendStr [] ''h:80'' @ [0, 0, 0, 0] @ [42]] EOF"
  have c: "conn_ok ?c" "open_writer ?c" "conn_content ?c = [1] @ hy2AppendStr [] ''h:80'' @ [0, 0, 0, 0] @ [42]" "tx ?c = []"
    by (simp_all add: new_conn_def conn_ok_def open_writer_def conn_content_def)
  from hy2_stream_outcome [OF conn_duplex.duplex_axioms, OF c(1,2,3),
      of "\<lambda>a. if a = ''h:80'' then Inr (new_conn [] EOF) else Inl EOF"] c(4)
  show ?thesis by simp
qed

end
