(* ===== verification/Hy2Client.thy ===== *)
theory Hy2Client
  imports Socks5 Hysteria2 Config
begin

text \<open>
  \<^verbatim>\<open>android/go/hysteria2.go\<close>: the client side of the Hysteria2 protocol and the local SOCKS5 server in front
  of it. As in theory \<open>Hysteria2\<close>, a QUIC stream is any state with a reader, a writer and a closing
  function; \<open>opened\<close> is the result of \<^verbatim>\<open>OpenStreamSync\<close>. The last section is the life cycle of the client:
  start, stop and the goroutine that listens.
\<close>

section \<open>Authentication\<close>

definition auth_request :: "string \<Rightarrow> byte list" where
  "auth_request password =
     put_uint16 (to_uint16 (length password)) @ bytes_of_string password @ put_uint64 0"

definition auth_exchange :: "'s reader \<Rightarrow> 's writer \<Rightarrow> string \<Rightarrow> ('s, unit) go" where
  "auth_exchange rd wr password =
     go_bind (go_write wr (ErrWrap ''write auth'') (auth_request password)) (\<lambda>_.
     go_bind (go_read rd (ErrWrap ''read auth response'') (1 + 8 + 2)) (\<lambda>header.
     go_bind (go_at header 0) (\<lambda>ok.
     go_bind (go_cut header 9 11) (\<lambda>len.
     let msgLen = unat (be_uint16 len)
     in go_bind (if 0 < msgLen
                 then go_bind (go_read rd (ErrWrap ''read auth message'') msgLen) (\<lambda>msg. go_return ())
                 else go_return ()) (\<lambda>_.
        if ok \<noteq> 1 then go_fail (ErrText (''server rejected auth (ok='' @ dec_byte ok @ '')''))
        else go_return ())))))"

definition sendAuth ::
  "'s reader \<Rightarrow> 's writer \<Rightarrow> ('s \<Rightarrow> 's) \<Rightarrow> string \<Rightarrow> go_error + 's \<Rightarrow> ((go_error + unit) \<times> 's option) option"
  where
  "sendAuth rd wr cl password opened =
     (case opened of
        Inl err \<Rightarrow> Some (Inl (ErrWrap ''open auth stream'' err), None)
      | Inr stream \<Rightarrow> map_option (\<lambda>(r, s). (r, Some (cl s))) (auth_exchange rd wr password stream))"

section \<open>Opening a proxied stream\<close>

definition tcp_request :: "string \<Rightarrow> byte list" where
  "tcp_request target =
     [0x01] @ put_uint16 (to_uint16 (length target)) @ bytes_of_string target @ put_uint32 0"

text \<open>Reading a message whose read error is ignored: what did not arrive stays zero.\<close>

definition read_message :: "'s reader \<Rightarrow> nat \<Rightarrow> ('s, byte list) go" where
  "read_message rd n s =
     map_option (\<lambda>(bs, e, s'). (Inr (bs @ replicate (n - length bs) 0), s')) (read_full rd n s)"

definition tcp_exchange :: "'s reader \<Rightarrow> 's writer \<Rightarrow> string \<Rightarrow> ('s, unit) go" where
  "tcp_exchange rd wr target =
     go_bind (go_write wr (ErrWrap ''write TCP request'') (tcp_request target)) (\<lambda>_.
     go_bind (go_read rd (ErrWrap ''read TCP response'') 3) (\<lambda>resp.
     go_bind (go_at resp 0) (\<lambda>ok.
     go_bind (go_cut resp 1 3) (\<lambda>len.
     let msgLen = unat (be_uint16 len)
     in if ok \<noteq> 1
        then go_bind (read_message rd msgLen) (\<lambda>msg.
               go_fail (ErrText (''server rejected TCP request: '' @ string_of_bytes msg)))
        else if 0 < msgLen then go_bind (read_message rd msgLen) (\<lambda>extra. go_return ())
        else go_return ()))))"

text \<open>Every error closes the stream.\<close>

definition openTcpStream ::
  "'s reader \<Rightarrow> 's writer \<Rightarrow> ('s \<Rightarrow> 's) \<Rightarrow> string \<Rightarrow> go_error + 's \<Rightarrow> ((go_error \<times> 's option) + 's) option"
  where
  "openTcpStream rd wr cl target opened =
     (case opened of
        Inl err \<Rightarrow> Some (Inl (ErrWrap ''open QUIC stream'' err, None))
      | Inr stream \<Rightarrow>
          map_option (\<lambda>(r, s). case r of Inl e \<Rightarrow> Inl (e, Some (cl s)) | Inr _ \<Rightarrow> Inr s)
            (tcp_exchange rd wr target stream))"

section \<open>The text of an IPv6 address\<close>

text \<open>
  \<^verbatim>\<open>net.IP.String\<close> for sixteen bytes: an IPv4-mapped address is printed as IPv4; otherwise eight groups in
  hexadecimal, where the first longest run of at least two zero groups becomes a double colon.
\<close>

fun hex_nat :: "nat \<Rightarrow> string" where
  "hex_nat n = (if n < 16 then [hex_char n] else hex_nat (n div 16) @ [hex_char (n mod 16)])"

declare hex_nat.simps [simp del]

fun ip_groups :: "byte list \<Rightarrow> nat list" where
  "ip_groups (a # b # bs) = (256 * unat a + unat b) # ip_groups bs"
| "ip_groups _ = []"

definition zero_run :: "nat list \<Rightarrow> nat \<Rightarrow> nat" where
  "zero_run gs i = length (takeWhile (\<lambda>g. g = 0) (drop i gs))"

definition best_run :: "nat list \<Rightarrow> (nat \<times> nat) option" where
  "best_run gs =
     fold (\<lambda>i best. let l = zero_run gs i
             in if 2 \<le> l \<and> (case best of None \<Rightarrow> True | Some (s, e) \<Rightarrow> e - s < l) then Some (i, i + l) else best)
       [0..<length gs] None"

definition ipv6_groups_string :: "nat list \<Rightarrow> string" where
  "ipv6_groups_string gs =
     (case best_run gs of
        None \<Rightarrow> join_with '':'' (map hex_nat gs)
      | Some (i, j) \<Rightarrow>
          join_with '':'' (map hex_nat (take i gs)) @ ''::'' @ join_with '':'' (map hex_nat (drop j gs)))"

definition ip_string :: "byte list \<Rightarrow> string" where
  "ip_string b =
     (if take 12 b = replicate 10 0 @ [0xFF, 0xFF] then ipv4_string (drop 12 b)
      else ipv6_groups_string (ip_groups b))"

section \<open>The local SOCKS5 server\<close>

text \<open>
  The negotiation up to the target. Most early returns of \<^verbatim>\<open>handleSocks5Client\<close> carry no error; they are
  failures here with the comment of the source as their text.
\<close>

definition read_target :: "byte \<Rightarrow> (conn, string) go" where
  "read_target atyp =
     (if atyp = 1 then
        go_bind (go_read conn_read id 4) (\<lambda>addr.
        go_bind (go_read conn_read id 2) (\<lambda>portBytes.
        go_bind (go_at addr 0) (\<lambda>a0.
        go_bind (go_at addr 1) (\<lambda>a1.
        go_bind (go_at addr 2) (\<lambda>a2.
        go_bind (go_at addr 3) (\<lambda>a3.
        go_return (dec_byte a0 @ ''.'' @ dec_byte a1 @ ''.'' @ dec_byte a2 @ ''.''
          @ dec_byte a3 @ '':'' @ dec (unat (be_uint16 portBytes)))))))))
      else if atyp = 3 then
        go_bind (go_read conn_read id 1) (\<lambda>lenBuf.
        go_bind (go_at lenBuf 0) (\<lambda>n.
        go_bind (go_read conn_read id (unat n)) (\<lambda>domain.
        go_bind (go_read conn_read id 2) (\<lambda>portBytes.
        go_return (string_of_bytes domain @ '':'' @ dec (unat (be_uint16 portBytes)))))))
      else if atyp = 4 then
        go_bind (go_read conn_read id 16) (\<lambda>addr.
        go_bind (go_read conn_read id 2) (\<lambda>portBytes.
        go_return (''['' @ ip_string addr @ '']:'' @ dec (unat (be_uint16 portBytes)))))
      else
        go_bind (go_send conn_write (reply 8)) (\<lambda>_. go_fail (ErrText ''address type not supported'')))"

definition client_negotiation :: "(conn, string) go" where
  "client_negotiation =
     go_bind (go_read conn_read id 2) (\<lambda>buf.
     go_bind (go_at buf 0) (\<lambda>ver.
     if ver \<noteq> 5 then go_fail (ErrText ''Not SOCKS5'')
     else
       go_bind (go_at buf 1) (\<lambda>nMethods.
       go_bind (go_read conn_read id (unat nMethods)) (\<lambda>methods.
       go_bind (go_write conn_write id [5, 0]) (\<lambda>_.
       go_bind (go_read conn_read id 4) (\<lambda>req.
       go_bind (go_at req 0) (\<lambda>ver.
       go_bind (go_at req 1) (\<lambda>cmd.
       if ver \<noteq> 5 \<or> cmd \<noteq> 1
       then go_bind (go_send conn_write (reply 7)) (\<lambda>_. go_fail (ErrText ''command not supported''))
       else go_bind (go_at req 3) read_target))))))))"

text \<open>Closed (with what became of the stream, if one was opened), or the two ends of a relay.\<close>

datatype 's client_outcome = ClientClosed conn "'s option" | ClientRelay conn 's

definition handleSocks5Client ::
  "'s reader \<Rightarrow> 's writer \<Rightarrow> ('s \<Rightarrow> 's) \<Rightarrow> go_error + 's \<Rightarrow> conn \<Rightarrow> 's client_outcome option" where
  "handleSocks5Client rd wr cl opened client =
     Option.bind (client_negotiation client) (\<lambda>(r, client).
       case r of
         Inl _ \<Rightarrow> Some (ClientClosed (conn_close client) None)
       | Inr target \<Rightarrow>
           Option.bind (openTcpStream rd wr cl target opened) (\<lambda>r.
             case r of
               Inl (err, st) \<Rightarrow>
                 (case conn_write (reply 4) client of (n, e, client) \<Rightarrow>
                    Some (ClientClosed (conn_close client) st))
             | Inr stream \<Rightarrow>
                 (case conn_write (reply 0) client of
                    (n, Some e, client) \<Rightarrow> Some (ClientClosed (conn_close client) (Some (cl stream)))
                  | (n, None, client) \<Rightarrow> Some (ClientRelay client stream))))"

section \<open>The exchanges\<close>

lemma auth_response_bytes:
  "auth_response True = [1] @ replicate 8 0 @ [0, 0]"
  "auth_response False = [0] @ replicate 8 0 @ [0, 11] @ bytes_of_string ''auth failed''"
  by code_simp+

lemma be_uint16_pair: "unat (be_uint16 [0, b]) = unat b"
  by (simp add: unat_be_uint16)

context duplex
begin

lemma go_read_prefix:
  assumes "ok s" "content s = bs @ rest" "length bs = n"
  shows "go_read rd wrap n s = Some (Inr bs, skip n s)"
    "content (skip n s) = rest" "ok (skip n s)" "acc (skip n s) = acc s"
    "sent (skip n s) = sent s" "final (skip n s) = final s"
  using assms by (simp_all add: go_read_enough skip_facts)

lemma auth_exchange_result:
  assumes "ok c" "acc c" "content c = auth_response b @ rest"
  shows "\<exists>c'. auth_exchange rd wr password c =
      Some (if b then Inr () else Inl (ErrText ''server rejected auth (ok=0)''), c')
    \<and> content c' = rest \<and> sent c' = sent c @ auth_request password"
proof -
  have d: "dec_byte 0 = ''0''" by code_simp
  obtain c1 where w: "go_write wr (ErrWrap ''write auth'') (auth_request password) c = Some (Inr (), c1)"
    "acc c1" "ok c1" "sent c1 = sent c @ auth_request password" "content c1 = auth_response b @ rest"
    using go_write_accepted [OF assms(2,1)] assms(3) by metis
  show ?thesis
  proof (cases b)
    case True
    let ?h = "[1] @ replicate 8 0 @ [0, 0 :: byte]"
    have "content c1 = ?h @ rest" using w(5) True by (simp only: auth_response_bytes append_assoc)
    from go_read_prefix [OF w(3) this, of 11] have
      h: "go_read rd (ErrWrap ''read auth response'') 11 c1 = Some (Inr ?h, skip 11 c1)"
        "content (skip 11 c1) = rest" "sent (skip 11 c1) = sent c1" by simp_all
    have "seg 9 11 ?h = [0, 0]" "?h ! 0 = 1" by (simp_all add: seg_def)
    then show ?thesis
      using True w(1,4) h by (simp add: auth_exchange_def go_bind_def be_uint16_pair)
  next
    case False
    let ?h = "[0] @ replicate 8 0 @ [0, 11 :: byte]" and ?m = "bytes_of_string ''auth failed''"
    have "content c1 = ?h @ ?m @ rest" using w(5) False by (simp only: auth_response_bytes append_assoc)
    from go_read_prefix [OF w(3) this, of 11] have
      h: "go_read rd (ErrWrap ''read auth response'') 11 c1 = Some (Inr ?h, skip 11 c1)"
        "content (skip 11 c1) = ?m @ rest" "ok (skip 11 c1)" "sent (skip 11 c1) = sent c1" by simp_all
    from go_read_prefix [OF h(3,2), of 11] have
      m: "go_read rd (ErrWrap ''read auth message'') 11 (skip 11 c1) = Some (Inr ?m, skip 11 (skip 11 c1))"
        "content (skip 11 (skip 11 c1)) = rest" "sent (skip 11 (skip 11 c1)) = sent c1"
      using h(4) by simp_all
    have "seg 9 11 ?h = [0, 11]" "?h ! 0 = 0" by (simp_all add: seg_def)
    then show ?thesis
      using False w(1,4) h(1) m by (simp add: auth_exchange_def go_bind_def be_uint16_pair d)
  qed
qed

lemma read_message_prefix:
  assumes "ok s" "content s = bs @ rest"
  shows "read_message rd (length bs) s = Some (Inr bs, skip (length bs) s)"
  using assms by (simp add: read_message_def read_full_enough)

lemma tcp_exchange_result:
  assumes "ok c" "acc c" "length msg < 65536"
    and "content c = hy2AppendStr [if b then 1 else 0] msg @ rest"
  shows "\<exists>c'. tcp_exchange rd wr target c =
      Some (if b then Inr () else Inl (ErrText (''server rejected TCP request: '' @ msg)), c')
    \<and> content c' = rest \<and> final c' = final c \<and> ok c' \<and> acc c' \<and> sent c' = sent c @ tcp_request target"
proof -
  obtain c1 where w: "go_write wr (ErrWrap ''write TCP request'') (tcp_request target) c = Some (Inr (), c1)"
    "acc c1" "ok c1" "sent c1 = sent c @ tcp_request target" "final c1 = final c"
    "content c1 = hy2AppendStr [if b then 1 else 0] msg @ rest"
    using go_write_accepted [OF assms(2,1)] assms(4) by metis
  let ?h = "[if b then 1 else 0] @ put_uint16 (to_uint16 (length msg))" and ?m = "bytes_of_string msg"
  have "content c1 = ?h @ ?m @ rest" using w(6) by (simp add: hy2AppendStr_def)
  from go_read_prefix [OF w(3) this, of 3] have
    h: "go_read rd (ErrWrap ''read TCP response'') 3 c1 = Some (Inr ?h, skip 3 c1)"
      "content (skip 3 c1) = ?m @ rest" "ok (skip 3 c1)" "acc (skip 3 c1)" "sent (skip 3 c1) = sent c1"
      "final (skip 3 c1) = final c1" using w(2) by simp_all
  from read_message_prefix [OF h(3,2)] go_read_prefix [OF h(3,2), of "length msg"] have
    m: "read_message rd (length msg) (skip 3 c1) = Some (Inr ?m, skip (length msg) (skip 3 c1))"
      "content (skip (length msg) (skip 3 c1)) = rest" "ok (skip (length msg) (skip 3 c1))"
      "acc (skip (length msg) (skip 3 c1))" "sent (skip (length msg) (skip 3 c1)) = sent c1"
      "final (skip (length msg) (skip 3 c1)) = final c1"
    using h(4,5,6) by simp_all
  have n: "unat (be_uint16 (seg 1 3 ?h)) = length msg" using assms(3) by (simp add: seg_def)
  show ?thesis
  proof (cases "b \<and> msg = ''''")
    case True
    with w(1,4,5) h n show ?thesis
      by (simp add: tcp_exchange_def go_bind_def)
  next
    case False
    with w(1,4,5) h(1) m n show ?thesis
      by (simp add: tcp_exchange_def go_bind_def)
  qed
qed

end

section \<open>A local application's request\<close>

datatype local_addr = LocalIPv4 "byte list" | LocalName string | LocalIPv6 "byte list"

definition local_ok :: "local_addr \<Rightarrow> bool" where
  "local_ok a = (case a of LocalIPv4 b \<Rightarrow> length b = 4 | LocalName d \<Rightarrow> length d < 256 | LocalIPv6 b \<Rightarrow> length b = 16)"

definition encode_local :: "local_addr \<Rightarrow> byte list" where
  "encode_local a =
     (case a of LocalIPv4 b \<Rightarrow> 1 # b | LocalName d \<Rightarrow> 3 # of_nat (length d) # bytes_of_string d | LocalIPv6 b \<Rightarrow> 4 # b)"

definition local_target :: "local_addr \<Rightarrow> uint16 \<Rightarrow> string" where
  "local_target a port =
     (case a of LocalIPv4 b \<Rightarrow> ipv4_string b | LocalName d \<Rightarrow> d | LocalIPv6 b \<Rightarrow> ''['' @ ip_string b @ '']'')
     @ '':'' @ dec (unat port)"

lemma ipv4_string_four: "ipv4_string [a, b, c, d] =
    dec_byte a @ ''.'' @ dec_byte b @ ''.'' @ dec_byte c @ ''.'' @ dec_byte d"
  by (simp add: ipv4_string_def)

lemma length_four: "length b = 4 \<Longrightarrow> \<exists>w x y z. b = [w, x, y, z]"
  by (auto simp add: numeral_eq_Suc length_Suc_conv)

text \<open>The facts about a socket after a prefix of its content was read, with what is kept of it.\<close>

lemma conn_after_prefix:
  assumes "conn_ok c" "open_writer c" "conn_content c = bs @ rest" "length bs = n"
  shows "go_read conn_read wrap n c = Some (Inr bs, conn_skip n c)"
    and "conn_ok (conn_skip n c) \<and> open_writer (conn_skip n c) \<and> conn_content (conn_skip n c) = rest
      \<and> tx (conn_skip n c) = tx c"
  using conn_duplex.go_read_prefix [OF assms(1,3,4)] assms(2) by simp_all

lemma read_target_done:
  assumes "conn_ok c" "open_writer c" "local_ok a"
    and "hd (encode_local a) # conn_content c = encode_local a @ put_uint16 port @ rest"
  shows "\<exists>c'. read_target (hd (encode_local a)) c = Some (Inr (local_target a port), c')
    \<and> conn_ok c' \<and> open_writer c' \<and> conn_content c' = rest \<and> tx c' = tx c"
proof (cases a)
  case (LocalIPv4 b)
  then have "length b = 4" using assms(3) by (simp add: local_ok_def)
  then obtain w x y z where b: "b = [w, x, y, z]" using length_four by blast
  have "conn_content c = b @ put_uint16 port @ rest" "length b = 4"
    using assms(4) LocalIPv4 b by (simp_all add: encode_local_def)
  note r1 = conn_after_prefix [OF assms(1,2) this]
  note r2 = conn_after_prefix [of "conn_skip 4 c" "put_uint16 port" rest 2]
  show ?thesis
    using r1 r2 LocalIPv4 b
    by (simp add: read_target_def encode_local_def local_target_def go_bind_def ipv4_string_four)
next
  case (LocalName d)
  with assms(3) have n: "unat (of_nat (length d) :: byte) = length d" by (simp add: local_ok_def unat_of_nat)
  have "conn_content c = [of_nat (length d)] @ bytes_of_string d @ put_uint16 port @ rest"
    using assms(4) LocalName by (simp add: encode_local_def)
  note r1 = conn_after_prefix [OF assms(1,2) this, of 1]
  note r2 = conn_after_prefix [of "conn_skip 1 c" "bytes_of_string d" "put_uint16 port @ rest" "length d"]
  note r3 = conn_after_prefix [of "conn_skip (length d) (conn_skip 1 c)" "put_uint16 port" rest 2]
  show ?thesis
    using r1 r2 r3 LocalName n
    by (simp add: read_target_def encode_local_def local_target_def go_bind_def)
next
  case (LocalIPv6 b)
  have "conn_content c = b @ put_uint16 port @ rest" "length b = 16"
    using assms(3,4) LocalIPv6 by (simp_all add: encode_local_def local_ok_def)
  note r1 = conn_after_prefix [OF assms(1,2) this]
  note r2 = conn_after_prefix [of "conn_skip 16 c" "put_uint16 port" rest 2]
  show ?thesis
    using r1 r2 LocalIPv6
    by (simp add: read_target_def encode_local_def local_target_def go_bind_def)
qed

lemma client_negotiation_done:
  assumes "conn_ok c" "open_writer c" "local_ok a" "length ms < 256"
    and "conn_content c = encode_greeting ms @ [5, 1, rsv] @ encode_local a @ put_uint16 port @ rest"
  shows "\<exists>c'. client_negotiation c = Some (Inr (local_target a port), c')
    \<and> conn_ok c' \<and> open_writer c' \<and> conn_content c' = rest \<and> tx c' = tx c @ [5, 0]"
proof -
  obtain t ad where t: "encode_local a = t # ad" by (cases a) (auto simp add: encode_local_def)
  have n: "unat (of_nat (length ms) :: byte) = length ms" using assms(4) by (simp add: unat_of_nat)
  let ?req = "[5, 1, rsv, t] @ ad @ put_uint16 port @ rest"
  have "conn_content c = [5, of_nat (length ms)] @ ms @ ?req"
    using assms(5) t by (simp add: encode_greeting_def)
  note r1 = conn_after_prefix [OF assms(1,2) this, of 2]
  note r2 = conn_after_prefix [of "conn_skip 2 c" ms ?req "length ms"]
  let ?c2 = "conn_put [5, 0] (conn_skip (length ms) (conn_skip 2 c))"
  have c2: "conn_ok ?c2" "open_writer ?c2" "conn_content ?c2 = [5, 1, rsv, t] @ ad @ put_uint16 port @ rest"
    "tx ?c2 = tx c @ [5, 0]" using r1(2) r2(2) by (simp_all add: conn_put_simps)
  note r3 = conn_after_prefix [OF c2(1-3), of 4]
  have "\<exists>c'. read_target t (conn_skip 4 ?c2) = Some (Inr (local_target a port), c')
    \<and> conn_ok c' \<and> open_writer c' \<and> conn_content c' = rest \<and> tx c' = tx (conn_skip 4 ?c2)"
    using read_target_done [of "conn_skip 4 ?c2" a port rest] r3(2) assms(3) t by simp
  then show ?thesis
    using r1 r2 r3 c2(4) n
    by (simp add: client_negotiation_def go_bind_def go_write_open)
qed

section \<open>Client and server together\<close>

lemma auth_request_eq: "auth_request pw = hy2AppendStr [] pw @ replicate 8 0"
proof -
  have "put_uint64 0 = replicate 8 0" by code_simp
  then show ?thesis by (simp add: auth_request_def hy2AppendStr_def)
qed

lemma tcp_request_eq: "tcp_request target = [1] @ hy2AppendStr [] target @ put_uint32 0"
  by (simp add: tcp_request_def hy2AppendStr_def)

text \<open>C16. The two sides of the authentication agree: on what the client sends for a password of fewer than
  65536 bytes, the server accepts exactly if it is the configured one, and the client, given the server's
  answer, reports success exactly in that case; both streams are left right after the exchange.\<close>

theorem hy2_auth_agreement:
  assumes server: "duplex rd content final skip ok wr sent acc" "ok s" "acc s" "content s = auth_request pw @ after"
    and client: "duplex rd' content' final' skip' ok' wr' sent' acc'"
    and len: "length pw < 65536"
  shows "\<exists>s' answer. hy2HandleAuth rd wr password s = Some (Inr (pw = password), s')
    \<and> content s' = after \<and> sent s' = sent s @ answer
    \<and> (\<forall>c rest. ok' c \<longrightarrow> acc' c \<longrightarrow> content' c = answer @ rest \<longrightarrow>
        (\<exists>c'. sendAuth rd' wr' cl pw (Inr c) =
           Some (if pw = password then Inr () else Inl (ErrText ''server rejected auth (ok=0)''), Some (cl c'))
         \<and> content' c' = rest \<and> sent' c' = sent' c @ auth_request pw))"
proof -
  have "content s = hy2AppendStr [] pw @ replicate 8 0 @ after"
    using server(4) by (simp add: auth_request_eq)
  from duplex.handle_auth [OF server(1), OF server(2,3) this len] obtain s' where
    s': "hy2HandleAuth rd wr password s = Some (Inr (pw = password), s')" "content s' = after"
      "sent s' = sent s @ auth_response (pw = password)" by auto
  have "\<exists>c'. sendAuth rd' wr' cl pw (Inr c) =
      Some (if pw = password then Inr () else Inl (ErrText ''server rejected auth (ok=0)''), Some (cl c'))
    \<and> content' c' = rest \<and> sent' c' = sent' c @ auth_request pw"
    if "ok' c" "acc' c" "content' c = auth_response (pw = password) @ rest" for c rest
    using duplex.auth_exchange_result [OF client, OF that, of pw] by (auto simp add: sendAuth_def)
  with s' show ?thesis by blast
qed

definition example_request :: "string \<Rightarrow> conn" where
  "example_request pw = new_conn [auth_request pw] EOF"

text \<open>A socket on which given bytes will arrive, at once.\<close>

definition arriving :: "byte list \<Rightarrow> conn" where
  "arriving bs = new_conn (if bs = [] then [] else [bs]) EOF"

lemma arriving_facts:
  "conn_ok (arriving bs)" "open_writer (arriving bs)" "conn_content (arriving bs) = bs" "tx (arriving bs) = []"
  "conn_final (arriving bs) = EOF"
  by (simp_all add: arriving_def new_conn_def conn_ok_def open_writer_def conn_content_def conn_final_def)

theorem hy2_auth_agreement_witness:
  "\<exists>s' answer. hy2HandleAuth conn_read conn_write ''secret'' (arriving (auth_request ''secret'')) = Some (Inr True, s')
    \<and> tx s' = answer
    \<and> (\<exists>c'. sendAuth conn_read conn_write conn_close_write ''secret'' (Inr (arriving answer)) =
         Some (Inr (), Some (conn_close_write c')) \<and> tx c' = auth_request ''secret'')"
proof -
  let ?s = "arriving (auth_request ''secret'')"
  have s: "conn_content ?s = auth_request ''secret'' @ []" by (simp add: arriving_facts)
  note agree = hy2_auth_agreement [OF conn_duplex.duplex_axioms, OF arriving_facts(1,2) s conn_duplex.duplex_axioms]
  obtain s' answer where a: "hy2HandleAuth conn_read conn_write ''secret'' ?s = Some (Inr True, s')"
      "tx s' = tx ?s @ answer"
    and c: "\<forall>c rest. conn_ok c \<longrightarrow> open_writer c \<longrightarrow> conn_content c = answer @ rest \<longrightarrow>
      (\<exists>c'. sendAuth conn_read conn_write conn_close_write ''secret'' (Inr c) = Some (Inr (), Some (conn_close_write c'))
        \<and> conn_content c' = rest \<and> tx c' = tx c @ auth_request ''secret'')"
    using agree [of "''secret''" conn_close_write] by auto
  have "conn_content (arriving answer) = answer @ []" by (simp add: arriving_facts)
  with c a arriving_facts show ?thesis by (metis append_Nil)
qed

text \<open>What the server answers to a proxy request, by the result of dialling.\<close>

definition tcp_answer :: "go_error + conn \<Rightarrow> byte list" where
  "tcp_answer r = (case r of Inl err \<Rightarrow> hy2AppendStr [0] (err_text err) | Inr target \<Rightarrow> hy2AppendStr [1] '''')"

context duplex
begin

lemma tcp_exchange_answer:
  assumes "ok c" "acc c" "content c = tcp_answer r @ rest"
    and "\<forall>err. r = Inl err \<longrightarrow> length (err_text err) < 65536"
  shows "\<exists>c'. tcp_exchange rd wr target c =
      Some (case r of Inl err \<Rightarrow> Inl (ErrText (''server rejected TCP request: '' @ err_text err)) | Inr _ \<Rightarrow> Inr (), c')
    \<and> content c' = rest \<and> sent c' = sent c @ tcp_request target"
proof (cases r)
  case (Inl err)
  then show ?thesis
    using tcp_exchange_result [OF assms(1,2), of "err_text err" False rest target] assms(3,4)
    by (auto simp add: tcp_answer_def)
next
  case (Inr t)
  then show ?thesis
    using tcp_exchange_result [OF assms(1,2), of "''''" True rest target] assms(3)
    by (auto simp add: tcp_answer_def)
qed

end

text \<open>C10. The tunnel connects a local application to what it asked for: the application's SOCKS5 request for an
  IPv4 address, a name or an IPv6 address makes the client open a stream on which the server dials exactly
  that address. If the dial succeeds, both sides start their relay with none of the application's data
  consumed, and the application is told so (reply 00); if it fails, both streams are closed and the
  application gets reply 04.\<close>

theorem hy2_tunnel:
  assumes server: "duplex rd content final skip ok wr sent acc" "ok s" "acc s"
      "content s = tcp_request (local_target a port) @ data"
    and client: "duplex rd' content' final' skip' ok' wr' sent' acc'" "ok' c" "acc' c"
      "content' c = tcp_answer (dial (local_target a port)) @ rest"
    and app: "conn_ok app" "open_writer app" "local_ok a" "length ms < 256"
      "conn_content app = encode_greeting ms @ [5, 1, rsv] @ encode_local a @ put_uint16 port @ data"
    and len: "length (local_target a port) < 65536"
      "\<forall>err. dial (local_target a port) = Inl err \<longrightarrow> length (err_text err) < 65536"
  shows "\<exists>s' c' app'. content s' = data \<and> sent s' = sent s @ tcp_answer (dial (local_target a port))
    \<and> content' c' = rest \<and> sent' c' = sent' c @ tcp_request (local_target a port)
    \<and> conn_content app' = data
    \<and> (case dial (local_target a port) of
         Inl err \<Rightarrow>
           hy2HandleStream dial rd wr s = Some (Hy2Closed s')
           \<and> handleSocks5Client rd' wr' cl (Inr c) app = Some (ClientClosed (conn_close app') (Some (cl c')))
           \<and> tx app' = tx app @ [5, 0] @ reply 4
       | Inr target \<Rightarrow>
           hy2HandleStream dial rd wr s = Some (Hy2Relay s' target)
           \<and> handleSocks5Client rd' wr' cl (Inr c) app = Some (ClientRelay app' c')
           \<and> tx app' = tx app @ [5, 0] @ reply 0)"
proof -
  let ?t = "local_target a port"
  obtain app1 where n: "client_negotiation app = Some (Inr ?t, app1)" "conn_ok app1" "open_writer app1"
    "conn_content app1 = data" "tx app1 = tx app @ [5, 0]"
    using client_negotiation_done [OF app(1,2,3,4,5)] by blast
  have put: "tx (conn_put bs app1) = tx app @ [5, 0] @ bs" "conn_content (conn_put bs app1) = data" for bs
    using n(4,5) by (simp_all add: conn_put_simps)
  have srv: "content s = [1] @ hy2AppendStr [] ?t @ put_uint32 0 @ data"
    using server(4) by (simp add: tcp_request_eq)
  then have "1 \<le> length (content s)" by simp
  note one = exact_source.go_read_enough [OF duplex.axioms(1) [OF server(1)], OF server(2) this, of id]
  note f = duplex.skip_facts [OF server(1), OF server(2), of 1]
  have "content (skip 1 s) = hy2AppendStr [] ?t @ put_uint32 0 @ data" "acc (skip 1 s)"
    using f(2,5) srv server(3) by simp_all
  from duplex.handle_tcp [OF server(1), OF f(1) this(2,1) len(1), of dial] obtain s' where
    s': "content s' = data" "hy2HandleTCP dial rd wr (skip 1 s) =
        Some (case dial ?t of Inl err \<Rightarrow> Hy2Closed s' | Inr target \<Rightarrow> Hy2Relay s' target)"
      "sent s' = sent s @ tcp_answer (dial ?t)"
    using f(4) by (auto simp add: tcp_answer_def)
  have hs: "hy2HandleStream dial rd wr s =
      Some (case dial ?t of Inl err \<Rightarrow> Hy2Closed s' | Inr target \<Rightarrow> Hy2Relay s' target)"
    using one srv s'(2) by (simp add: hy2HandleStream_def hy2StreamTypeTCP_def)
  obtain c' where c': "tcp_exchange rd' wr' ?t c =
      Some (case dial ?t of Inl err \<Rightarrow> Inl (ErrText (''server rejected TCP request: '' @ err_text err)) | Inr _ \<Rightarrow> Inr (), c')"
    "content' c' = rest" "sent' c' = sent' c @ tcp_request ?t"
    using duplex.tcp_exchange_answer [OF client(1), OF client(2,3,4) len(2)] by blast
  show ?thesis
    by (intro exI [of _ s'] exI [of _ c'] exI [of _ "conn_put (reply (case dial ?t of Inl _ \<Rightarrow> 4 | Inr _ \<Rightarrow> 0)) app1"])
      (use s'(1,3) hs c' n(1,3) put in \<open>simp add: handleSocks5Client_def openTcpStream_def go_write_open split: sum.split\<close>)
qed

definition example_app :: conn where
  "example_app = arriving (encode_greeting [0] @ [5, 1, 0] @ encode_local (LocalName ''h'') @ put_uint16 80 @ [42])"

theorem hy2_tunnel_witness:
  "\<exists>s' c' app'. conn_content s' = [42]
    \<and> hy2HandleStream (\<lambda>_. Inr (new_conn [] EOF)) conn_read conn_write
        (arriving (tcp_request ''h:80'' @ [42])) = Some (Hy2Relay s' (new_conn [] EOF))
    \<and> handleSocks5Client conn_read conn_write conn_close_write
        (Inr (arriving (tcp_answer (Inr (new_conn [] EOF)) @ [7]))) example_app = Some (ClientRelay app' c')
    \<and> tx app' = [5, 0] @ reply 0 \<and> conn_content c' = [7]"
proof -
  have t: "local_target (LocalName ''h'') 80 = ''h:80''" by code_simp
  have app: "conn_ok example_app" "open_writer example_app" "local_ok (LocalName ''h'')" "length [0 :: byte] < 256"
    "conn_content example_app = encode_greeting [0] @ [5, 1, 0] @ encode_local (LocalName ''h'') @ put_uint16 80 @ [42]"
    "tx example_app = []"
    by (simp_all add: example_app_def arriving_facts local_ok_def)
  let ?dial = "\<lambda>_ :: string. (Inr (new_conn [] EOF) :: go_error + conn)"
  let ?s = "arriving (tcp_request (local_target (LocalName ''h'') 80) @ [42])"
  let ?c = "arriving (tcp_answer (?dial (local_target (LocalName ''h'') 80)) @ [7])"
  have "length (local_target (LocalName ''h'') 80) < 65536" by (simp add: t)
  from hy2_tunnel [OF conn_duplex.duplex_axioms, OF arriving_facts(1-3) conn_duplex.duplex_axioms,
      OF arriving_facts(1-3) app(1-5) this, where cl = conn_close_write and dial = ?dial and rest = "[7]"]
  show ?thesis by (fastforce simp add: t app(6))
qed

section \<open>Start, stop and the listening goroutine\<close>

text \<open>
  A session is what one successful \<^verbatim>\<open>start\<close> created: its context (cancelled or not), its QUIC connection (closed
  by the client or not), and the goroutine that runs the SOCKS5 listener. When \<^verbatim>\<open>runSocks5Listener\<close> returns
  (phase \<open>Stopping\<close>), the deferred function first stores \<^verbatim>\<open>false\<close> into \<^verbatim>\<open>running\<close> (phase \<open>Closing\<close>) and then closes
  the connection (phase \<open>Ended\<close>); other goroutines may run in between. \<open>starting\<close> is true while \<^verbatim>\<open>start\<close> holds the
  mutex past its check; it dials and authenticates without letting go of it, while the goroutines of
  older sessions go on.
\<close>

datatype goroutine_phase = Serving | Stopping | Closing | Ended

record session =
  ctx_done :: bool
  quic_open :: bool
  phase :: goroutine_phase

record hysteria2_client =
  cancel_func :: "nat option"
  running :: bool
  starting :: bool
  sessions :: "session list"

definition default_client :: hysteria2_client where
  "default_client = \<lparr>cancel_func = None, running = False, starting = False, sessions = []\<rparr>"

definition is_running :: "hysteria2_client \<Rightarrow> bool" where
  "is_running c = running c"

definition set_session :: "nat \<Rightarrow> (session \<Rightarrow> session) \<Rightarrow> hysteria2_client \<Rightarrow> hysteria2_client" where
  "set_session i f c = c\<lparr>sessions := (sessions c)[i := f (sessions c ! i)]\<rparr>"

text \<open>\<^verbatim>\<open>start\<close> in two parts: the check under the mutex, and what follows the dialling and authentication.\<close>

definition start_begin :: "hysteria2_client \<Rightarrow> go_error option \<times> hysteria2_client" where
  "start_begin c =
     (if running c then (Some (ErrText ''already running''), c) else (None, c\<lparr>starting := True\<rparr>))"

definition start_finish :: "go_error option \<Rightarrow> hysteria2_client \<Rightarrow> hysteria2_client" where
  "start_finish err c =
     (case err of
        Some e \<Rightarrow> c\<lparr>starting := False\<rparr>
      | None \<Rightarrow>
          c\<lparr>cancel_func := Some (length (sessions c)), running := True, starting := False,
            sessions := sessions c @ [\<lparr>ctx_done = False, quic_open = True, phase = Serving\<rparr>]\<rparr>)"

definition stop :: "hysteria2_client \<Rightarrow> hysteria2_client" where
  "stop c =
     (case cancel_func c of
        None \<Rightarrow> c
      | Some i \<Rightarrow> (set_session i (\<lambda>s. s\<lparr>ctx_done := True\<rparr>) c)\<lparr>cancel_func := None\<rparr>)"

inductive life_step :: "hysteria2_client \<Rightarrow> hysteria2_client \<Rightarrow> bool" where
  start_check: "\<not> starting c \<Longrightarrow> life_step c (snd (start_begin c))"
| start_result: "starting c \<Longrightarrow> life_step c (start_finish err c)"
| stop_call: "\<not> starting c \<Longrightarrow> life_step c (stop c)"
| listener_returns: "i < length (sessions c) \<Longrightarrow> phase (sessions c ! i) = Serving \<Longrightarrow>
    life_step c (set_session i (\<lambda>s. s\<lparr>phase := Stopping\<rparr>) c)"
| clears_flag: "i < length (sessions c) \<Longrightarrow> phase (sessions c ! i) = Stopping \<Longrightarrow>
    life_step c ((set_session i (\<lambda>s. s\<lparr>phase := Closing\<rparr>) c)\<lparr>running := False\<rparr>)"
| closes: "i < length (sessions c) \<Longrightarrow> phase (sessions c ! i) = Closing \<Longrightarrow>
    life_step c (set_session i (\<lambda>s. s\<lparr>phase := Ended, quic_open := False\<rparr>) c)"

inductive reachable_client :: "hysteria2_client \<Rightarrow> bool" where
  initial: "reachable_client default_client"
| later: "reachable_client c \<Longrightarrow> life_step c d \<Longrightarrow> reachable_client d"

inductive_cases life_stepE: "life_step c d"

text \<open>A session is live from its start until its goroutine has cleared the flag.\<close>

definition live :: "hysteria2_client \<Rightarrow> nat \<Rightarrow> bool" where
  "live c i \<longleftrightarrow> i < length (sessions c) \<and> phase (sessions c ! i) \<in> {Serving, Stopping}"

definition life_ok :: "hysteria2_client \<Rightarrow> bool" where
  "life_ok c \<longleftrightarrow>
     (running c \<longleftrightarrow> (\<exists>i. live c i))
     \<and> (\<forall>i j. live c i \<longrightarrow> live c j \<longrightarrow> i = j)
     \<and> (starting c \<longrightarrow> \<not> running c)
     \<and> (\<forall>i. cancel_func c = Some i \<longrightarrow> i < length (sessions c))
     \<and> (\<forall>i. live c i \<longrightarrow> (cancel_func c = Some i \<or> ctx_done (sessions c ! i)) \<and> quic_open (sessions c ! i))"

lemma set_session_simps [simp]:
  "cancel_func (set_session i f c) = cancel_func c" "running (set_session i f c) = running c"
  "starting (set_session i f c) = starting c" "length (sessions (set_session i f c)) = length (sessions c)"
  by (simp_all add: set_session_def)

lemma live_update [simp]:
  "live (c\<lparr>starting := b\<rparr>) i = live c i" "live (c\<lparr>running := b\<rparr>) i = live c i" "live (c\<lparr>cancel_func := k\<rparr>) i = live c i"
  by (simp_all add: live_def)

lemma live_length: "live c i \<Longrightarrow> i < length (sessions c)"
  by (simp add: live_def)

lemma set_session_nth:
  "j < length (sessions c) \<Longrightarrow>
   sessions (set_session i f c) ! j = (if i = j then f (sessions c ! j) else sessions c ! j)"
  by (simp add: set_session_def nth_list_update)

lemma life_step_ok:
  assumes "life_step c d" "life_ok c"
  shows "life_ok d"
  using assms
proof (cases rule: life_step.cases)
  case start_check
  with assms(2) show ?thesis
    by (cases "running c") (simp_all add: start_begin_def life_ok_def)
next
  case (start_result err)
  show ?thesis
  proof (cases err)
    case (Some e)
    with start_result assms(2) show ?thesis by (simp add: start_finish_def life_ok_def)
  next
    case None
    have none: "\<not> live c i" for i using start_result assms(2) by (auto simp add: life_ok_def)
    have "live d i \<longleftrightarrow> i = length (sessions c)" for i
      using none [of i] start_result None
      by (auto simp add: start_finish_def live_def nth_append less_Suc_eq)
    with start_result None show ?thesis by (simp add: life_ok_def start_finish_def)
  qed
next
  case stop_call
  show ?thesis
  proof (cases "cancel_func c")
    case (Some i)
      then have "live d j \<longleftrightarrow> live c j" for j
      using stop_call by (auto simp add: stop_def live_def set_session_nth split: if_splits)
    with stop_call Some assms(2) show ?thesis
      by (auto simp add: stop_def life_ok_def set_session_nth live_length)
  qed (use stop_call assms(2) in \<open>simp add: stop_def\<close>)
next
  case (listener_returns i)
  then have "live d j \<longleftrightarrow> live c j" for j
    by (auto simp add: live_def set_session_nth split: if_splits)
  with listener_returns assms(2) show ?thesis
    by (auto simp add: life_ok_def set_session_nth live_length)
next
  case (clears_flag i)
  then have "live d j \<longleftrightarrow> live c j \<and> j \<noteq> i" for j
    by (auto simp add: live_def set_session_nth split: if_splits)
  moreover have "live c i" using clears_flag by (simp add: live_def)
  moreover have "\<And>j. j < length (sessions c) \<Longrightarrow> ctx_done (sessions d ! j) = ctx_done (sessions c ! j)
      \<and> quic_open (sessions d ! j) = quic_open (sessions c ! j)"
    using clears_flag by (simp add: set_session_nth)
  moreover have "\<And>j. live c j \<Longrightarrow> j < length (sessions c)" by (simp add: live_def)
  ultimately show ?thesis
    using clears_flag assms(2) by (auto simp add: life_ok_def)
next
  case (closes i)
  then have "live d j \<longleftrightarrow> live c j" for j
    by (auto simp add: live_def set_session_nth split: if_splits)
  moreover have "\<not> live c i" using closes by (simp add: live_def)
  ultimately show ?thesis
    using closes assms(2)
    by (auto simp add: life_ok_def set_session_nth live_length)
qed

lemma reachable_life_ok: "reachable_client c \<Longrightarrow> life_ok c"
proof (induction rule: reachable_client.induct)
  case initial
  show ?case by (simp add: life_ok_def default_client_def live_def)
next
  case (later c d)
  then show ?case by (blast intro: life_step_ok)
qed

text \<open>C15. Whatever the interleaving of starts, stops and goroutines: at most one session is live (its goroutine
  listens, or is about to clear the flag), \<^verbatim>\<open>IsRunning\<close> says whether there is one, \<^verbatim>\<open>start\<close> is past its check
  only when there is none, and the live session can still be cancelled by \<^verbatim>\<open>stop\<close> or already has been, and its
  connection has not been closed under it.\<close>

theorem one_live_session:
  assumes "reachable_client c"
  shows "(is_running c \<longleftrightarrow> (\<exists>i. live c i)) \<and> (\<forall>i j. live c i \<and> live c j \<longrightarrow> i = j)
    \<and> (starting c \<longrightarrow> (\<forall>i. \<not> live c i))
    \<and> (\<forall>i. live c i \<longrightarrow> ctx_done (sessions (stop c) ! i) \<and> quic_open (sessions c ! i))"
proof -
  have ok: "life_ok c" by (rule reachable_life_ok [OF assms])
  have "ctx_done (sessions (stop c) ! i)" if "live c i" for i
  proof -
    have i: "i < length (sessions c)" using that by (simp add: live_def)
    from ok that consider "cancel_func c = Some i" | "ctx_done (sessions c ! i)"
      unfolding life_ok_def by blast
    then show ?thesis
      using i by cases (auto simp add: stop_def set_session_nth split: option.split)
  qed
  then show ?thesis using ok unfolding life_ok_def is_running_def by blast
qed

definition started_client :: hysteria2_client where
  "started_client = start_finish None (snd (start_begin default_client))"

lemma started_reachable: "reachable_client started_client"
proof -
  have "life_step default_client (snd (start_begin default_client))"
    by (rule start_check) (simp add: default_client_def)
  then have "reachable_client (snd (start_begin default_client))" by (rule later [OF initial])
  moreover have "life_step (snd (start_begin default_client)) started_client"
    unfolding started_client_def by (rule start_result) (simp add: start_begin_def default_client_def)
  ultimately show ?thesis by (rule later)
qed

theorem one_live_session_witness:
  "is_running started_client \<and> live started_client 0 \<and> ctx_done (sessions (stop started_client) ! 0)"
proof -
  have "live started_client 0"
    by (simp add: started_client_def start_finish_def start_begin_def default_client_def live_def)
  with one_live_session [OF started_reachable] show ?thesis by blast
qed

text \<open>The texts of some addresses: the longest run of zero groups is the one that is shortened.\<close>

lemma ip_string_examples:
  "ip_string (replicate 15 0 @ [1]) = ''::1''"
  "ip_string [0, 1, 0, 0, 0, 0, 0, 2, 0, 0, 0, 0, 0, 0, 0, 3] = ''1:0:0:2::3''"
  "ip_string (replicate 10 0 @ [0xff, 0xff, 1, 2, 3, 4]) = ''1.2.3.4''"
  "ip_string (replicate 16 0) = ''::''"
  by code_simp+

section \<open>Starting and the local listener\<close>

text \<open>
  The error with which \<^verbatim>\<open>start\<close> ends after its check: that of dialling (\<open>dialErr\<close>), else that of
  \<^verbatim>\<open>sendAuth\<close> (\<open>authErr\<close>); \<open>start_finish\<close> is called with it.
\<close>

definition start_error :: "string \<Rightarrow> int \<Rightarrow> go_error option \<Rightarrow> go_error option \<Rightarrow> go_error option" where
  "start_error server port dialErr authErr =
     (case dialErr of
        Some err \<Rightarrow> Some (ErrWrap (''QUIC dial '' @ server @ '':'' @ dec_int port) err)
      | None \<Rightarrow> map_option (ErrWrap ''auth'') authErr)"

text \<open>
  The accept loop of the local listener, on what \<^verbatim>\<open>Accept\<close> returns together with whether the context was done
  at that moment (\<open>stop\<close> cancels it, which closes the listener). A connection comes with the stream its handler
  will open. The result is what becomes of the handlers started, and that of the function once it returned.
\<close>

fun local_accepts ::
  "'s reader \<Rightarrow> 's writer \<Rightarrow> ('s \<Rightarrow> 's) \<Rightarrow> (bool \<times> (go_error + (go_error + 's) \<times> conn)) list
    \<Rightarrow> 's client_outcome option list \<times> go_error option option" where
  "local_accepts rd wr cl [] = ([], None)"
| "local_accepts rd wr cl ((ctxDone, Inl err) # rest) =
     ([], Some (if ctxDone then None else Some (ErrWrap ''accept'' err)))"
| "local_accepts rd wr cl ((ctxDone, Inr (opened, c)) # rest) =
     (case local_accepts rd wr cl rest of (started, r) \<Rightarrow> (handleSocks5Client rd wr cl opened c # started, r))"

definition runSocks5Listener ::
  "'s reader \<Rightarrow> 's writer \<Rightarrow> ('s \<Rightarrow> 's) \<Rightarrow> (string \<Rightarrow> go_error option) \<Rightarrow>
    (bool \<times> (go_error + (go_error + 's) \<times> conn)) list \<Rightarrow> int
    \<Rightarrow> 's client_outcome option list \<times> go_error option option" where
  "runSocks5Listener rd wr cl bindErr accepted port =
     (case bindErr (''127.0.0.1:'' @ dec_int port) of
        Some err \<Rightarrow> ([], Some (Some (ErrWrap (''listen :'' @ dec_int port) err)))
      | None \<Rightarrow> local_accepts rd wr cl accepted)"

text \<open>
  The listener serves every connection accepted before the first failing accept, and none after it: unlike the
  loops of the server it returns there, silently if the client was stopped.
\<close>

lemma local_accepts_result:
  "local_accepts rd wr cl (map (\<lambda>(d, oc). (d, Inr oc)) ocs @ (ctxDone, Inl err) # rest) =
    (map (\<lambda>(d, opened, c). handleSocks5Client rd wr cl opened c) ocs,
     Some (if ctxDone then None else Some (ErrWrap ''accept'' err)))"
  by (induction ocs) auto

end
