(* ===== verification/Relay.thy ===== *)
theory Relay
  imports GoIO "HOL-Library.Multiset"
begin

text \<open>
  The relay that ends \<^verbatim>\<open>handle\<close>, \<^verbatim>\<open>handleSOCKS5\<close>, \<^verbatim>\<open>hy2HandleTCP\<close> and the client's \<^verbatim>\<open>relay\<close>: two goroutines
  run \<^verbatim>\<open>io.Copy\<close> in opposite directions between two connections, each signals when its copy is over, and the
  function returns at the first signal, closing both connections. The goroutines interleave at the level
  of single reads and writes; what a goroutine does after its copy (the report, \<^verbatim>\<open>CloseWrite\<close>, the signal) is one
  step, since the report commutes with every other step and no goroutine waits between the other two.
\<close>

section \<open>Connections as interfaces\<close>

text \<open>
  \<^verbatim>\<open>net.Conn\<close>: the methods the relay calls. \<open>nc_close_write\<close> is what happens to a connection when the copy
  towards it has ended: \<^verbatim>\<open>CloseWrite\<close> for a TCP connection, nothing where the code has no such call.
\<close>

record 's net_conn =
  nc_read :: "'s reader"
  nc_write :: "'s writer"
  nc_close :: "'s \<Rightarrow> 's"
  nc_close_write :: "'s \<Rightarrow> 's"

section \<open>The relay\<close>

text \<open>
  Where a goroutine is: before a read of \<^verbatim>\<open>io.Copy\<close> (with the bytes written so far), between that read and
  the write, after \<^verbatim>\<open>io.Copy\<close> returned, after it signalled.
\<close>

datatype copier =
    Copying nat
  | Flushing nat "byte list" "go_error option"
  | Copied nat "go_error option"
  | Signalled nat "go_error option"

datatype relay_main = Waiting | Returning | Returned

text \<open>What the relay reports to the statistics, in order.\<close>

datatype relay_event = BytesIn nat | BytesOut nat | RelayOver

record ('a, 'b) relay =
  r_client :: 'a
  r_target :: 'b
  r_up :: copier
  r_down :: copier
  r_main :: relay_main
  r_log :: "relay_event list"

definition relay_start :: "'a \<Rightarrow> 'b \<Rightarrow> ('a, 'b) relay" where
  "relay_start c t = \<lparr>r_client = c, r_target = t, r_up = Copying 0, r_down = Copying 0, r_main = Waiting, r_log = []\<rparr>"

definition after_write :: "nat \<Rightarrow> nat \<Rightarrow> go_error option \<Rightarrow> go_error option \<Rightarrow> copier" where
  "after_write w nw er ew =
     (case ew of
        Some e \<Rightarrow> Copied (w + nw) (Some e)
      | None \<Rightarrow>
          (case er of
             Some e \<Rightarrow> Copied (w + nw) (if e = EOF then None else Some e)
           | None \<Rightarrow> Copying (w + nw)))"

definition signalled :: "copier \<Rightarrow> bool" where
  "signalled g = (case g of Signalled w e \<Rightarrow> True | _ \<Rightarrow> False)"

inductive relay_step :: "'a net_conn \<Rightarrow> 'b net_conn \<Rightarrow> ('a, 'b) relay \<Rightarrow> ('a, 'b) relay \<Rightarrow> bool"
  for A B where
  up_read: "r_up R = Copying w \<Longrightarrow> nc_read A 32768 (r_client R) = Some (bs, er, c) \<Longrightarrow>
    relay_step A B R (R\<lparr>r_client := c, r_up := Flushing w bs er\<rparr>)"
| up_write: "r_up R = Flushing w bs er \<Longrightarrow> copy_chunk (nc_write B) bs (r_target R) = (nw, ew, t) \<Longrightarrow>
    relay_step A B R (R\<lparr>r_target := t, r_up := after_write w nw er ew\<rparr>)"
| up_done: "r_up R = Copied w e \<Longrightarrow>
    relay_step A B R (R\<lparr>r_target := nc_close_write B (r_target R), r_up := Signalled w e,
      r_log := r_log R @ [BytesIn w]\<rparr>)"
| down_read: "r_down R = Copying w \<Longrightarrow> nc_read B 32768 (r_target R) = Some (bs, er, t) \<Longrightarrow>
    relay_step A B R (R\<lparr>r_target := t, r_down := Flushing w bs er\<rparr>)"
| down_write: "r_down R = Flushing w bs er \<Longrightarrow> copy_chunk (nc_write A) bs (r_client R) = (nw, ew, c) \<Longrightarrow>
    relay_step A B R (R\<lparr>r_client := c, r_down := after_write w nw er ew\<rparr>)"
| down_done: "r_down R = Copied w e \<Longrightarrow>
    relay_step A B R (R\<lparr>r_down := Signalled w e, r_log := r_log R @ [BytesOut w]\<rparr>)"
| main_returns: "r_main R = Waiting \<Longrightarrow> signalled (r_up R) \<or> signalled (r_down R) \<Longrightarrow>
    relay_step A B R (R\<lparr>r_target := nc_close B (r_target R), r_main := Returning, r_log := r_log R @ [RelayOver]\<rparr>)"
| main_closes: "r_main R = Returning \<Longrightarrow>
    relay_step A B R (R\<lparr>r_client := nc_close A (r_client R), r_main := Returned\<rparr>)"

inductive_cases relay_stepE: "relay_step A B R S"

definition relay_reaches :: "'a net_conn \<Rightarrow> 'b net_conn \<Rightarrow> ('a, 'b) relay \<Rightarrow> ('a, 'b) relay \<Rightarrow> bool" where
  "relay_reaches A B = (relay_step A B)\<^sup>*\<^sup>*"

definition relay_over :: "('a, 'b) relay \<Rightarrow> bool" where
  "relay_over R \<longleftrightarrow> signalled (r_up R) \<and> signalled (r_down R) \<and> r_main R = Returned"

section \<open>The contract of an endpoint\<close>

text \<open>
  What may happen to a connection without disturbing the goroutine that reads it: the bytes to come may be
  cut short (by a close), but then not with a clean end of file; and the one that writes it: nothing of
  what was sent changes.
\<close>

definition src_stable :: "('s \<Rightarrow> byte list) \<Rightarrow> ('s \<Rightarrow> go_error) \<Rightarrow> ('s \<Rightarrow> bool) \<Rightarrow> 's \<Rightarrow> 's \<Rightarrow> bool" where
  "src_stable content final ok s s' \<longleftrightarrow>
     (ok s \<longrightarrow> ok s' \<and> prefix (content s') (content s)
        \<and> (final s' = EOF \<longrightarrow> final s = EOF \<and> content s' = content s))"

definition snk_stable :: "('s \<Rightarrow> byte list) \<Rightarrow> ('s \<Rightarrow> bool) \<Rightarrow> 's \<Rightarrow> 's \<Rightarrow> bool" where
  "snk_stable sent okw s s' \<longleftrightarrow> sent s' = sent s \<and> (okw s \<longrightarrow> okw s')"

locale endpoint = byte_source rd content final rank ok + byte_sink wr sent okw
  for rd :: "nat \<Rightarrow> 's \<Rightarrow> (byte list \<times> go_error option \<times> 's) option"
    and content :: "'s \<Rightarrow> byte list"
    and final :: "'s \<Rightarrow> go_error"
    and rank :: "'s \<Rightarrow> nat"
    and ok :: "'s \<Rightarrow> bool"
    and wr :: "byte list \<Rightarrow> 's \<Rightarrow> nat \<times> go_error option \<times> 's"
    and sent :: "'s \<Rightarrow> byte list"
    and okw :: "'s \<Rightarrow> bool" +
  fixes cl :: "'s \<Rightarrow> 's" and cw :: "'s \<Rightarrow> 's"
  assumes read_snk: "rd k s = Some (bs, e, s') \<Longrightarrow> ok s \<Longrightarrow> 0 < k \<Longrightarrow> snk_stable sent okw s s'"
    and write_src: "wr bs s = (n, e, s') \<Longrightarrow> src_stable content final ok s s' \<and> (ok s \<longrightarrow> rank s' \<le> rank s)"
    and close_src: "src_stable content final ok s (cl s) \<and> (ok s \<longrightarrow> rank (cl s) \<le> rank s)"
    and close_snk: "snk_stable sent okw s (cl s)"
    and close_write_src: "src_stable content final ok s (cw s) \<and> (ok s \<longrightarrow> rank (cw s) \<le> rank s)"
    and close_write_snk: "snk_stable sent okw s (cw s)"
begin

lemma copy_chunk_src:
  "copy_chunk wr bs s = (n, e, s') \<Longrightarrow> src_stable content final ok s s' \<and> (ok s \<longrightarrow> rank s' \<le> rank s)"
  using write_src
  by (auto simp add: copy_chunk_def src_stable_def split: if_splits prod.splits option.splits)

lemma copy_chunk_snk:
  assumes "okw s" "copy_chunk wr bs s = (n, e, s')"
  shows "okw s' \<and> n \<le> length bs \<and> (e = None \<longrightarrow> n = length bs) \<and> sent s' = sent s @ take n bs"
proof (cases "bs = []")
  case True
  with assms show ?thesis by (simp add: copy_chunk_def)
next
  case False
  obtain m em t where w: "wr bs s = (m, em, t)" by (cases "wr bs s")
  from wr_sink [OF \<open>okw s\<close> False w] assms False w show ?thesis
    by (auto simp add: copy_chunk_def split: if_splits)
qed

end

interpretation conn_end: endpoint conn_read conn_content conn_final "\<lambda>c. length (conn_content c)" conn_ok
  conn_write tx "\<lambda>_. True" conn_close conn_close_write
  by unfold_locales
    (auto simp add: src_stable_def snk_stable_def conn_close_def conn_close_write_def conn_content_def
      conn_final_def conn_ok_def err_closed_def dest!: conn_write_step conn_read_frame)

definition tcp_conn :: "conn net_conn" where
  "tcp_conn = \<lparr>nc_read = conn_read, nc_write = conn_write, nc_close = conn_close, nc_close_write = conn_close_write\<rparr>"

section \<open>One direction\<close>

text \<open>
  What holds of the direction from \<open>s\<close> to \<open>t\<close> at every moment: the sink has been given a prefix \<open>x\<close> of the
  bytes \<open>U\<close> the source had at the start; what is in the goroutine's buffer and what is still to come
  continue it; and a clean end of the copy means that everything was delivered.
\<close>

definition link_inv ::
  "('s \<Rightarrow> byte list) \<Rightarrow> ('s \<Rightarrow> go_error) \<Rightarrow> ('s \<Rightarrow> bool) \<Rightarrow> ('t \<Rightarrow> byte list) \<Rightarrow> ('t \<Rightarrow> bool) \<Rightarrow>
   byte list \<Rightarrow> go_error \<Rightarrow> byte list \<Rightarrow> copier \<Rightarrow> 's \<Rightarrow> 't \<Rightarrow> bool"
  where
  "link_inv content final ok sent okw U F T0 g s t \<longleftrightarrow>
     okw t \<and> (\<exists>x. sent t = T0 @ x \<and>
       (case g of
          Copying w \<Rightarrow> w = length x \<and> ok s \<and> prefix (x @ content s) U
            \<and> (final s = EOF \<longrightarrow> x @ content s = U \<and> F = EOF)
        | Flushing w bs er \<Rightarrow> w = length x \<and>
            (case er of
               None \<Rightarrow> ok s \<and> prefix (x @ bs @ content s) U
                 \<and> (final s = EOF \<longrightarrow> x @ bs @ content s = U \<and> F = EOF)
             | Some e \<Rightarrow> prefix (x @ bs) U \<and> (e = EOF \<longrightarrow> x @ bs = U \<and> F = EOF))
        | Copied w e \<Rightarrow> w = length x \<and> prefix x U \<and> (e = None \<longrightarrow> x = U \<and> F = EOF)
        | Signalled w e \<Rightarrow> w = length x \<and> prefix x U \<and> (e = None \<longrightarrow> x = U \<and> F = EOF)))"

lemma link_inv_start:
  "okw t \<Longrightarrow> ok s \<Longrightarrow> link_inv content final ok sent okw (content s) (final s) (sent t) (Copying 0) s t"
  by (auto simp add: link_inv_def)

lemma link_inv_done:
  "link_inv content final ok sent okw U F T0 (Copied w e) s t \<Longrightarrow>
   link_inv content final ok sent okw U F T0 (Signalled w e) s t"
  by (simp add: link_inv_def)

lemma link_inv_src:
  assumes "link_inv content final ok sent okw U F T0 g s t" "src_stable content final ok s s'"
  shows "link_inv content final ok sent okw U F T0 g s' t"
proof -
  have st: "ok s \<Longrightarrow> ok s'" "ok s \<Longrightarrow> prefix (content s') (content s)"
    "ok s \<Longrightarrow> final s' = EOF \<Longrightarrow> final s = EOF \<and> content s' = content s"
    using assms(2) by (auto simp add: src_stable_def)
  have pre: "prefix (y @ content s') U" if "prefix (y @ content s) U" "ok s" for y
    using that st(2) by (meson prefix_order.trans same_prefix_prefix)
  show ?thesis
  proof (cases g)
    case (Copying w)
    with assms(1) st pre show ?thesis by (auto simp add: link_inv_def)
  next
    case (Flushing w bs er)
    show ?thesis
    proof (cases er)
      case None
      with assms(1) Flushing obtain x where "okw t" "sent t = T0 @ x" "w = length x" "ok s"
        "prefix (x @ bs @ content s) U" "final s = EOF \<longrightarrow> x @ bs @ content s = U \<and> F = EOF"
        by (auto simp add: link_inv_def)
      with st pre [of "x @ bs"] Flushing None show ?thesis by (auto simp add: link_inv_def)
    qed (use assms(1) Flushing in \<open>simp add: link_inv_def\<close>)
  qed (use assms(1) in \<open>simp_all add: link_inv_def\<close>)
qed

lemma link_inv_snk:
  "link_inv content final ok sent okw U F T0 g s t \<Longrightarrow> snk_stable sent okw t t' \<Longrightarrow>
   link_inv content final ok sent okw U F T0 g s t'"
  by (simp add: link_inv_def snk_stable_def)

context byte_source
begin

lemma link_inv_read:
  assumes "link_inv content final ok sent okw U F T0 (Copying w) s t" "rd k s = Some (bs, er, s')" "0 < k"
  shows "link_inv content final ok sent okw U F T0 (Flushing w bs er) s' t"
proof -
  from assms(1) have "ok s" by (auto simp add: link_inv_def)
  from rd_step [OF this assms(3)] assms(2) have
    "er = None \<longrightarrow> ok s' \<and> content s = bs @ content s' \<and> final s' = final s"
    "\<forall>e. er = Some e \<longrightarrow> e = final s \<and> content s = bs" by auto
  with assms(1) show ?thesis by (cases er) (auto simp add: link_inv_def)
qed

end

context endpoint
begin

lemma link_inv_write:
  assumes "link_inv content' final' ok' sent okw U F T0 (Flushing w bs er) s t"
    "copy_chunk wr bs t = (nw, ew, t')"
  shows "link_inv content' final' ok' sent okw U F T0 (after_write w nw er ew) s t'"
proof -
  from assms(1) obtain x where x: "okw t" "sent t = T0 @ x" "w = length x"
    by (auto simp add: link_inv_def)
  from copy_chunk_snk [OF x(1) assms(2)] have c: "okw t'" "nw \<le> length bs" "ew = None \<longrightarrow> nw = length bs"
    "sent t' = T0 @ (x @ take nw bs)" using x(2) by auto
  have pre: "prefix (x @ take nw bs) U" if "prefix (x @ bs @ y) U" for y
  proof -
    have "prefix (x @ take nw bs) (x @ bs @ y)" by (simp add: take_is_prefix prefix_prefix)
    then show ?thesis using that by (rule prefix_order.trans)
  qed
  show ?thesis
  proof (cases ew)
    case (Some e)
    have "prefix (x @ take nw bs) U"
      using assms(1) x(2) pre [of "content' s"] pre [of "[]"]
      by (cases er) (auto simp add: link_inv_def)
    with Some x(3) c show ?thesis by (auto simp add: link_inv_def after_write_def)
  next
    case None
    with c have n: "nw = length bs" by simp
    show ?thesis
      using assms(1) None n x c by (cases er) (auto simp add: link_inv_def after_write_def)
  qed
qed

end

section \<open>Both directions\<close>

definition copier_measure :: "nat \<Rightarrow> copier \<Rightarrow> nat" where
  "copier_measure r g =
     (case g of
        Copying w \<Rightarrow> 2 * r + 3
      | Flushing w bs er \<Rightarrow> (case er of None \<Rightarrow> 2 * r + 4 | Some e \<Rightarrow> 2)
      | Copied w e \<Rightarrow> 1
      | Signalled w e \<Rightarrow> 0)"

definition main_measure :: "relay_main \<Rightarrow> nat" where
  "main_measure m = (case m of Waiting \<Rightarrow> 2 | Returning \<Rightarrow> 1 | Returned \<Rightarrow> 0)"

lemma copier_measure_mono: "r' \<le> r \<Longrightarrow> copier_measure r' g \<le> copier_measure r g"
  by (auto simp add: copier_measure_def split: copier.split option.split)

lemma after_write_measure:
  "copier_measure r (after_write w nw er ew) < copier_measure r (Flushing w' bs er)"
  by (auto simp add: copier_measure_def after_write_def split: option.split)

text \<open>The measure: a goroutine's own step makes its part fall, and no step makes the other's part grow.\<close>

lemma read_measure:
  assumes "byte_source rd content final rank ok" "ok s" "rd k s = Some (bs, er, s')" "0 < k"
  shows "copier_measure (rank s') (Flushing w bs er) < copier_measure (rank s) (Copying v)"
  using byte_source.rd_step [OF assms(1,2,4)] assms(3)
  by (cases er) (auto simp add: copier_measure_def)

text \<open>Only a goroutine that still reads, or will read again, depends on the rank of its source.\<close>

definition still_reads :: "copier \<Rightarrow> bool" where
  "still_reads g = (case g of Copying w \<Rightarrow> True | Flushing w bs er \<Rightarrow> er = None | _ \<Rightarrow> False)"

lemma other_measure:
  "(still_reads g \<Longrightarrow> r' \<le> r) \<Longrightarrow> copier_measure r' g \<le> copier_measure r g"
  by (cases g) (auto simp add: still_reads_def copier_measure_def split: option.split)

lemma link_inv_reads: "link_inv content final ok sent okw U F T0 g s t \<Longrightarrow> still_reads g \<Longrightarrow> ok s"
  by (cases g) (auto simp add: link_inv_def still_reads_def)


locale relay_pair =
  client: endpoint rdc contc finc rankc okc wrc sentc okwc clc cwc +
  target: endpoint rdt contt fint rankt okt wrt sentt okwt clt cwt
  for rdc :: "nat \<Rightarrow> 'a \<Rightarrow> (byte list \<times> go_error option \<times> 'a) option"
    and contc :: "'a \<Rightarrow> byte list" and finc :: "'a \<Rightarrow> go_error" and rankc :: "'a \<Rightarrow> nat"
    and okc :: "'a \<Rightarrow> bool" and wrc :: "byte list \<Rightarrow> 'a \<Rightarrow> nat \<times> go_error option \<times> 'a"
    and sentc :: "'a \<Rightarrow> byte list" and okwc :: "'a \<Rightarrow> bool" and clc :: "'a \<Rightarrow> 'a" and cwc :: "'a \<Rightarrow> 'a"
    and rdt :: "nat \<Rightarrow> 'b \<Rightarrow> (byte list \<times> go_error option \<times> 'b) option"
    and contt :: "'b \<Rightarrow> byte list" and fint :: "'b \<Rightarrow> go_error" and rankt :: "'b \<Rightarrow> nat"
    and okt :: "'b \<Rightarrow> bool" and wrt :: "byte list \<Rightarrow> 'b \<Rightarrow> nat \<times> go_error option \<times> 'b"
    and sentt :: "'b \<Rightarrow> byte list" and okwt :: "'b \<Rightarrow> bool" and clt :: "'b \<Rightarrow> 'b" and cwt :: "'b \<Rightarrow> 'b"

context relay_pair
begin

definition "client_nc = \<lparr>nc_read = rdc, nc_write = wrc, nc_close = clc, nc_close_write = cwc\<rparr>"
definition "target_nc = \<lparr>nc_read = rdt, nc_write = wrt, nc_close = clt, nc_close_write = cwt\<rparr>"

definition up_inv :: "'a \<Rightarrow> 'b \<Rightarrow> ('a, 'b) relay \<Rightarrow> bool" where
  "up_inv c0 t0 R \<longleftrightarrow> link_inv contc finc okc sentt okwt (contc c0) (finc c0) (sentt t0) (r_up R) (r_client R) (r_target R)"

definition down_inv :: "'a \<Rightarrow> 'b \<Rightarrow> ('a, 'b) relay \<Rightarrow> bool" where
  "down_inv c0 t0 R \<longleftrightarrow> link_inv contt fint okt sentc okwc (contt t0) (fint t0) (sentc c0) (r_down R) (r_target R) (r_client R)"

definition relay_measure :: "('a, 'b) relay \<Rightarrow> nat" where
  "relay_measure R = copier_measure (rankc (r_client R)) (r_up R) + copier_measure (rankt (r_target R)) (r_down R)
     + main_measure (r_main R)"

text \<open>
  One step, from a state where the invariant holds: it holds again, and the measure falls. What one
  goroutine does to a connection is harmless to the other: these are the laws of \<open>endpoint\<close>.
\<close>

lemma up_source_ok: "up_inv c0 t0 R \<Longrightarrow> r_up R = Copying w \<Longrightarrow> okc (r_client R)"
  by (auto simp add: up_inv_def link_inv_def)

lemma down_source_ok: "down_inv c0 t0 R \<Longrightarrow> r_down R = Copying w \<Longrightarrow> okt (r_target R)"
  by (auto simp add: down_inv_def link_inv_def)

lemma relay_step_inv:
  assumes "relay_step client_nc target_nc R S" "up_inv c0 t0 R" "down_inv c0 t0 R"
  shows "up_inv c0 t0 S \<and> down_inv c0 t0 S"
proof -
  note up = assms(2) [unfolded up_inv_def] and down = assms(3) [unfolded down_inv_def]
  note defs = up_inv_def down_inv_def client_nc_def target_nc_def
  from assms(1) show ?thesis
  proof (cases rule: relay_step.cases)
    case (up_read w bs er c)
    have r: "rdc 32768 (r_client R) = Some (bs, er, c)" using up_read by (simp add: client_nc_def)
    have "snk_stable sentc okwc (r_client R) c"
      by (rule client.read_snk [OF r up_source_ok [OF assms(2) up_read(2)]]) simp
    from client.link_inv_read [OF up [unfolded up_read(2)] r] link_inv_snk [OF down this] up_read(1)
    show ?thesis by (simp add: defs)
  next
    case (up_write w bs er nw ew t)
    have c: "copy_chunk wrt bs (r_target R) = (nw, ew, t)" using up_write by (simp add: target_nc_def)
    from target.link_inv_write [OF up [unfolded up_write(2)] c] up_write(1)
      link_inv_src [OF down conjunct1 [OF target.copy_chunk_src [OF c]]]
    show ?thesis by (simp add: defs)
  next
    case (up_done w e)
    from link_inv_snk [OF link_inv_done [OF up [unfolded up_done(2)]] target.close_write_snk] up_done(1)
      link_inv_src [OF down conjunct1 [OF target.close_write_src]]
    show ?thesis by (simp add: defs)
  next
    case (down_read w bs er t)
    have r: "rdt 32768 (r_target R) = Some (bs, er, t)" using down_read by (simp add: target_nc_def)
    have "snk_stable sentt okwt (r_target R) t"
      by (rule target.read_snk [OF r down_source_ok [OF assms(3) down_read(2)]]) simp
    from target.link_inv_read [OF down [unfolded down_read(2)] r] link_inv_snk [OF up this] down_read(1)
    show ?thesis by (simp add: defs)
  next
    case (down_write w bs er nw ew c)
    have c: "copy_chunk wrc bs (r_client R) = (nw, ew, c)" using down_write by (simp add: client_nc_def)
    from client.link_inv_write [OF down [unfolded down_write(2)] c] down_write(1)
      link_inv_src [OF up conjunct1 [OF client.copy_chunk_src [OF c]]]
    show ?thesis by (simp add: defs)
  next
    case (down_done w e)
    from link_inv_done [OF down [unfolded down_done(2)]] up down_done(1) show ?thesis by (simp add: defs)
  next
    case main_returns
    from link_inv_snk [OF up target.close_snk] link_inv_src [OF down conjunct1 [OF target.close_src]] main_returns(1)
    show ?thesis by (simp add: defs)
  next
    case main_closes
    from link_inv_snk [OF down client.close_snk] link_inv_src [OF up conjunct1 [OF client.close_src]] main_closes(1)
    show ?thesis by (simp add: defs)
  qed
qed

lemma relay_step_measure:
  assumes "relay_step client_nc target_nc R S" "up_inv c0 t0 R" "down_inv c0 t0 R"
  shows "relay_measure S < relay_measure R"
proof -
  note okc = link_inv_reads [OF assms(2) [unfolded up_inv_def]]
    and okt = link_inv_reads [OF assms(3) [unfolded down_inv_def]]
  note defs = relay_measure_def client_nc_def target_nc_def
  from assms(1) show ?thesis
  proof (cases rule: relay_step.cases)
    case (up_read w bs er c)
    have "rdc 32768 (r_client R) = Some (bs, er, c)" using up_read by (simp add: client_nc_def)
    from read_measure [OF client.byte_source_axioms up_source_ok [OF assms(2) up_read(2)] this, of w w] up_read(1,2)
    show ?thesis by (simp add: defs)
  next
    case (up_write w bs er nw ew t)
    have "copy_chunk wrt bs (r_target R) = (nw, ew, t)" using up_write by (simp add: target_nc_def)
    from target.copy_chunk_src [OF this] okt
    have "copier_measure (rankt t) (r_down R) \<le> copier_measure (rankt (r_target R)) (r_down R)"
      by (intro other_measure) blast
    with after_write_measure [of "rankc (r_client R)" w nw er ew w bs] up_write(1,2) show ?thesis
      by (simp add: defs)
  next
    case (up_done w e)
    have "copier_measure (rankt (cwt (r_target R))) (r_down R) \<le> copier_measure (rankt (r_target R)) (r_down R)"
      using target.close_write_src okt by (intro other_measure) blast
    with up_done(1,2) show ?thesis by (simp add: defs copier_measure_def)
  next
    case (down_read w bs er t)
    have "rdt 32768 (r_target R) = Some (bs, er, t)" using down_read by (simp add: target_nc_def)
    from read_measure [OF target.byte_source_axioms down_source_ok [OF assms(3) down_read(2)] this, of w w] down_read(1,2)
    show ?thesis by (simp add: defs)
  next
    case (down_write w bs er nw ew c)
    have "copy_chunk wrc bs (r_client R) = (nw, ew, c)" using down_write by (simp add: client_nc_def)
    from client.copy_chunk_src [OF this] okc
    have "copier_measure (rankc c) (r_up R) \<le> copier_measure (rankc (r_client R)) (r_up R)"
      by (intro other_measure) blast
    with after_write_measure [of "rankt (r_target R)" w nw er ew w bs] down_write(1,2) show ?thesis
      by (simp add: defs)
  next
    case (down_done w e)
    then show ?thesis by (simp add: defs copier_measure_def)
  next
    case main_returns
    have "copier_measure (rankt (clt (r_target R))) (r_down R) \<le> copier_measure (rankt (r_target R)) (r_down R)"
      using target.close_src okt by (intro other_measure) blast
    with main_returns(1,2) show ?thesis by (simp add: defs main_measure_def)
  next
    case main_closes
    have "copier_measure (rankc (clc (r_client R))) (r_up R) \<le> copier_measure (rankc (r_client R)) (r_up R)"
      using client.close_src okc by (intro other_measure) blast
    with main_closes show ?thesis by (simp add: defs main_measure_def)
  qed
qed

text \<open>Lifted to runs: the invariant at every moment, and no run longer than the measure of its start.\<close>

lemma relay_start_inv:
  "okc c \<Longrightarrow> okwc c \<Longrightarrow> okt t \<Longrightarrow> okwt t \<Longrightarrow> up_inv c t (relay_start c t) \<and> down_inv c t (relay_start c t)"
  by (simp add: up_inv_def down_inv_def relay_start_def link_inv_start)

lemma relay_reaches_inv:
  assumes "relay_reaches client_nc target_nc R S" "up_inv c0 t0 R" "down_inv c0 t0 R"
  shows "up_inv c0 t0 S \<and> down_inv c0 t0 S"
  using assms(1) unfolding relay_reaches_def
proof (induction rule: rtranclp_induct)
  case base
  show ?case using assms(2,3) by simp
next
  case (step S T)
  then show ?case using relay_step_inv by blast
qed

lemma relay_no_infinite_run:
  assumes "up_inv c0 t0 (f 0)" "down_inv c0 t0 (f 0)"
  shows "\<exists>i. \<not> relay_step client_nc target_nc (f i) (f (Suc i))"
proof (rule ccontr)
  assume "\<not> ?thesis"
  then have step: "relay_step client_nc target_nc (f i) (f (Suc i))" for i by blast
  have inv: "up_inv c0 t0 (f i) \<and> down_inv c0 t0 (f i)" for i
    using assms relay_step_inv [OF step] by (induction i) auto
  have "relay_measure (f i) + i \<le> relay_measure (f 0)" for i
  proof (induction i)
    case (Suc i)
    with relay_step_measure [OF step [of i]] inv [of i] show ?case by fastforce
  qed simp
  from this [of "Suc (relay_measure (f 0))"] show False by simp
qed

text \<open>A relay that is not over can move.\<close>

lemma relay_progress:
  assumes "up_inv c0 t0 R" "down_inv c0 t0 R" "\<not> relay_over R"
  shows "\<exists>S. relay_step client_nc target_nc R S"
proof (cases "signalled (r_up R)")
  case False
  then consider w where "r_up R = Copying w" | w bs er where "r_up R = Flushing w bs er"
    | w e where "r_up R = Copied w e"
    by (cases "r_up R") (auto simp add: signalled_def)
  then show ?thesis
  proof cases
    case 1
    from client.rd_step [OF up_source_ok [OF assms(1) 1], of 32768] obtain bs er c where
      "rdc 32768 (r_client R) = Some (bs, er, c)" by auto
    with 1 show ?thesis using relay_step.up_read [of R w client_nc bs er c] by (auto simp add: client_nc_def)
  next
    case 2
    obtain nw ew t where w: "copy_chunk (nc_write target_nc) bs (r_target R) = (nw, ew, t)"
      by (cases "copy_chunk (nc_write target_nc) bs (r_target R)")
    show ?thesis by (intro exI) (rule relay_step.up_write [OF 2 w])
  next
    case 3
    show ?thesis by (intro exI) (rule relay_step.up_done [OF 3])
  qed
next
  case up: True
  show ?thesis
  proof (cases "signalled (r_down R)")
    case True
    with up assms(3) have "r_main R = Waiting \<or> r_main R = Returning"
      by (cases "r_main R") (auto simp add: relay_over_def)
    then show ?thesis using relay_step.main_returns [of R] relay_step.main_closes [of R] up by metis
  next
    case False
    then consider w where "r_down R = Copying w" | w bs er where "r_down R = Flushing w bs er"
      | w e where "r_down R = Copied w e"
      by (cases "r_down R") (auto simp add: signalled_def)
    then show ?thesis
    proof cases
      case 1
      from target.rd_step [OF down_source_ok [OF assms(2) 1], of 32768] obtain bs er t where
        "rdt 32768 (r_target R) = Some (bs, er, t)" by auto
      with 1 show ?thesis using relay_step.down_read [of R w target_nc bs er t] by (auto simp add: target_nc_def)
    next
      case 2
      obtain nw ew c where w: "copy_chunk (nc_write client_nc) bs (r_client R) = (nw, ew, c)"
        by (cases "copy_chunk (nc_write client_nc) bs (r_client R)")
      show ?thesis by (intro exI) (rule relay_step.down_write [OF 2 w])
    next
      case 3
      show ?thesis by (intro exI) (rule relay_step.down_done [OF 3])
    qed
  qed
qed

text \<open>So from any moment the relay can be carried on to its end.\<close>

lemma relay_completes:
  "up_inv c0 t0 R \<Longrightarrow> down_inv c0 t0 R \<Longrightarrow> \<exists>S. relay_reaches client_nc target_nc R S \<and> relay_over S"
proof (induction "relay_measure R" arbitrary: R rule: less_induct)
  case less
  show ?case
  proof (cases "relay_over R")
    case True
    then show ?thesis by (auto simp add: relay_reaches_def)
  next
    case False
    from relay_progress [OF less.prems False] obtain S where S: "relay_step client_nc target_nc R S" by blast
    from less.hyps [OF relay_step_measure [OF S less.prems]] relay_step_inv [OF S less.prems]
    obtain T where "relay_reaches client_nc target_nc S T" "relay_over T" by blast
    with S show ?thesis
      unfolding relay_reaches_def by (blast intro: converse_rtranclp_into_rtranclp)
  qed
qed

end

section \<open>One goroutine alone is io.Copy\<close>

lemma relay_reaches_step: "relay_step A B R S \<Longrightarrow> relay_reaches A B S T \<Longrightarrow> relay_reaches A B R T"
  unfolding relay_reaches_def by (rule converse_rtranclp_into_rtranclp)

lemma relay_reaches_refl: "relay_reaches A B R R"
  by (simp add: relay_reaches_def)

lemma relay_reaches_trans: "relay_reaches A B R S \<Longrightarrow> relay_reaches A B S T \<Longrightarrow> relay_reaches A B R T"
  unfolding relay_reaches_def by (rule rtranclp_trans)

text \<open>
  Runs of the first goroutine alone: steps that move neither the other goroutine nor the function that waits
  (every step of these changes its own position).
\<close>

definition up_alone :: "'a net_conn \<Rightarrow> 'b net_conn \<Rightarrow> ('a, 'b) relay \<Rightarrow> ('a, 'b) relay \<Rightarrow> bool" where
  "up_alone A B = (\<lambda>R S. relay_step A B R S \<and> r_down S = r_down R \<and> r_main S = r_main R)\<^sup>*\<^sup>*"

lemma up_alone_step:
  "relay_step A B R S \<Longrightarrow> r_down S = r_down R \<Longrightarrow> r_main S = r_main R \<Longrightarrow> up_alone A B S T \<Longrightarrow> up_alone A B R T"
  unfolding up_alone_def by (rule converse_rtranclp_into_rtranclp [of _ R S]) simp_all

lemma up_alone_refl: "up_alone A B R R"
  by (simp add: up_alone_def)

lemma up_alone_trans: "up_alone A B R S \<Longrightarrow> up_alone A B S T \<Longrightarrow> up_alone A B R T"
  unfolding up_alone_def by (rule rtranclp_trans)

lemma up_alone_reaches: "up_alone A B R S \<Longrightarrow> relay_reaches A B R S"
  unfolding up_alone_def relay_reaches_def by (rule rtranclp_mono [THEN predicate2D, rotated]) auto

text \<open>A read and the write after it are one round of the loop of \<open>io_copy\<close>, on a joint state.\<close>

lemma up_round:
  assumes "r_up R = Copying w" "nc_read A 32768 (r_client R) = Some (bs, er, c)"
    and "copy_chunk (nc_write B) bs (r_target R) = (nw, ew, t)"
  shows "up_alone A B R (R\<lparr>r_client := c, r_target := t, r_up := after_write w nw er ew\<rparr>)"
proof -
  let ?S = "R\<lparr>r_client := c, r_up := Flushing w bs er\<rparr>"
  have r: "relay_step A B R ?S" using assms(1,2) by (rule up_read)
  have w: "relay_step A B ?S (?S\<lparr>r_target := t, r_up := after_write w nw er ew\<rparr>)"
    using assms(3) by (intro up_write) simp_all
  have "up_alone A B ?S (?S\<lparr>r_target := t, r_up := after_write w nw er ew\<rparr>)"
    by (rule up_alone_step [OF w _ _ up_alone_refl]) simp_all
  then have "up_alone A B R (?S\<lparr>r_target := t, r_up := after_write w nw er ew\<rparr>)"
    by (rule up_alone_step [OF r, rotated 2]) simp_all
  then show ?thesis by simp
qed

lemma copy_chunk_wr_snd:
  "copy_chunk (wr_snd wr) bs s = (case copy_chunk wr bs (snd s) of (nw, ew, t) \<Rightarrow> (nw, ew, (fst s, t)))"
  by (auto simp add: copy_chunk_def wr_snd_def split: prod.split)

lemma io_copy_loop_up:
  assumes "io_copy_loop rd wr w s = Some y"
  shows "\<forall>R. rd = rd_fst (nc_read A) \<longrightarrow> wr = wr_snd (nc_write B) \<longrightarrow> s = (r_client R, r_target R) \<longrightarrow>
    r_up R = Copying w \<longrightarrow>
    up_alone A B R (R\<lparr>r_client := fst (snd (snd y)), r_target := snd (snd (snd y)),
      r_up := Copied (fst y) (fst (snd y))\<rparr>)"
proof (rule io_copy_loop.raw_induct [OF _ assms], goal_cases)
  case (1 loop rd wr w s y)
  show ?case
  proof (intro allI impI)
    fix R :: "('a, 'b) relay"
    assume *: "rd = rd_fst (nc_read A)" "wr = wr_snd (nc_write B)" "s = (r_client R, r_target R)"
      "r_up R = Copying w"
    obtain bs er c where r: "nc_read A 32768 (r_client R) = Some (bs, er, c)"
      using 1(2) * by (cases "nc_read A 32768 (r_client R)") (auto simp add: rd_fst_def)
    obtain nw ew t where c: "copy_chunk (nc_write B) bs (r_target R) = (nw, ew, t)"
      by (cases "copy_chunk (nc_write B) bs (r_target R)")
    note round = up_round [OF *(4) r c]
    show "up_alone A B R (R\<lparr>r_client := fst (snd (snd y)), r_target := snd (snd (snd y)),
      r_up := Copied (fst y) (fst (snd y))\<rparr>)"
    proof (cases "ew = None \<and> er = None")
      case False
      then show ?thesis
        using round 1(2) * r c
        by (auto simp add: rd_fst_def copy_chunk_wr_snd after_write_def split: option.splits)
    next
      case True
      let ?S = "R\<lparr>r_client := c, r_target := t, r_up := Copying (w + nw)\<rparr>"
      have "loop rd wr (w + nw) (c, t) = Some y"
        using 1(2) * r c True by (simp add: rd_fst_def copy_chunk_wr_snd)
      from 1(1) [OF this, rule_format, of ?S] *(1,2) have
        "up_alone A B ?S (R\<lparr>r_client := fst (snd (snd y)), r_target := snd (snd (snd y)),
          r_up := Copied (fst y) (fst (snd y))\<rparr>)" by simp
      moreover have "up_alone A B R ?S" using round True by (simp add: after_write_def)
      ultimately show ?thesis using up_alone_trans by blast
    qed
  qed
qed

lemma up_alone_copy:
  assumes "r_up R = Copying 0"
    and "io_copy (rd_fst (nc_read A)) (wr_snd (nc_write B)) (r_client R, r_target R) = Some (n, e, c', t')"
  shows "up_alone A B R (R\<lparr>r_client := c', r_target := t', r_up := Copied n e\<rparr>)"
  using io_copy_loop_up [OF assms(2) [unfolded io_copy_def], rule_format, of A B R] assms(1) by simp

lemmas relay_copy = up_alone_copy [THEN up_alone_reaches]

text \<open>
  Conversely, what the goroutine has still to do determines the outcome: the rest of its \<open>io_copy\<close> from where
  it stands does not change from step to step.
\<close>

definition up_rest :: "'a net_conn \<Rightarrow> 'b net_conn \<Rightarrow> ('a, 'b) relay \<Rightarrow> (nat \<times> go_error option \<times> 'a \<times> 'b) option" where
  "up_rest A B R =
     (let loop = io_copy_loop (rd_fst (nc_read A)) (wr_snd (nc_write B));
          go = (\<lambda>g c t. case g of Copying w \<Rightarrow> loop w (c, t) | Copied w e \<Rightarrow> Some (w, e, c, t) | _ \<Rightarrow> None)
      in case r_up R of
           Flushing w bs er \<Rightarrow>
             (case copy_chunk (nc_write B) bs (r_target R) of (nw, ew, t) \<Rightarrow> go (after_write w nw er ew) (r_client R) t)
         | g \<Rightarrow> go g (r_client R) (r_target R))"

lemma up_rest_read:
  assumes "r_up R = Copying w" "nc_read A 32768 (r_client R) = Some (bs, er, c)"
  shows "up_rest A B (R\<lparr>r_client := c, r_up := Flushing w bs er\<rparr>) = up_rest A B R"
proof -
  obtain nw ew t where c: "copy_chunk (nc_write B) bs (r_target R) = (nw, ew, t)"
    by (cases "copy_chunk (nc_write B) bs (r_target R)")
  have r: "rd_fst (nc_read A) 32768 (r_client R, r_target R) = Some (bs, er, c, r_target R)"
    using assms(2) by (simp add: rd_fst_def)
  have w: "copy_chunk (wr_snd (nc_write B)) bs (c, r_target R) = (nw, ew, c, t)"
    using c by (simp add: copy_chunk_wr_snd)
  show ?thesis
    using assms(1) c r w
    by (simp add: up_rest_def Let_def io_copy_loop.simps [of "rd_fst (nc_read A)" _ w] after_write_def split: option.split)
qed

lemma up_rest_write:
  assumes "r_up R = Flushing w bs er" "copy_chunk (nc_write B) bs (r_target R) = (nw, ew, t)"
  shows "up_rest A B (R\<lparr>r_target := t, r_up := after_write w nw er ew\<rparr>) = up_rest A B R"
  using assms by (simp add: up_rest_def Let_def after_write_def split: option.split)

lemma up_alone_inv:
  assumes "up_alone A B (relay_start c t) R"
  shows "r_down R = Copying 0 \<and> r_main R = Waiting
    \<and> (\<not> signalled (r_up R) \<and> r_log R = [] \<and> up_rest A B R = up_rest A B (relay_start c t)
       \<or> (\<exists>n e c' t'. up_rest A B (relay_start c t) = Some (n, e, c', t')
            \<and> R = (relay_start c t)\<lparr>r_client := c', r_target := nc_close_write B t', r_up := Signalled n e,
                    r_log := [BytesIn n]\<rparr>))"
  using assms unfolding up_alone_def
proof (induction rule: rtranclp_induct)
  case base
  show ?case by (simp add: relay_start_def signalled_def)
next
  case (step R S)
  have same: "r_down S = r_down R" "r_main S = r_main R" using step.hyps(2) by simp_all
  show ?case
  proof (cases "signalled (r_up R)")
    case True
    then obtain n e where "r_up R = Signalled n e" by (auto simp add: signalled_def split: copier.splits)
    with step.hyps(2) step.IH same show ?thesis by (auto elim!: relay_stepE)
  next
    case False
    then have R: "r_down R = Copying 0" "r_main R = Waiting" "r_log R = []"
      "up_rest A B R = up_rest A B (relay_start c t)"
      using step.IH by (auto simp add: signalled_def)
    from step.hyps(2) have "relay_step A B R S" by simp
    then show ?thesis
    proof (cases rule: relay_step.cases)
      case (up_read w bs er c)
      with R up_rest_read [OF up_read(2,3)] show ?thesis by (simp add: signalled_def)
    next
      case (up_write w bs er nw ew t)
      with R up_rest_write [OF up_write(2,3)] show ?thesis
        by (simp add: signalled_def after_write_def split: option.split)
    next
      case (up_done w e)
      then have rest: "up_rest A B (relay_start c t) = Some (w, e, r_client R, r_target R)"
        using R(4) by (simp add: up_rest_def)
      have "S = (relay_start c t)\<lparr>r_client := r_client R, r_target := nc_close_write B (r_target R),
          r_up := Signalled w e, r_log := [BytesIn w]\<rparr>"
        using R up_done by (cases R) (simp add: relay_start_def)
      with rest R(1,2) same show ?thesis by auto
    qed (use R same in simp_all)
  qed
qed

text \<open>
  A property of the client's connection that its own methods keep is kept by the whole relay (here: the
  keys, and what was sent before).
\<close>

lemma relay_client_preserved:
  assumes "relay_reaches A B R S" "P (r_client R)"
    and "\<And>c bs e c'. P c \<Longrightarrow> nc_read A 32768 c = Some (bs, e, c') \<Longrightarrow> P c'"
    and "\<And>bs c n e c'. P c \<Longrightarrow> nc_write A bs c = (n, e, c') \<Longrightarrow> P c'"
    and "\<And>c. P c \<Longrightarrow> P (nc_close A c)"
  shows "P (r_client S)"
  using assms(1) unfolding relay_reaches_def
proof (induction rule: rtranclp_induct)
  case base
  show ?case by (rule assms(2))
next
  case (step S T)
  have chunk: "P c'" if "P c" "copy_chunk (nc_write A) bs c = (n, e, c')" for bs c n e c'
    using that assms(4) [OF that(1)] by (auto simp add: copy_chunk_def split: if_splits prod.splits option.splits)
  from step.hyps(2) step.IH show ?case
    by (cases rule: relay_step.cases) (auto intro: assms(3,5) chunk)
qed

section \<open>What is reported\<close>

definition reported :: "('a, 'b) relay \<Rightarrow> relay_event multiset" where
  "reported R =
     (case r_up R of Signalled w e \<Rightarrow> {#BytesIn w#} | _ \<Rightarrow> {#})
     + (case r_down R of Signalled w e \<Rightarrow> {#BytesOut w#} | _ \<Rightarrow> {#})
     + (if r_main R = Waiting then {#} else {#RelayOver#})"

lemma after_write_not_signalled: "after_write w nw er ew \<noteq> Signalled v e"
  by (simp add: after_write_def split: option.split)

lemma relay_step_reported:
  "relay_step A B R S \<Longrightarrow> mset (r_log R) = reported R \<Longrightarrow> mset (r_log S) = reported S"
  by (induction rule: relay_step.induct)
    (auto simp add: reported_def after_write_def split: option.split)

lemma relay_reaches_reported:
  "relay_reaches A B (relay_start c t) R \<Longrightarrow> mset (r_log R) = reported R"
  unfolding relay_reaches_def
proof (induction rule: rtranclp_induct)
  case base
  show ?case by (simp add: reported_def relay_start_def)
next
  case (step R S)
  then show ?case by (blast intro: relay_step_reported)
qed

section \<open>Properties\<close>

definition iface :: "'s reader \<Rightarrow> 's writer \<Rightarrow> ('s \<Rightarrow> 's) \<Rightarrow> ('s \<Rightarrow> 's) \<Rightarrow> 's net_conn" where
  "iface rd wr cl cw = \<lparr>nc_read = rd, nc_write = wr, nc_close = cl, nc_close_write = cw\<rparr>"

text \<open>
  The relay between any two endpoints: the four relays of the program differ only in these (an MTProto client
  and a TCP socket, two TCP sockets, a QUIC stream and a TCP socket, and the reverse).
\<close>

lemma endpoints_pair:
  assumes "endpoint rd content final rank ok wr sent okw cl cw"
    and "endpoint rd' content' final' rank' ok' wr' sent' okw' cl' cw'"
  shows "relay_pair rd content final rank ok wr sent okw cl cw rd' content' final' rank' ok' wr' sent' okw' cl' cw'"
    and "relay_pair.client_nc rd wr cl cw = iface rd wr cl cw"
    and "relay_pair.target_nc rd' wr' cl' cw' = iface rd' wr' cl' cw'"
proof -
  show pair: "relay_pair rd content final rank ok wr sent okw cl cw rd' content' final' rank' ok' wr' sent' okw' cl' cw'"
    by (intro relay_pair.intro assms)
  show "relay_pair.client_nc rd wr cl cw = iface rd wr cl cw"
    "relay_pair.target_nc rd' wr' cl' cw' = iface rd' wr' cl' cw'"
    using relay_pair.client_nc_def [OF pair] relay_pair.target_nc_def [OF pair] by (simp_all add: iface_def)
qed

lemma endpoints_relay_inv:
  assumes "endpoint rd content final rank ok wr sent okw cl cw"
    and "endpoint rd' content' final' rank' ok' wr' sent' okw' cl' cw'"
    and "ok c" "okw c" "ok' t" "okw' t"
    and "relay_reaches (iface rd wr cl cw) (iface rd' wr' cl' cw') (relay_start c t) R"
  shows "link_inv content final ok sent' okw' (content c) (final c) (sent' t) (r_up R) (r_client R) (r_target R)"
    and "link_inv content' final' ok' sent okw (content' t) (final' t) (sent c) (r_down R) (r_target R) (r_client R)"
    and "relay_over R \<or> (\<exists>S. relay_step (iface rd wr cl cw) (iface rd' wr' cl' cw') R S)"
proof -
  note pair = endpoints_pair [OF assms(1,2)]
  note start = relay_pair.relay_start_inv [OF pair(1), OF assms(3,4,5,6)]
  note inv = relay_pair.relay_reaches_inv [OF pair(1), unfolded pair(2,3), OF assms(7)
      conjunct1 [OF start] conjunct2 [OF start]]
  show "link_inv content final ok sent' okw' (content c) (final c) (sent' t) (r_up R) (r_client R) (r_target R)"
    using inv relay_pair.up_inv_def [OF pair(1)] by blast
  show "link_inv content' final' ok' sent okw (content' t) (final' t) (sent c) (r_down R) (r_target R) (r_client R)"
    using inv relay_pair.down_inv_def [OF pair(1)] by blast
  show "relay_over R \<or> (\<exists>S. relay_step (iface rd wr cl cw) (iface rd' wr' cl' cw') R S)"
    using relay_pair.relay_progress [OF pair(1), unfolded pair(2,3)] inv by blast
qed

definition copier_result :: "copier \<Rightarrow> (nat \<times> go_error option) option" where
  "copier_result g = (case g of Copied w e \<Rightarrow> Some (w, e) | Signalled w e \<Rightarrow> Some (w, e) | _ \<Rightarrow> None)"

lemma link_inv_result:
  assumes "link_inv content final ok sent okw U F T0 g s t"
  shows "\<exists>x. sent t = T0 @ x \<and> prefix x U
    \<and> (\<forall>w e. copier_result g = Some (w, e) \<longrightarrow> w = length x \<and> (e = None \<longrightarrow> x = U \<and> F = EOF))"
proof -
  obtain x where x: "sent t = T0 @ x" and g: "case g of
          Copying w \<Rightarrow> w = length x \<and> ok s \<and> prefix (x @ content s) U
            \<and> (final s = EOF \<longrightarrow> x @ content s = U \<and> F = EOF)
        | Flushing w bs er \<Rightarrow> w = length x \<and>
            (case er of
               None \<Rightarrow> ok s \<and> prefix (x @ bs @ content s) U
                 \<and> (final s = EOF \<longrightarrow> x @ bs @ content s = U \<and> F = EOF)
             | Some e \<Rightarrow> prefix (x @ bs) U \<and> (e = EOF \<longrightarrow> x @ bs = U \<and> F = EOF))
        | Copied w e \<Rightarrow> w = length x \<and> prefix x U \<and> (e = None \<longrightarrow> x = U \<and> F = EOF)
        | Signalled w e \<Rightarrow> w = length x \<and> prefix x U \<and> (e = None \<longrightarrow> x = U \<and> F = EOF)"
    using assms unfolding link_inv_def by (elim conjE exE)
  have "prefix x U"
  proof (cases g)
    case (Copying w)
    with g have "prefix (x @ content s) U" by simp
    then show ?thesis by (rule append_prefixD)
  next
    case (Flushing w bs er)
    show ?thesis
    proof (cases er)
      case None
      with g Flushing have "prefix (x @ bs @ content s) U" by simp
      then show ?thesis by (rule append_prefixD)
    next
      case (Some e)
      with g Flushing have "prefix (x @ bs) U" by simp
      then show ?thesis by (rule append_prefixD)
    qed
  qed (use g in simp_all)
  moreover have "\<forall>w e. copier_result g = Some (w, e) \<longrightarrow> w = length x \<and> (e = None \<longrightarrow> x = U \<and> F = EOF)"
    using g by (cases g) (simp_all add: copier_result_def)
  ultimately show ?thesis using x by (intro exI [of _ x] conjI)
qed

lemma endpoints_relay_completes:
  assumes "endpoint rd content final rank ok wr sent okw cl cw"
    and "endpoint rd' content' final' rank' ok' wr' sent' okw' cl' cw'"
    and "ok c" "okw c" "ok' t" "okw' t"
  shows "\<exists>R. relay_reaches (iface rd wr cl cw) (iface rd' wr' cl' cw') (relay_start c t) R \<and> relay_over R"
proof -
  note pair = endpoints_pair [OF assms(1,2)]
  note start = relay_pair.relay_start_inv [OF pair(1), OF assms(3,4,5,6)]
  show ?thesis
    by (rule relay_pair.relay_completes [OF pair(1), unfolded pair(2,3), OF conjunct1 [OF start] conjunct2 [OF start]])
qed

lemma endpoints_no_infinite_run:
  assumes "endpoint rd content final rank ok wr sent okw cl cw"
    and "endpoint rd' content' final' rank' ok' wr' sent' okw' cl' cw'"
    and "ok c" "okw c" "ok' t" "okw' t"
  shows "\<not> (\<exists>f. f 0 = relay_start c t \<and> (\<forall>i. relay_step (iface rd wr cl cw) (iface rd' wr' cl' cw') (f i) (f (Suc i))))"
proof -
  note pair = endpoints_pair [OF assms(1,2)]
  show ?thesis
    using relay_pair.relay_no_infinite_run [OF pair(1), unfolded pair(2,3)]
      relay_pair.relay_start_inv [OF pair(1), OF assms(3,4,5,6)] by metis
qed

text \<open>A relay that is over has reported what its two sinks were given.\<close>

lemma relay_over_log:
  assumes "link_inv content final ok sent okw U F T0 (r_up R) (r_client R) (r_target R)"
    and "link_inv content' final' ok' sent' okw' U' F' T0' (r_down R) (r_target R) (r_client R)"
    and "relay_reaches A B (relay_start c t) R" "relay_over R"
  shows "\<exists>x y. sent (r_target R) = T0 @ x \<and> sent' (r_client R) = T0' @ y
    \<and> mset (r_log R) = {#BytesIn (length x), BytesOut (length y), RelayOver#}"
proof -
  obtain w e v f where s: "r_up R = Signalled w e" "r_down R = Signalled v f" "r_main R = Returned"
    using assms(4) by (auto simp add: relay_over_def signalled_def split: copier.splits)
  obtain x where x: "sent (r_target R) = T0 @ x"
    "\<forall>w e. copier_result (r_up R) = Some (w, e) \<longrightarrow> w = length x \<and> (e = None \<longrightarrow> x = U \<and> F = EOF)"
    using link_inv_result [OF assms(1)] by (elim exE conjE)
  obtain y where y: "sent' (r_client R) = T0' @ y"
    "\<forall>w e. copier_result (r_down R) = Some (w, e) \<longrightarrow> w = length y \<and> (e = None \<longrightarrow> y = U' \<and> F' = EOF)"
    using link_inv_result [OF assms(2)] by (elim exE conjE)
  have "w = length x" "v = length y"
    using x(2) [rule_format, of w e] y(2) [rule_format, of v f] s by (simp_all add: copier_result_def)
  then have "mset (r_log R) = {#BytesIn (length x), BytesOut (length y), RelayOver#}"
    using relay_reaches_reported [OF assms(3)] s by (simp add: reported_def)
  with x(1) y(1) show ?thesis by blast
qed

text \<open>C3. A relay never invents, drops in the middle, repeats or reorders a byte: at every moment of every
  interleaving, with connections failing or being closed at any point, what the target has been sent is a
  prefix of what the client sent, and what the client can decode of what was sent to it is a prefix of the
  target's answer. A copy that has ended counts exactly the bytes it delivered, and if it ended without an
  error its source had come to a clean end and everything was delivered.\<close>

theorem relay_delivers_prefixes:
  assumes "endpoint rd content final rank ok wr sent okw cl cw"
    and "endpoint rd' content' final' rank' ok' wr' sent' okw' cl' cw'"
    and "ok c" "okw c" "ok' t" "okw' t"
    and "relay_reaches (iface rd wr cl cw) (iface rd' wr' cl' cw') (relay_start c t) R"
  shows "\<exists>x y. sent' (r_target R) = sent' t @ x \<and> prefix x (content c)
    \<and> sent (r_client R) = sent c @ y \<and> prefix y (content' t)
    \<and> (\<forall>w e. copier_result (r_up R) = Some (w, e) \<longrightarrow>
        w = length x \<and> (e = None \<longrightarrow> x = content c \<and> final c = EOF))
    \<and> (\<forall>w e. copier_result (r_down R) = Some (w, e) \<longrightarrow>
        w = length y \<and> (e = None \<longrightarrow> y = content' t \<and> final' t = EOF))"
  using link_inv_result [OF endpoints_relay_inv(1) [OF assms]] link_inv_result [OF endpoints_relay_inv(2) [OF assms]]
  by (elim exE conjE) (intro exI conjI)

text \<open>C4. A relay ends: there is no infinite run, and as long as a goroutine has not signalled or the
  connections are not both closed, some step is possible; so every run that goes on as long as it can stops
  with both copies ended, both signals sent and both connections closed, having reported exactly the bytes
  delivered in each direction, once each, and its own end.\<close>

theorem relay_ends:
  assumes "endpoint rd content final rank ok wr sent okw cl cw"
    and "endpoint rd' content' final' rank' ok' wr' sent' okw' cl' cw'"
    and "ok c" "okw c" "ok' t" "okw' t"
  shows "\<not> (\<exists>f. f 0 = relay_start c t \<and> (\<forall>i. relay_step (iface rd wr cl cw) (iface rd' wr' cl' cw') (f i) (f (Suc i))))
    \<and> (\<forall>R. relay_reaches (iface rd wr cl cw) (iface rd' wr' cl' cw') (relay_start c t) R \<longrightarrow>
      (relay_over R \<or> (\<exists>S. relay_step (iface rd wr cl cw) (iface rd' wr' cl' cw') R S))
      \<and> (relay_over R \<longrightarrow> (\<exists>x y. sent' (r_target R) = sent' t @ x \<and> sent (r_client R) = sent c @ y
          \<and> mset (r_log R) = {#BytesIn (length x), BytesOut (length y), RelayOver#})))"
proof (intro conjI allI impI)
  show "\<not> (\<exists>f. f 0 = relay_start c t \<and> (\<forall>i. relay_step (iface rd wr cl cw) (iface rd' wr' cl' cw') (f i) (f (Suc i))))"
    by (rule endpoints_no_infinite_run [OF assms])
  fix R assume r: "relay_reaches (iface rd wr cl cw) (iface rd' wr' cl' cw') (relay_start c t) R"
  show "relay_over R \<or> (\<exists>S. relay_step (iface rd wr cl cw) (iface rd' wr' cl' cw') R S)"
    by (rule endpoints_relay_inv(3) [OF assms r])
  assume over: "relay_over R"
  show "\<exists>x y. sent' (r_target R) = sent' t @ x \<and> sent (r_client R) = sent c @ y
      \<and> mset (r_log R) = {#BytesIn (length x), BytesOut (length y), RelayOver#}"
    by (rule relay_over_log [OF endpoints_relay_inv(1,2) [OF assms r] r over])
qed

text \<open>The instance that the SOCKS5 server uses: a TCP connection on either side.\<close>

interpretation conn_pair: relay_pair
  conn_read conn_content conn_final "\<lambda>c. length (conn_content c)" conn_ok conn_write tx "\<lambda>_. True" conn_close conn_close_write
  conn_read conn_content conn_final "\<lambda>c. length (conn_content c)" conn_ok conn_write tx "\<lambda>_. True" conn_close conn_close_write
  by unfold_locales

lemma tcp_conn_iface: "tcp_conn = iface conn_read conn_write conn_close conn_close_write"
  by (simp add: tcp_conn_def iface_def)

theorem relay_delivers_prefixes_witness:
  "\<exists>R x y. relay_reaches tcp_conn tcp_conn
      (relay_start (new_conn [[1, 2], [3]] EOF) (new_conn [[7]] (ErrText ''reset''))) R
    \<and> relay_over R \<and> tx (r_target R) = x \<and> prefix x [1, 2, 3] \<and> tx (r_client R) = y \<and> prefix y [7]"
proof -
  let ?c = "new_conn [[1, 2], [3]] EOF" and ?t = "new_conn [[7]] (ErrText ''reset'')"
  have ok: "conn_ok ?c" "conn_ok ?t" by (simp_all add: new_conn_def conn_ok_def)
  obtain R where R: "relay_reaches tcp_conn tcp_conn (relay_start ?c ?t) R" "relay_over R"
    using endpoints_relay_completes [OF conn_end.endpoint_axioms conn_end.endpoint_axioms, OF ok(1) TrueI ok(2) TrueI]
    unfolding tcp_conn_iface by blast
  show ?thesis
    using relay_delivers_prefixes [OF conn_end.endpoint_axioms conn_end.endpoint_axioms, OF ok(1) TrueI ok(2) TrueI
        R(1) [unfolded tcp_conn_iface]] R
    by (intro exI [of _ R]) (simp add: new_conn_def conn_content_def)
qed

theorem relay_ends_witness:
  "\<not> (\<exists>f. f 0 = relay_start (new_conn [[1, 2], [3]] EOF) (new_conn [[7]] (ErrText ''reset''))
    \<and> (\<forall>i. relay_step tcp_conn tcp_conn (f i) (f (Suc i))))"
proof -
  let ?c = "new_conn [[1, 2], [3]] EOF" and ?t = "new_conn [[7]] (ErrText ''reset'')"
  have ok: "conn_ok ?c" "conn_ok ?t" by (simp_all add: new_conn_def conn_ok_def)
  note r = relay_ends [OF conn_end.endpoint_axioms conn_end.endpoint_axioms, OF ok(1) TrueI ok(2) TrueI, folded tcp_conn_iface]
  show ?thesis by (rule conjunct1 [OF r])
qed

text \<open>C20. What the first goroutine of the relay does when the other side stays quiet (\<^verbatim>\<open>server.go\<close>, lines 170 to
  180): run alone, it comes to its signal exactly if \<^verbatim>\<open>io.Copy\<close> from the client's connection to the target's
  returns, and then always in the same state: the two connections as \<^verbatim>\<open>io.Copy\<close> left them, the target's closed
  for writing, whether or not there was an error, and exactly the returned count reported, once.\<close>

theorem relay_up_is_io_copy:
  "up_alone A B (relay_start c t) R \<and> signalled (r_up R) \<longleftrightarrow>
    (\<exists>n e c' t'. io_copy (rd_fst (nc_read A)) (wr_snd (nc_write B)) (c, t) = Some (n, e, c', t')
      \<and> R = (relay_start c t)\<lparr>r_client := c', r_target := nc_close_write B t', r_up := Signalled n e,
              r_log := [BytesIn n]\<rparr>)"
proof -
  have total: "up_rest A B (relay_start c t) = io_copy (rd_fst (nc_read A)) (wr_snd (nc_write B)) (c, t)"
    by (simp add: up_rest_def relay_start_def io_copy_def)
  show ?thesis
  proof
    assume "up_alone A B (relay_start c t) R \<and> signalled (r_up R)"
    with up_alone_inv [of A B c t R] total show "\<exists>n e c' t'.
        io_copy (rd_fst (nc_read A)) (wr_snd (nc_write B)) (c, t) = Some (n, e, c', t')
      \<and> R = (relay_start c t)\<lparr>r_client := c', r_target := nc_close_write B t', r_up := Signalled n e,
              r_log := [BytesIn n]\<rparr>" by auto
  next
    assume "\<exists>n e c' t'. io_copy (rd_fst (nc_read A)) (wr_snd (nc_write B)) (c, t) = Some (n, e, c', t')
      \<and> R = (relay_start c t)\<lparr>r_client := c', r_target := nc_close_write B t', r_up := Signalled n e,
              r_log := [BytesIn n]\<rparr>"
    then obtain n e c' t' where io: "io_copy (rd_fst (nc_read A)) (wr_snd (nc_write B)) (c, t) = Some (n, e, c', t')"
      and R: "R = (relay_start c t)\<lparr>r_client := c', r_target := nc_close_write B t', r_up := Signalled n e,
              r_log := [BytesIn n]\<rparr>" by blast
    let ?C = "(relay_start c t)\<lparr>r_client := c', r_target := t', r_up := Copied n e\<rparr>"
    have "up_alone A B (relay_start c t) ?C"
      using up_alone_copy [of "relay_start c t"] io by (simp add: relay_start_def)
    moreover have "relay_step A B ?C R"
      using relay_step.up_done [of ?C n e A B] by (simp add: R relay_start_def)
    then have "up_alone A B ?C R" by (rule up_alone_step [OF _ _ _ up_alone_refl]) (simp_all add: R)
    ultimately have "up_alone A B (relay_start c t) R" by (rule up_alone_trans)
    then show "up_alone A B (relay_start c t) R \<and> signalled (r_up R)" by (simp add: R signalled_def)
  qed
qed

theorem relay_up_is_io_copy_witness:
  "\<exists>R. up_alone tcp_conn tcp_conn (relay_start (new_conn [[1, 2], [3]] EOF) (new_conn [] EOF)) R
    \<and> r_up R = Signalled 3 None \<and> tx (r_target R) = [1, 2, 3] \<and> wr_closed (r_target R) \<and> r_log R = [BytesIn 3]"
proof -
  have "io_copy (rd_fst (nc_read tcp_conn)) (wr_snd (nc_write tcp_conn)) (new_conn [[1, 2], [3]] EOF, new_conn [] EOF) =
    Some (3, None, new_conn [] EOF, (new_conn [] EOF)\<lparr>tx := [1, 2, 3]\<rparr>)"
    by (simp add: io_copy_def io_copy_loop.simps tcp_conn_def rd_fst_def wr_snd_def copy_chunk_def conn_read_def
        conn_write_def new_conn_def)
  then have "up_alone tcp_conn tcp_conn (relay_start (new_conn [[1, 2], [3]] EOF) (new_conn [] EOF))
      ((relay_start (new_conn [[1, 2], [3]] EOF) (new_conn [] EOF))\<lparr>r_client := new_conn [] EOF,
        r_target := nc_close_write tcp_conn ((new_conn [] EOF)\<lparr>tx := [1, 2, 3]\<rparr>), r_up := Signalled 3 None,
        r_log := [BytesIn 3]\<rparr>)" (is "up_alone _ _ _ ?R")
    using relay_up_is_io_copy [of tcp_conn tcp_conn "new_conn [[1, 2], [3]] EOF" "new_conn [] EOF" ?R] by blast
  then show ?thesis
    by (intro exI [of _ ?R]) (simp add: conn_close_write_def tcp_conn_def)
qed

text \<open>C24. The relay returns at the first signal, so a client that half-closes its side after its request can
  lose the answer: over two TCP connections on which nothing fails, with an answer on its way, there is a
  run in which the target is given the whole request and its end of stream, the client nothing at all, and
  the relay is over with both connections closed.\<close>

theorem half_close_loses_answer:
  assumes "req \<noteq> []" "length req \<le> 32768" "answer \<noteq> []"
  shows "\<exists>R. relay_reaches tcp_conn tcp_conn (relay_start (new_conn [req] EOF) (new_conn [answer] EOF)) R
    \<and> relay_over R \<and> tx (r_target R) = req \<and> wr_closed (r_target R) \<and> tx (r_client R) = []
    \<and> closed (r_target R) \<and> closed (r_client R)"
proof -
  let ?c = "new_conn [req] EOF" and ?t = "new_conn [answer] EOF"
  let ?c1 = "?c\<lparr>rx := []\<rparr>" and ?t1 = "?t\<lparr>tx := req\<rparr>"
  let ?R0 = "relay_start ?c ?t"
  let ?R1 = "?R0\<lparr>r_client := ?c1, r_target := ?t1, r_up := Copied (length req) None\<rparr>"
  let ?R2 = "?R1\<lparr>r_target := conn_close_write ?t1, r_up := Signalled (length req) None, r_log := [BytesIn (length req)]\<rparr>"
  let ?R3 = "?R2\<lparr>r_target := conn_close (conn_close_write ?t1), r_main := Returning,
    r_log := [BytesIn (length req), RelayOver]\<rparr>"
  let ?R4 = "?R3\<lparr>r_client := conn_close ?c1, r_main := Returned\<rparr>"
  let ?R5 = "?R4\<lparr>r_down := Flushing 0 [] (Some err_closed)\<rparr>"
  let ?R6 = "?R5\<lparr>r_down := Copied 0 (Some err_closed)\<rparr>"
  let ?R7 = "?R6\<lparr>r_down := Signalled 0 (Some err_closed), r_log := [BytesIn (length req), RelayOver, BytesOut 0]\<rparr>"
  have "io_copy (rd_fst (nc_read tcp_conn)) (wr_snd (nc_write tcp_conn)) (?c, ?t) = Some (length req, None, ?c1, ?t1)"
    using assms(1,2)
    by (simp add: io_copy_def io_copy_loop.simps tcp_conn_def rd_fst_def wr_snd_def copy_chunk_def conn_read_def
        conn_write_def new_conn_def)
  then have "relay_reaches tcp_conn tcp_conn ?R0 ?R1"
    using relay_copy [of ?R0 tcp_conn tcp_conn] by (simp add: relay_start_def)
  moreover have "relay_step tcp_conn tcp_conn ?R1 ?R2"
    using relay_step.up_done [of ?R1 "length req" None tcp_conn tcp_conn] by (simp add: tcp_conn_def relay_start_def)
  moreover have "relay_step tcp_conn tcp_conn ?R2 ?R3"
    using relay_step.main_returns [of ?R2 tcp_conn tcp_conn]
    by (simp add: tcp_conn_def relay_start_def signalled_def)
  moreover have "relay_step tcp_conn tcp_conn ?R3 ?R4"
    using relay_step.main_closes [of ?R3 tcp_conn tcp_conn] by (simp add: tcp_conn_def)
  moreover have "relay_step tcp_conn tcp_conn ?R4 ?R5"
    using relay_step.down_read [of ?R4 0 tcp_conn "[]" "Some err_closed" "r_target ?R4" tcp_conn]
    by (simp add: tcp_conn_def relay_start_def conn_read_def conn_close_def)
  moreover have "relay_step tcp_conn tcp_conn ?R5 ?R6"
  proof -
    have "relay_step tcp_conn tcp_conn ?R5
        (?R5\<lparr>r_client := r_client ?R5, r_down := after_write 0 0 (Some err_closed) None\<rparr>)"
      by (rule relay_step.down_write [where bs = "[]"]) (simp_all add: copy_chunk_def)
    then show ?thesis by (simp add: after_write_def err_closed_def relay_start_def)
  qed
  moreover have "relay_step tcp_conn tcp_conn ?R6 ?R7"
    using relay_step.down_done [of ?R6 0 "Some err_closed" tcp_conn tcp_conn] by simp
  ultimately have "relay_reaches tcp_conn tcp_conn ?R0 ?R7"
    unfolding relay_reaches_def by (meson rtranclp.rtrancl_into_rtrancl)
  then show ?thesis
    by (intro exI [of _ ?R7])
      (simp add: relay_over_def signalled_def conn_close_def conn_close_write_def new_conn_def)
qed

theorem half_close_loses_answer_witness:
  "\<exists>R. relay_reaches tcp_conn tcp_conn (relay_start (new_conn [[1, 2]] EOF) (new_conn [[7]] EOF)) R
    \<and> relay_over R \<and> tx (r_target R) = [1, 2] \<and> tx (r_client R) = []"
  using half_close_loses_answer [of "[1, 2]" "[7]"] by auto

end
