(* ===== verification/ClientConn.thy ===== *)
theory ClientConn
  imports FakeTLS Relay
begin

text \<open>
  The two values of type \<^verbatim>\<open>net.Conn\<close> that \<^verbatim>\<open>handle\<close> relays for, \<^verbatim>\<open>obfuscatedConn\<close> and \<^verbatim>\<open>fakeTLSConn\<close>, as one
  type, and the proof that both keep the contract \<open>endpoint\<close> of a relay: what the writing goroutine or a
  close does to the connection does not disturb the reading one, and conversely.
\<close>

section \<open>The obfuscated connection\<close>

text \<open>\<^verbatim>\<open>SetDeadline\<close>, and calls of \<^verbatim>\<open>rawConn.Close\<close> while the wrapper is in use, act on the embedded socket.\<close>

definition set_deadline :: "int option \<Rightarrow> conn \<Rightarrow> conn" where
  "set_deadline d c = c\<lparr>deadline := d\<rparr>"

definition pconn_map :: "(conn \<Rightarrow> conn) \<Rightarrow> pconn \<Rightarrow> pconn" where
  "pconn_map f p = p\<lparr>p_conn := f (p_conn p)\<rparr>"

definition obfs_map :: "(conn \<Rightarrow> conn) \<Rightarrow> obfs_conn \<Rightarrow> obfs_conn" where
  "obfs_map f c = c\<lparr>o_conn := pconn_map f (o_conn c)\<rparr>"

definition ft_map :: "(conn \<Rightarrow> conn) \<Rightarrow> faketls_conn \<Rightarrow> faketls_conn" where
  "ft_map f c = c\<lparr>f_conn := pconn_map f (f_conn c)\<rparr>"

lemma closed_content [simp]:
  "conn_content (conn_close c) = []" "conn_final (conn_close c) = err_closed" "conn_ok (conn_close c) = conn_ok c"
  "tx (conn_close c) = tx c" "stuck (conn_close c)"
  by (simp_all add: conn_content_def conn_final_def conn_ok_def conn_close_def stuck_def)

lemma pconn_close [simp]:
  "prepend_content (pconn_map conn_close p) = p_buf p" "prepend_final (pconn_map conn_close p) = err_closed"
  "prepend_ok (pconn_map conn_close p) = prepend_ok p" "p_conn (pconn_map f p) = f (p_conn p)"
  "p_buf (pconn_map f p) = p_buf p"
  by (simp_all add: pconn_map_def prepend_content_def prepend_final_def prepend_ok_def)

lemma err_closed_not_EOF [simp]: "err_closed \<noteq> EOF"
  by (simp add: err_closed_def)

lemma obfs_write_frame:
  assumes "obfs_write bs c = (n, e, c')"
  shows "obfs_content c' = obfs_content c" "obfs_final c' = obfs_final c" "obfs_ok c' = obfs_ok c"
proof -
  obtain buf where "prepend_write buf (o_conn c) = (n, e, o_conn c')" "o_enc c' = o_enc c"
    using assms by (auto simp add: obfs_write_def split: prod.splits)
  with prepend_write_source [OF this(1)]
  show "obfs_content c' = obfs_content c" "obfs_final c' = obfs_final c" "obfs_ok c' = obfs_ok c"
    by (simp_all add: obfs_content_def obfs_final_def obfs_ok_def)
qed

lemma stuck_prepend_skip: "stuck (p_conn (prepend_skip n p)) = stuck (p_conn p)"
  by (simp add: stuck_def)

interpretation obfs_end: endpoint obfs_read obfs_content obfs_final "\<lambda>c. length (obfs_content c)" obfs_ok
  obfs_write "obfs_sent t0" "obfs_in_step t0" "obfs_map conn_close" "\<lambda>c. c" for t0
proof
  fix c c' :: obfs_conn and k bs e
  assume "obfs_read k c = Some (bs, e, c')" "obfs_ok c" "0 < k"
  with obfs_src.rd_take [of c k] obtain n where "c' = obfs_skip n c" by auto
  then show "snk_stable (obfs_sent t0) (obfs_in_step t0) c c'"
    by (simp add: snk_stable_def obfs_sent_def obfs_in_step_def raw_conn_def obfs_skip_def stuck_prepend_skip)
next
  fix c c' :: obfs_conn and bs n e
  assume "obfs_write bs c = (n, e, c')"
  from obfs_write_frame [OF this]
  show "src_stable obfs_content obfs_final obfs_ok c c' \<and> (obfs_ok c \<longrightarrow> length (obfs_content c') \<le> length (obfs_content c))"
    by (simp add: src_stable_def)
next
  fix c :: obfs_conn
  have "prefix (fst (xor_key_stream (o_enc c) (p_buf (o_conn c)))) (obfs_content c)"
    by (simp add: obfs_content_def prepend_content_def aes_ctr.xk_append)
  moreover have "obfs_content (obfs_map conn_close c) = fst (xor_key_stream (o_enc c) (p_buf (o_conn c)))"
    by (simp add: obfs_content_def obfs_map_def)
  moreover have "length (fst (xor_key_stream (o_enc c) (p_buf (o_conn c)))) \<le> length (obfs_content c)"
    by (rule prefix_length_le) fact
  ultimately show "src_stable obfs_content obfs_final obfs_ok c (obfs_map conn_close c)
      \<and> (obfs_ok c \<longrightarrow> length (obfs_content (obfs_map conn_close c)) \<le> length (obfs_content c))"
    by (simp add: src_stable_def obfs_ok_def obfs_final_def del: length_obfs_content) (simp add: obfs_map_def)
  show "snk_stable (obfs_sent t0) (obfs_in_step t0) c (obfs_map conn_close c)"
    by (simp add: snk_stable_def obfs_sent_def obfs_in_step_def raw_conn_def obfs_map_def)
qed (simp_all add: src_stable_def snk_stable_def)

section \<open>The fake-TLS connection\<close>

lemma split_records_mono: "prefix (fst (split_records a)) (fst (split_records (a @ b)))"
proof (induction a rule: split_records.induct)
  case (1 bs)
  let ?n = "unat (be_uint16 (seg 3 5 bs))"
  show ?case
  proof (cases "length bs < 5 \<or> bs ! 0 \<noteq> tlsApplicationData \<or> length bs < 5 + ?n")
    case True
    from split_records_stop [OF this] show ?thesis by simp
  next
    case False
    then have h: "5 + ?n \<le> length bs" "bs ! 0 = tlsApplicationData" by auto
    note ih = "1.IH" [OF False refl]
    have "seg 3 5 (bs @ b) = seg 3 5 bs" "(bs @ b) ! 0 = bs ! 0"
      using h(1) by (auto simp add: seg_append1 nth_append)
    with split_records_step [of ?n "bs @ b"] split_records_step [OF h refl] h ih show ?thesis by simp
  qed
qed

lemma xk_mono: "prefix a b \<Longrightarrow> prefix (fst (xor_key_stream st a)) (fst (xor_key_stream st b))"
  by (auto simp add: prefix_def aes_ctr.xk_append)

lemma records_final_closed: "records_final err_closed bs \<noteq> EOF"
  by (simp add: records_final_def short_error_def err_not_appdata_def err_closed_def)

lemma ft_write_frame:
  assumes "faketls_write_loop k b c = (n, e, c')"
  shows "f_readBuf c' = f_readBuf c \<and> f_enc c' = f_enc c \<and> prepend_content (f_conn c') = prepend_content (f_conn c)
    \<and> prepend_final (f_conn c') = prepend_final (f_conn c) \<and> prepend_ok (f_conn c') = prepend_ok (f_conn c)"
  using assms
proof (induction k b c rule: faketls_write_loop.induct)
  case (1 k b c)
  obtain e1 c1 where w: "write_record (write_chunk b) c = (e1, c1)" by (cases "write_record (write_chunk b) c")
  obtain buf m where p: "prepend_write buf (f_conn c) = (m, e1, f_conn c1)"
    using w by (auto simp add: write_record_def Let_def split: prod.splits)
  note one = prepend_write_source [OF p] write_record_raw(3,4) [OF w]
  show ?case
  proof (cases "b = [] \<or> e1 \<noteq> None")
    case True
    with "1.prems" w one show ?thesis by (subst (asm) faketls_write_loop.simps) (auto simp add: Let_def split: if_splits)
  next
    case False
    with "1.prems" w have
      "faketls_write_loop (k + length (write_chunk b)) (drop (length (write_chunk b)) b) c1 = (n, e, c')"
      by (subst (asm) faketls_write_loop.simps) (simp add: Let_def)
    with "1.IH" [OF _ refl w [symmetric] _ this] False one show ?thesis by simp
  qed
qed

lemma ft_read_frame:
  assumes "ft_ok c" "faketls_read k c = Some (bs, e, c')"
  shows "f_dec c' = f_dec c \<and> tx (ft_raw c') = tx (ft_raw c) \<and> stuck (ft_raw c') = stuck (ft_raw c)
    \<and> ft_ok c'"
proof -
  have skipped: "\<exists>m. p = prepend_skip m (f_conn c) \<and> prepend_ok p"
    if "read_full prepend_read 5 (f_conn c) = Some (x, y, p)" for x y p
    using that assms(1) prepend_src.read_full_enough [of "f_conn c" 5] prepend_src.read_full_short [of "f_conn c" 5]
      prepend_src.ok_skip [of "f_conn c"]
    by (cases "5 \<le> length (prepend_content (f_conn c))") (auto simp add: ft_ok_def)
  have twice: "\<exists>m. q = prepend_skip m p" if "read_full prepend_read l p = Some (x, y, q)" "prepend_ok p" for x y p q l
    using that prepend_src.read_full_enough [of p l] prepend_src.read_full_short [of p l]
    by (cases "l \<le> length (prepend_content p)") auto
  have "f_dec c' = f_dec c \<and> (f_conn c' = f_conn c \<or> (\<exists>m. f_conn c' = prepend_skip m (f_conn c)))"
  proof (cases "f_readBuf c = []")
    case False
    with assms(2) show ?thesis by (auto simp add: faketls_read_def)
  next
    case True
    obtain x y p where r: "read_full prepend_read 5 (f_conn c) = Some (x, y, p)"
      using True assms(2) by (auto simp add: faketls_read_def split: bind_splits)
    obtain m where m: "p = prepend_skip m (f_conn c)" "prepend_ok p" using skipped [OF r] by blast
    consider (stop) "f_dec c' = f_dec c" "f_conn c' = p"
      | (body) l x' y' q where "read_full prepend_read l p = Some (x', y', q)" "f_dec c' = f_dec c" "f_conn c' = q"
      using True r assms(2)
      by (auto simp add: faketls_read_def Let_def split: bind_splits option.splits if_splits prod.splits)
    then show ?thesis
    proof cases
      case (body l x' y' q)
      then obtain l where "q = prepend_skip l p" using twice m(2) by blast
      then have "q = prepend_skip (m + l) (f_conn c)"
        using m(1) assms(1) by (simp add: prepend_src.skip_skip ft_ok_def)
      with body show ?thesis by blast
    qed (use m in blast)
  qed
  then show ?thesis
    using assms(1) by (auto simp add: ft_raw_def stuck_prepend_skip ft_ok_def prepend_src.ok_skip)
qed

interpretation ft_end: endpoint faketls_read ft_content ft_final ft_rank ft_ok
  faketls_write "ft_sent t0" "ft_in_step t0" "ft_map conn_close" "\<lambda>c. c" for t0
proof
  fix c c' :: faketls_conn and k bs e
  assume "faketls_read k c = Some (bs, e, c')" "ft_ok c" "0 < k"
  from ft_read_frame [OF this(2,1)]
  show "snk_stable (ft_sent t0) (ft_in_step t0) c c'"
    by (simp add: snk_stable_def ft_sent_def ft_in_step_def)
next
  fix c c' :: faketls_conn and bs n e
  assume "faketls_write bs c = (n, e, c')"
  from ft_write_frame [OF this [unfolded faketls_write_def]]
  show "src_stable ft_content ft_final ft_ok c c' \<and> (ft_ok c \<longrightarrow> ft_rank c' \<le> ft_rank c)"
    by (simp add: src_stable_def ft_content_def ft_final_def ft_ok_def ft_rank_def)
next
  fix c :: faketls_conn
  let ?c = "ft_map conn_close c"
  have f: "f_conn ?c = pconn_map conn_close (f_conn c)" "f_readBuf ?c = f_readBuf c" "f_enc ?c = f_enc c"
    "f_dec ?c = f_dec c" by (simp_all add: ft_map_def)
  have "prefix (ft_content ?c) (ft_content c)"
    using xk_mono [OF split_records_mono, of "f_enc c" "p_buf (f_conn c)" "conn_content (p_conn (f_conn c))"]
    by (simp add: ft_content_def f prepend_content_def)
  then show "src_stable ft_content ft_final ft_ok c ?c \<and> (ft_ok c \<longrightarrow> ft_rank ?c \<le> ft_rank c)"
    by (simp add: src_stable_def ft_ok_def ft_final_def f records_final_closed ft_rank_def)
      (simp add: prepend_content_def)
  show "snk_stable (ft_sent t0) (ft_in_step t0) c ?c"
    by (simp add: snk_stable_def ft_sent_def ft_in_step_def ft_raw_def f)
qed (simp_all add: src_stable_def snk_stable_def)

section \<open>Either of them\<close>

text \<open>The variable \<^verbatim>\<open>clientConn\<close> of \<^verbatim>\<open>handle\<close>, an interface value: its methods are those of the type it holds.\<close>

datatype client_conn = DDConn obfs_conn | EEConn faketls_conn

fun cc_read :: "nat \<Rightarrow> client_conn \<Rightarrow> (byte list \<times> go_error option \<times> client_conn) option" where
  "cc_read k (DDConn c) = map_option (\<lambda>(bs, e, c). (bs, e, DDConn c)) (obfs_read k c)"
| "cc_read k (EEConn c) = map_option (\<lambda>(bs, e, c). (bs, e, EEConn c)) (faketls_read k c)"

fun cc_write :: "byte list \<Rightarrow> client_conn \<Rightarrow> nat \<times> go_error option \<times> client_conn" where
  "cc_write bs (DDConn c) = (case obfs_write bs c of (n, e, c) \<Rightarrow> (n, e, DDConn c))"
| "cc_write bs (EEConn c) = (case faketls_write bs c of (n, e, c) \<Rightarrow> (n, e, EEConn c))"

text \<open>The raw connection below, and an operation on it (a deadline, a close).\<close>

fun cc_raw :: "client_conn \<Rightarrow> conn" where
  "cc_raw (DDConn c) = raw_conn c"
| "cc_raw (EEConn c) = ft_raw c"

fun cc_map :: "(conn \<Rightarrow> conn) \<Rightarrow> client_conn \<Rightarrow> client_conn" where
  "cc_map f (DDConn c) = DDConn (obfs_map f c)"
| "cc_map f (EEConn c) = EEConn (ft_map f c)"

fun cc_content :: "client_conn \<Rightarrow> byte list" where
  "cc_content (DDConn c) = obfs_content c"
| "cc_content (EEConn c) = ft_content c"

fun cc_final :: "client_conn \<Rightarrow> go_error" where
  "cc_final (DDConn c) = obfs_final c"
| "cc_final (EEConn c) = ft_final c"

fun cc_rank :: "client_conn \<Rightarrow> nat" where
  "cc_rank (DDConn c) = length (obfs_content c)"
| "cc_rank (EEConn c) = ft_rank c"

fun cc_ok :: "client_conn \<Rightarrow> bool" where
  "cc_ok (DDConn c) = obfs_ok c"
| "cc_ok (EEConn c) = ft_ok c"

text \<open>What the client decodes of the bytes its socket was sent after the first \<open>t0\<close>.\<close>

fun cc_sent :: "nat \<Rightarrow> client_conn \<Rightarrow> byte list" where
  "cc_sent t0 (DDConn c) = obfs_sent t0 c"
| "cc_sent t0 (EEConn c) = ft_sent t0 c"

fun cc_in_step :: "nat \<Rightarrow> client_conn \<Rightarrow> bool" where
  "cc_in_step t0 (DDConn c) = obfs_in_step t0 c"
| "cc_in_step t0 (EEConn c) = ft_in_step t0 c"

fun_cases cc_readE: "cc_read k c = Some (bs, e, c')"
fun_cases cc_writeE: "cc_write bs c = (n, e, c')"

lemma stable_DD [simp]:
  "src_stable cc_content cc_final cc_ok (DDConn c) (DDConn c') = src_stable obfs_content obfs_final obfs_ok c c'"
  "snk_stable (cc_sent t0) (cc_in_step t0) (DDConn c) (DDConn c') = snk_stable (obfs_sent t0) (obfs_in_step t0) c c'"
  by (simp_all add: src_stable_def snk_stable_def)

lemma stable_EE [simp]:
  "src_stable cc_content cc_final cc_ok (EEConn c) (EEConn c') = src_stable ft_content ft_final ft_ok c c'"
  "snk_stable (cc_sent t0) (cc_in_step t0) (EEConn c) (EEConn c') = snk_stable (ft_sent t0) (ft_in_step t0) c c'"
  by (simp_all add: src_stable_def snk_stable_def)

interpretation cc_end: endpoint cc_read cc_content cc_final cc_rank cc_ok
  cc_write "cc_sent t0" "cc_in_step t0" "cc_map conn_close" "\<lambda>c. c" for t0
proof
  fix s :: client_conn and k :: nat assume "cc_ok s" "0 < k"
  then show "\<exists>bs e s'. cc_read k s = Some (bs, e, s') \<and> length bs \<le> k
      \<and> (e = None \<longrightarrow> cc_ok s' \<and> cc_content s = bs @ cc_content s' \<and> cc_final s' = cc_final s \<and> cc_rank s' < cc_rank s)
      \<and> (\<forall>er. e = Some er \<longrightarrow> er = cc_final s \<and> cc_content s = bs)"
  proof (cases s)
    case (DDConn c)
    with \<open>cc_ok s\<close> \<open>0 < k\<close> obfs_src.source.rd_step [of c k] obtain bs e c' where "obfs_read k c = Some (bs, e, c')"
      "length bs \<le> k"
      "e = None \<longrightarrow> obfs_ok c' \<and> obfs_content c = bs @ obfs_content c' \<and> obfs_final c' = obfs_final c
        \<and> length (obfs_content c') < length (obfs_content c)"
      "\<forall>er. e = Some er \<longrightarrow> er = obfs_final c \<and> obfs_content c = bs" by auto
    with DDConn show ?thesis by (intro exI [of _ bs] exI [of _ e] exI [of _ "DDConn c'"])
      (auto simp del: length_obfs_content)
  next
    case (EEConn c)
    with \<open>cc_ok s\<close> \<open>0 < k\<close> ft_src.rd_step [of c k] obtain bs e c' where "faketls_read k c = Some (bs, e, c')"
      "length bs \<le> k"
      "e = None \<longrightarrow> ft_ok c' \<and> ft_content c = bs @ ft_content c' \<and> ft_final c' = ft_final c \<and> ft_rank c' < ft_rank c"
      "\<forall>er. e = Some er \<longrightarrow> er = ft_final c \<and> ft_content c = bs" by auto
    with EEConn show ?thesis by (intro exI [of _ bs] exI [of _ e] exI [of _ "EEConn c'"]) auto
  qed
next
  fix t t' :: client_conn and bs n e
  assume "cc_in_step t0 t" "bs \<noteq> []" "cc_write bs t = (n, e, t')"
  then show "cc_in_step t0 t' \<and> n \<le> length bs \<and> (e = None \<longrightarrow> n = length bs) \<and> cc_sent t0 t' = cc_sent t0 t @ take n bs"
  proof (cases t)
    case (DDConn c)
    then obtain c' where "obfs_write bs c = (n, e, c')" "t' = DDConn c'"
      using \<open>cc_write bs t = (n, e, t')\<close> by (auto split: prod.splits)
    with DDConn obfs_snk.wr_sink [of t0 c bs n e c'] \<open>cc_in_step t0 t\<close> \<open>bs \<noteq> []\<close> show ?thesis by simp
  next
    case (EEConn c)
    then obtain c' where "faketls_write bs c = (n, e, c')" "t' = EEConn c'"
      using \<open>cc_write bs t = (n, e, t')\<close> by (auto split: prod.splits)
    with EEConn ft_snk.wr_sink [of t0 c bs n e c'] \<open>cc_in_step t0 t\<close> \<open>bs \<noteq> []\<close> show ?thesis by simp
  qed
next
  fix s s' :: client_conn and k bs e
  assume a: "cc_read k s = Some (bs, e, s')" "cc_ok s" "0 < k"
  then show "snk_stable (cc_sent t0) (cc_in_step t0) s s'"
    by (cases s) (auto intro: obfs_end.read_snk ft_end.read_snk)
next
  fix s s' :: client_conn and bs n e
  assume a: "cc_write bs s = (n, e, s')"
  then show "src_stable cc_content cc_final cc_ok s s' \<and> (cc_ok s \<longrightarrow> cc_rank s' \<le> cc_rank s)"
  proof (cases s)
    case (DDConn c)
    then obtain c' where "obfs_write bs c = (n, e, c')" "s' = DDConn c'" using a by (auto split: prod.splits)
    with DDConn obfs_end.write_src [of bs c n e c'] show ?thesis by simp
  next
    case (EEConn c)
    then obtain c' where "faketls_write bs c = (n, e, c')" "s' = EEConn c'" using a by (auto split: prod.splits)
    with EEConn ft_end.write_src [of bs c n e c'] show ?thesis by simp
  qed
next
  fix s :: client_conn
  show "src_stable cc_content cc_final cc_ok s (cc_map conn_close s) \<and> (cc_ok s \<longrightarrow> cc_rank (cc_map conn_close s) \<le> cc_rank s)"
    using obfs_end.close_src ft_end.close_src by (cases s) auto
  show "snk_stable (cc_sent t0) (cc_in_step t0) s (cc_map conn_close s)"
    using obfs_end.close_snk ft_end.close_snk by (cases s) auto
qed (simp_all add: src_stable_def snk_stable_def)

interpretation server_pair: relay_pair
  cc_read cc_content cc_final cc_rank cc_ok cc_write "cc_sent t0" "cc_in_step t0" "cc_map conn_close" "\<lambda>c. c"
  conn_read conn_content conn_final "\<lambda>c. length (conn_content c)" conn_ok conn_write tx "\<lambda>_. True" conn_close conn_close_write
  for t0
  by unfold_locales

definition client_iface :: "client_conn net_conn" where
  "client_iface = \<lparr>nc_read = cc_read, nc_write = cc_write, nc_close = cc_map conn_close, nc_close_write = (\<lambda>c. c)\<rparr>"

lemma client_iface_iface: "client_iface = iface cc_read cc_write (cc_map conn_close) (\<lambda>c. c)"
  by (simp add: client_iface_def iface_def)

end
