(* ===== verification/Server.thy ===== *)
theory Server
  imports ClientConn Socks5 Stats
begin

text \<open>
  \<^verbatim>\<open>proxy/server.go\<close>: the handler of one TCP connection, from the detection of the protocol to the relay, the
  two accept loops and the start-up messages. The peer, the data centre and the dialled hosts are sockets of
  theory GoIO; \<^verbatim>\<open>net.DialTimeout\<close> is the parameter \<open>dial\<close>, the clock the parameter \<open>now\<close>, \<^verbatim>\<open>net.Listen\<close> the
  parameter \<open>bindErr\<close>; a connection comes from \<^verbatim>\<open>Accept\<close> with the \<open>world\<close> its handler meets.
\<close>

section \<open>The handler\<close>

text \<open>
  How a handler ends: closed before any relay (with the reason that is logged, the client's socket, and that
  of the data centre if it was dialled), or at one of the two relays.
\<close>

datatype end_reason =
    PeekError go_error
  | WrongProtocol string
  | HandshakeError go_error
  | UnknownDC go_error
  | ConnectError go_error
  | InitError go_error

datatype handled =
    Ended end_reason conn "conn option"
  | SocksOver conn
  | SocksRelaying conn conn
  | ProxyRelaying client_conn conn secret

text \<open>A SOCKS5 connection, on the main port or on its own: \<^verbatim>\<open>handleSOCKS5\<close>, then the deferred \<^verbatim>\<open>Close\<close>.\<close>

definition serve_socks :: "(string \<Rightarrow> go_error + conn) \<Rightarrow> byte list \<Rightarrow> conn \<Rightarrow> handled option" where
  "serve_socks dial peek conn =
     map_option (\<lambda>out. case out of
         SocksClosed c \<Rightarrow> SocksOver (conn_close c)
       | SocksRelay c t \<Rightarrow> SocksRelaying c t)
       (handleSOCKS5 dial peek conn)"

text \<open>The transport is chosen by the first byte; its result is a value of the interface type.\<close>

definition client_handshake :: "(string \<Rightarrow> string \<Rightarrow> bool) \<Rightarrow> random_reads \<Rightarrow> byte \<Rightarrow> pconn \<Rightarrow> secret list \<Rightarrow>
    ((go_error \<times> pconn) + (client_conn \<times> int16 \<times> secret \<times> byte list)) option" where
  "client_handshake uf rnd b pconn secrets =
     (if b = 0x16
      then map_option (map_sum id (map_prod EEConn id)) (newFakeTLSClientConn uf rnd pconn secrets)
      else map_option (map_sum id (map_prod DDConn id)) (newObfuscatedClientConn pconn secrets))"

text \<open>
  After the handshake: look up and dial the data centre, forward the init, clear the deadline. On every
  error both sockets are closed.
\<close>

definition connect_dc :: "(string \<Rightarrow> go_error + conn) \<Rightarrow> dc_list \<Rightarrow> client_conn \<Rightarrow> int16 \<Rightarrow> secret \<Rightarrow> byte list \<Rightarrow> handled" where
  "connect_dc dial dcs clientConn dcID secretUsed innerNonce =
     (let ended = (\<lambda>r d. Ended r (conn_close (cc_raw clientConn)) d)
      in case dc_get dcs dcID of
           Inl e \<Rightarrow> ended (UnknownDC e) None
         | Inr dcAddr \<Rightarrow>
             (case dial dcAddr of
                Inl e \<Rightarrow> ended (ConnectError e) None
              | Inr dcConn \<Rightarrow>
                  (case conn_write innerNonce dcConn of (n, err, dcConn) \<Rightarrow>
                     case err of
                       Some e \<Rightarrow> ended (InitError e) (Some (conn_close dcConn))
                     | None \<Rightarrow> ProxyRelaying (cc_map (set_deadline None) clientConn) dcConn secretUsed)))"

text \<open>The bytes \<^verbatim>\<open>G\<close>, \<^verbatim>\<open>P\<close>, \<^verbatim>\<open>C\<close>, \<^verbatim>\<open>D\<close>, \<^verbatim>\<open>H\<close>, taken for the start of an HTTP method.\<close>

definition http_bytes :: "byte list" where
  "http_bytes = [0x47, 0x50, 0x43, 0x44, 0x48]"

definition dispatch :: "(string \<Rightarrow> string \<Rightarrow> bool) \<Rightarrow> random_reads \<Rightarrow> (string \<Rightarrow> go_error + conn) \<Rightarrow> config \<Rightarrow> dc_list \<Rightarrow>
    byte list \<Rightarrow> conn \<Rightarrow> handled option" where
  "dispatch uf rnd dial cfg dcs peek rawConn =
     (if 1 \<le> length peek \<and> peek ! 0 = 0x05 then serve_socks dial peek rawConn
      else if 1 \<le> length peek \<and> peek ! 0 = 0x04
      then Some (Ended (WrongProtocol ''SOCKS4'') (conn_close rawConn) None)
      else if 1 \<le> length peek \<and> peek ! 0 \<in> set http_bytes
      then Some (Ended (WrongProtocol ''HTTP'') (conn_close rawConn) None)
      else do {
        b \<leftarrow> go_index peek 0;
        r \<leftarrow> client_handshake uf rnd b \<lparr>p_conn = rawConn, p_buf = peek\<rparr> (Secrets cfg);
        (case r of
           Inl (e, p) \<Rightarrow> Some (Ended (HandshakeError e) (conn_close (p_conn p)) None)
         | Inr (clientConn, dcID, secretUsed, innerNonce) \<Rightarrow>
             Some (connect_dc dial dcs clientConn dcID secretUsed innerNonce))
      })"

definition handle :: "(string \<Rightarrow> string \<Rightarrow> bool) \<Rightarrow> random_reads \<Rightarrow> (string \<Rightarrow> go_error + conn) \<Rightarrow> int \<Rightarrow> config \<Rightarrow> dc_list \<Rightarrow>
    conn \<Rightarrow> handled option" where
  "handle uf rnd dial now cfg dcs rawConn =
     Option.bind (read_at_least conn_read 4 1 (set_deadline (Some (now + sint (Timeout cfg))) rawConn))
       (\<lambda>(peek, err, rawConn).
         case err of
           Some e \<Rightarrow> Some (Ended (PeekError e) (conn_close rawConn) None)
         | None \<Rightarrow> dispatch uf rnd dial cfg dcs peek rawConn)"

section \<open>What the peek leaves\<close>

lemma set_deadline_simps [simp]:
  "conn_content (set_deadline d c) = conn_content c" "conn_final (set_deadline d c) = conn_final c"
  "conn_ok (set_deadline d c) = conn_ok c" "tx (set_deadline d c) = tx c" "deadline (set_deadline d c) = d"
  "open_writer (set_deadline d c) = open_writer c" "stuck (set_deadline d c) = stuck c"
  by (simp_all add: set_deadline_def conn_content_def conn_final_def conn_ok_def open_writer_def stuck_def)

lemma conn_skip_simps [simp]:
  "tx (conn_skip n c) = tx c" "deadline (conn_skip n c) = deadline c" "open_writer (conn_skip n c) = open_writer c"
  "closed (conn_skip n c) = closed c"
  by (simp_all add: conn_skip_def open_writer_def)

lemma handle_empty:
  assumes "conn_ok c" "conn_content c = []"
  shows "handle uf rnd dial now cfg dcs c =
    Some (Ended (PeekError (conn_final c)) (conn_close (set_deadline (Some (now + sint (Timeout cfg))) c)) None)"
  using conn_src.read_at_least_empty [of "set_deadline (Some (now + sint (Timeout cfg))) c" 1 4] assms
  by (simp add: handle_def)

text \<open>The first bytes, however many arrived at once, are put back: the stream is whole again.\<close>

lemma handle_peek:
  assumes "conn_ok c" "conn_content c \<noteq> []"
  obtains n p where "1 \<le> n" "n \<le> 4"
    "handle uf rnd dial now cfg dcs c = dispatch uf rnd dial cfg dcs (p_buf p) (p_conn p)"
    "p_buf p = take n (conn_content c)" "1 \<le> length (p_buf p)" "p_buf p ! 0 = hd (conn_content c)"
    "go_index (p_buf p) 0 = Some (hd (conn_content c))"
    "prepend_content p = conn_content c" "prepend_final p = conn_final c" "prepend_ok p"
    "tx (p_conn p) = tx c" "open_writer (p_conn p) = open_writer c"
    "deadline (p_conn p) = Some (now + sint (Timeout cfg))"
proof -
  let ?c = "set_deadline (Some (now + sint (Timeout cfg))) c"
  have "1 \<le> length (conn_content c)" using assms(2) by (cases "conn_content c") auto
  with conn_src.read_at_least_result [of ?c 1 4] assms obtain n where n: "1 \<le> n" "n \<le> 4"
    "n \<le> length (conn_content c)"
    "read_at_least conn_read 4 1 ?c = Some (take n (conn_content c), None, conn_skip n ?c)" by auto
  obtain b rest where b: "conn_content c = b # rest" using assms(2) by (cases "conn_content c") auto
  have t: "take n (conn_content c) ! 0 = b" "1 \<le> length (take n (conn_content c))" using n(1) b by (cases n; simp)+
  show thesis
  proof (rule that [OF n(1,2)])
    let ?p = "\<lparr>p_conn = conn_skip n ?c, p_buf = take n (conn_content c)\<rparr>"
    show "handle uf rnd dial now cfg dcs c = dispatch uf rnd dial cfg dcs (p_buf ?p) (p_conn ?p)"
      using n(4) by (simp add: handle_def)
    show "go_index (p_buf ?p) 0 = Some (hd (conn_content c))" using t b by (simp add: go_index_def)
  qed (use n t b assms(1) in \<open>simp_all add: prepend_content_def prepend_final_def prepend_ok_def
      conn_src.content_skip conn_src.final_skip conn_src.ok_skip\<close>)
qed

lemma pconn_eta [simp]: "\<lparr>p_conn = p_conn p, p_buf = p_buf p\<rparr> = (p :: pconn)"
  by (cases p) simp

section \<open>Every connection is handled\<close>

lemma client_handshake_returns:
  assumes "prepend_ok p"
  shows "\<exists>r. client_handshake uf rnd b p secrets = Some r"
proof -
  obtain r c where ee: "readClientHello p = Some (r, c)" "\<forall>nonce sni. r = Inr (nonce, sni) \<longrightarrow> length nonce = 64"
    using readClientHello_returns [OF assms] by blast
  obtain bs e p' where dd: "read_full prepend_read 64 p = Some (bs, e, p')" "e = None \<longrightarrow> length bs = 64"
    using prepend_src.read_full_returns [OF assms, of 64] by blast
  show ?thesis
    using ee dd
    by (cases r; cases e)
      (auto simp add: client_handshake_def newFakeTLSClientConn_def newObfuscatedClientConn_def try_ee_eq try_dd_eq)
qed

lemma serve_socks_returns: "conn_ok c \<Longrightarrow> \<exists>r. serve_socks dial peek c = Some r"
  using yieldsD [OF yields_handshake, of c peek] by (auto simp add: serve_socks_def handleSOCKS5_def)

lemma handle_returns:
  assumes "conn_ok c"
  shows "\<exists>r. handle uf rnd dial now cfg dcs c = Some r"
proof (cases "conn_content c = []")
  case True
  with handle_empty [OF assms] show ?thesis by simp
next
  case False
  obtain p :: pconn where
    p: "handle uf rnd dial now cfg dcs c = dispatch uf rnd dial cfg dcs (p_buf p) (p_conn p)"
      "go_index (p_buf p) 0 = Some (hd (conn_content c))" "prepend_ok p"
    using handle_peek [OF assms False] by metis
  have "\<lparr>p_conn = p_conn p, p_buf = p_buf p\<rparr> = p" by simp
  then obtain r where "client_handshake uf rnd (hd (conn_content c)) \<lparr>p_conn = p_conn p, p_buf = p_buf p\<rparr> (Secrets cfg) = Some r"
    using client_handshake_returns [OF p(3)] by metis
  moreover obtain q where "serve_socks dial (p_buf p) (p_conn p) = Some q"
    using serve_socks_returns [of "p_conn p" dial "p_buf p"] p(3) by (auto simp add: prepend_ok_def)
  ultimately show ?thesis using p(1,2) by (auto simp add: dispatch_def split: sum.split)
qed

text \<open>The configuration of the examples.\<close>

definition example_config :: "secret list \<Rightarrow> config" where
  "example_config secrets =
     \<lparr>BindAddr = ''0.0.0.0'', Port = 443, Socks5Port = 0, Hysteria2Port = 0, Hysteria2Password = '''',
      Hysteria2CertFile = '''', Hysteria2KeyFile = '''', Secrets = secrets, Timeout = 120 * 1000000000,
      StatsAddr = '':8080''\<rparr>"

text \<open>C5. The handler never panics and never hangs before the relay: whatever the client sends, in whatever
  pieces, with whatever error at the end, whatever the secrets, the random source, the dialled hosts and the
  clock, it comes to one of its ends or to a relay. (\<^verbatim>\<open>peek[0]\<close> is read unguarded; there always is such a
  byte.)\<close>

theorem handle_total:
  assumes "conn_ok c"
  shows "\<exists>r. handle uf rnd dial now cfg dcs c = Some r"
  by (rule handle_returns [OF assms])

theorem handle_total_witness:
  "\<exists>r. handle (\<lambda>_ _. False) (Inl EOF, Inl EOF) (\<lambda>_. Inl EOF) 0 (example_config []) dc_new
     (new_conn [[0x16], [3, 1, 0]] (ErrText ''connection reset by peer'')) = Some r"
  by (rule handle_total) (simp add: conn_ok_def new_conn_def)

text \<open>C21. A client that says nothing, or speaks SOCKS4 or HTTP, is sent nothing at all: its connection is
  closed, no host is dialled and no transport is tried.\<close>

theorem handle_refuses:
  assumes "conn_ok c" "conn_content c = [] \<or> hd (conn_content c) \<in> set (0x04 # http_bytes)"
  shows "\<exists>r c'. handle uf rnd dial now cfg dcs c = Some (Ended r c' None) \<and> closed c' \<and> tx c' = tx c
    \<and> r = (if conn_content c = [] then PeekError (conn_final c)
           else WrongProtocol (if hd (conn_content c) = 0x04 then ''SOCKS4'' else ''HTTP''))"
proof (cases "conn_content c = []")
  case True
  with handle_empty [OF assms(1)] show ?thesis by (simp add: conn_close_def)
next
  case False
  obtain p :: pconn where
    p: "handle uf rnd dial now cfg dcs c = dispatch uf rnd dial cfg dcs (p_buf p) (p_conn p)"
      "1 \<le> length (p_buf p)" "p_buf p ! 0 = hd (conn_content c)" "tx (p_conn p) = tx c"
    using handle_peek [OF assms(1) False] by metis
  with p False assms(2) show ?thesis
    by (auto simp add: dispatch_def http_bytes_def conn_close_def)
qed

theorem handle_refuses_witness:
  "\<exists>c'. handle (\<lambda>_ _. False) (Inl EOF, Inl EOF) (\<lambda>_. Inl EOF) 0 (example_config []) dc_new
     (new_conn [[0x47, 0x45], [0x54, 0x20]] EOF) = Some (Ended (WrongProtocol ''HTTP'') c' None) \<and> tx c' = []"
  using handle_refuses [of "new_conn [[0x47, 0x45], [0x54, 0x20]] EOF" "\<lambda>_ _. False" "(Inl EOF, Inl EOF)"
      "\<lambda>_. Inl EOF" 0 "example_config []" dc_new]
  by (simp add: new_conn_def conn_ok_def conn_content_def http_bytes_def) blast

section \<open>Clients of the documented protocols, end to end\<close>

text \<open>What a client holds on to: the key of its outgoing stream, and the bytes sent before the relay.\<close>

fun cc_key :: "client_conn \<Rightarrow> ctr" where
  "cc_key (DDConn c) = (o_dec c)\<lparr>ctr_pos := 0\<rparr>"
| "cc_key (EEConn c) = (f_dec c)\<lparr>ctr_pos := 0\<rparr>"

definition keeps :: "ctr \<Rightarrow> byte list \<Rightarrow> client_conn \<Rightarrow> bool" where
  "keeps d p c \<longleftrightarrow> cc_key c = d \<and> prefix p (tx (cc_raw c))"

lemma obfs_write_keeps:
  "obfs_write bs c = (n, e, c') \<Longrightarrow> (o_dec c')\<lparr>ctr_pos := 0\<rparr> = (o_dec c)\<lparr>ctr_pos := 0\<rparr>
    \<and> prefix (tx (raw_conn c)) (tx (raw_conn c'))"
  using xor_key_stream_step [of "o_dec c" bs]
  by (auto simp add: obfs_write_def raw_conn_def dest: prepend_write_step split: prod.splits)

lemma ft_write_keeps:
  "faketls_write_loop k bs c = (n, e, c') \<Longrightarrow> (f_dec c')\<lparr>ctr_pos := 0\<rparr> = (f_dec c)\<lparr>ctr_pos := 0\<rparr>
    \<and> prefix (tx (ft_raw c)) (tx (ft_raw c'))"
proof (induction k bs c rule: faketls_write_loop.induct)
  case (1 k b c)
  obtain e1 c1 where w: "write_record (write_chunk b) c = (e1, c1)" by (cases "write_record (write_chunk b) c")
  obtain m where "conn_write (app_record (fst (xor_key_stream (f_dec c) (write_chunk b)))) (ft_raw c) = (m, e1, ft_raw c1)"
    using write_record_raw(1) [OF w] by blast
  from conn_write_step [OF this] write_record_raw(2) [OF w]
  have one: "(f_dec c1)\<lparr>ctr_pos := 0\<rparr> = (f_dec c)\<lparr>ctr_pos := 0\<rparr>" "prefix (tx (ft_raw c)) (tx (ft_raw c1))" by auto
  show ?case
  proof (cases "b = [] \<or> e1 \<noteq> None")
    case True
    with "1.prems" w one show ?thesis
      by (subst (asm) faketls_write_loop.simps) (auto simp add: Let_def split: if_splits)
  next
    case False
    with "1.prems" w have
      "faketls_write_loop (k + length (write_chunk b)) (drop (length (write_chunk b)) b) c1 = (n, e, c')"
      by (subst (asm) faketls_write_loop.simps) (simp add: Let_def)
    with "1.IH" [OF _ refl w [symmetric] _ this] False one show ?thesis
      by (auto intro: prefix_order.trans)
  qed
qed

lemma cc_write_keeps:
  assumes "keeps d p c" "cc_write bs c = (n, e, c')"
  shows "keeps d p c'"
proof (cases c)
  case (DDConn x)
  then obtain y where "obfs_write bs x = (n, e, y)" "c' = DDConn y" using assms(2) by (auto split: prod.splits)
  with obfs_write_keeps [OF this(1)] DDConn assms(1) show ?thesis
    by (auto simp add: keeps_def intro: prefix_order.trans)
next
  case (EEConn x)
  then obtain y where "faketls_write bs x = (n, e, y)" "c' = EEConn y" using assms(2) by (auto split: prod.splits)
  with ft_write_keeps [OF this(1) [unfolded faketls_write_def]] EEConn assms(1) show ?thesis
    by (auto simp add: keeps_def intro: prefix_order.trans)
qed

lemma cc_read_keeps:
  assumes "keeps d p c" "cc_ok c" "cc_read 32768 c = Some (bs, e, c')"
  shows "keeps d p c' \<and> cc_ok c'"
proof (cases c)
  case (DDConn x)
  then obtain y where y: "obfs_read 32768 x = Some (bs, e, y)" "c' = DDConn y" using assms(3) by auto
  from obfs_src.rd_take [of x 32768] DDConn assms(2) y(1) obtain n where "y = obfs_skip n x" by auto
  with DDConn assms(1,2) y(2) obfs_src.ok_skip [of x n] show ?thesis
    by (simp add: keeps_def obfs_skip_def raw_conn_def)
next
  case (EEConn x)
  then obtain y where "faketls_read 32768 x = Some (bs, e, y)" "c' = EEConn y" using assms(3) by auto
  with ft_read_frame [of x 32768 bs e y] EEConn assms(1,2) show ?thesis by (auto simp add: keeps_def)
qed

lemma cc_write_ok: "cc_write bs c = (n, e, c') \<Longrightarrow> cc_ok c \<Longrightarrow> cc_ok c'"
  using cc_end.write_src [of bs c n e c'] by (simp add: src_stable_def)

lemma cc_close_keeps: "keeps d p c \<Longrightarrow> keeps d p (cc_map conn_close c)"
  by (cases c) (simp_all add: keeps_def obfs_map_def ft_map_def raw_conn_def ft_raw_def)

lemma relay_keeps:
  assumes "relay_reaches client_iface B R S" "keeps d p (r_client R)" "cc_ok (r_client R)"
  shows "keeps d p (r_client S)"
proof -
  have "keeps d p (r_client S) \<and> cc_ok (r_client S)"
  proof (rule relay_client_preserved [OF assms(1), where P = "\<lambda>c. keeps d p c \<and> cc_ok c"])
    show "keeps d p (r_client R) \<and> cc_ok (r_client R)" using assms by simp
  next
    fix c bs e c' assume "keeps d p c \<and> cc_ok c" "nc_read client_iface 32768 c = Some (bs, e, c')"
    then show "keeps d p c' \<and> cc_ok c'" using cc_read_keeps [of d p c bs e c'] by (simp add: client_iface_def)
  next
    fix bs c n e c' assume "keeps d p c \<and> cc_ok c" "nc_write client_iface bs c = (n, e, c')"
    then show "keeps d p c' \<and> cc_ok c'" using cc_write_keeps [of d p c bs n e c'] cc_write_ok [of bs c n e c'] by (simp add: client_iface_def)
  next
    fix c assume "keeps d p c \<and> cc_ok c"
    then show "keeps d p (nc_close client_iface c) \<and> cc_ok (nc_close client_iface c)"
      using cc_close_keeps cc_end.close_src [of c] by (simp add: client_iface_def src_stable_def)
  qed
  then show ?thesis by simp
qed

text \<open>Clearing the deadline changes nothing else.\<close>

lemma cc_deadline_simps [simp]:
  "cc_content (cc_map (set_deadline d) c) = cc_content c" "cc_final (cc_map (set_deadline d) c) = cc_final c"
  "cc_ok (cc_map (set_deadline d) c) = cc_ok c" "cc_in_step t0 (cc_map (set_deadline d) c) = cc_in_step t0 c"
  "cc_sent t0 (cc_map (set_deadline d) c) = cc_sent t0 c" "cc_key (cc_map (set_deadline d) c) = cc_key c"
  "tx (cc_raw (cc_map (set_deadline d) c)) = tx (cc_raw c)" "deadline (cc_raw (cc_map (set_deadline d) c)) = d"
  by (cases c; simp add: obfs_map_def ft_map_def pconn_map_def obfs_content_def ft_content_def obfs_final_def
      ft_final_def obfs_ok_def ft_ok_def prepend_content_def prepend_final_def prepend_ok_def obfs_in_step_def
      ft_in_step_def obfs_sent_def ft_sent_def raw_conn_def ft_raw_def)+

text \<open>The relay between a client and its data centre, at any moment of any interleaving.\<close>

lemma proxy_relay_outcome:
  assumes "cc_ok c" "cc_in_step t0 c" "conn_ok t" "relay_reaches client_iface tcp_conn (relay_start c t) R"
  shows "\<exists>x y. tx (r_target R) = tx t @ x \<and> prefix x (cc_content c)
    \<and> cc_sent t0 (r_client R) = cc_sent t0 c @ y \<and> prefix y (conn_content t)
    \<and> (\<forall>w. copier_result (r_up R) = Some (w, None) \<longrightarrow> x = cc_content c)
    \<and> (\<forall>w. copier_result (r_down R) = Some (w, None) \<longrightarrow> y = conn_content t)"
proof -
  note inv = endpoints_relay_inv(1,2) [OF cc_end.endpoint_axioms conn_end.endpoint_axioms, OF assms(1,2,3) TrueI
      assms(4) [unfolded client_iface_iface tcp_conn_iface]]
  obtain x where x: "tx (r_target R) = tx t @ x" "prefix x (cc_content c)"
    "\<forall>w e. copier_result (r_up R) = Some (w, e) \<longrightarrow> w = length x \<and> (e = None \<longrightarrow> x = cc_content c \<and> cc_final c = EOF)"
    using link_inv_result [OF inv(1)] by (elim exE conjE)
  obtain y where y: "cc_sent t0 (r_client R) = cc_sent t0 c @ y" "prefix y (conn_content t)"
    "\<forall>w e. copier_result (r_down R) = Some (w, e) \<longrightarrow>
      w = length y \<and> (e = None \<longrightarrow> y = conn_content t \<and> conn_final t = EOF)"
    using link_inv_result [OF inv(2)] by (elim exE conjE)
  have "\<forall>w. copier_result (r_up R) = Some (w, None) \<longrightarrow> x = cc_content c"
    "\<forall>w. copier_result (r_down R) = Some (w, None) \<longrightarrow> y = conn_content t"
    using x(3) y(3) by blast+
  with x(1,2) y(1,2) show ?thesis by blast
qed

text \<open>From the handshake to the relay, when the data centre is known and answers.\<close>

lemma handle_connects:
  assumes "conn_ok c" "conn_content c \<noteq> []" "hd (conn_content c) \<notin> set (0x05 # 0x04 # http_bytes)"
    and "\<And>p :: pconn. prepend_ok p \<Longrightarrow> prepend_content p = conn_content c \<Longrightarrow> prepend_final p = conn_final c \<Longrightarrow>
      open_writer (p_conn p) = open_writer c \<Longrightarrow> tx (p_conn p) = tx c \<Longrightarrow>
      \<exists>cc inner. client_handshake uf rnd (hd (conn_content c)) p (Secrets cfg) = Some (Inr (cc, dcID, s, inner)) \<and> Q cc inner"
    and "dc_get dcs dcID = Inr addr" "dial addr = Inr dc" "open_writer dc"
  shows "\<exists>cc inner. handle uf rnd dial now cfg dcs c =
      Some (ProxyRelaying (cc_map (set_deadline None) cc) (conn_put inner dc) s) \<and> Q cc inner"
proof -
  obtain p :: pconn where p:
    "handle uf rnd dial now cfg dcs c = dispatch uf rnd dial cfg dcs (p_buf p) (p_conn p)"
    "1 \<le> length (p_buf p)" "p_buf p ! 0 = hd (conn_content c)" "go_index (p_buf p) 0 = Some (hd (conn_content c))"
    and q: "prepend_ok p" "prepend_content p = conn_content c" "prepend_final p = conn_final c"
      "open_writer (p_conn p) = open_writer c" "tx (p_conn p) = tx c"
    using handle_peek [OF assms(1,2)] by metis
  obtain cc inner where h: "client_handshake uf rnd (hd (conn_content c)) p (Secrets cfg) = Some (Inr (cc, dcID, s, inner))"
    "Q cc inner" using assms(4) [OF q] by blast
  have "dispatch uf rnd dial cfg dcs (p_buf p) (p_conn p) = Some (connect_dc dial dcs cc dcID s inner)"
    using p(2,3,4) assms(3) h(1) by (simp add: dispatch_def)
  then have "handle uf rnd dial now cfg dcs c =
      Some (ProxyRelaying (cc_map (set_deadline None) cc) (conn_put inner dc) s)"
    using p(1) assms(5,6,7) by (simp add: connect_dc_def go_write_open)
  with h(2) show ?thesis by blast
qed

text \<open>C2. A dd client is served end to end: its init and its encrypted data arrive in whatever chunks on a
  socket that accepts writes; the first byte of the init is none of those the server reserves; its secret is
  configured, no earlier dd secret decrypts the init to a protocol tag, and the data centre it names is known
  and can be dialled. Then the handler reaches the relay with the 64 bytes of the decrypted init sent to the
  data centre and no deadline left, and at every moment of every interleaving of the relay the data centre
  has been sent the init and a prefix of the client's data, and what the client has been sent decrypts to a
  prefix of the answer; all of it when a copy has ended without error.\<close>

theorem handle_serves_dd:
  assumes "conn_ok c" "open_writer c" "tx c = []"
    and client: "length pfx = 56" "length tail = 8"
      "le_uint32 (seg 0 4 tail) \<in> {protoAbridged, protoIntermediate, protoFull}"
      "hd pfx \<notin> set (0x16 # 0x05 # 0x04 # http_bytes)"
    and secrets: "Secrets cfg = earlier @ s # later" "s_type s = SecretTypeDD"
      "\<forall>r \<in> set earlier. \<not> dd_accepts (client_init pfx tail (s_raw s)) r"
    and arrives: "conn_content c = client_init pfx tail (s_raw s) @ client_encrypt pfx (s_raw s) data"
    and dc: "dc_get dcs (ucast (le_uint32 (seg 4 8 tail))) = Inr addr" "dial addr = Inr dc" "open_writer dc" "conn_ok dc"
  shows "\<exists>cc t inner. handle uf rnd dial now cfg dcs c = Some (ProxyRelaying cc t s)
    \<and> length inner = 64 \<and> drop 56 inner = tail \<and> tx t = tx dc @ inner \<and> deadline (cc_raw cc) = None
    \<and> (\<forall>R. relay_reaches client_iface tcp_conn (relay_start cc t) R \<longrightarrow>
        (\<exists>x y. tx (r_target R) = tx dc @ inner @ x \<and> prefix x data
          \<and> client_decrypt pfx (s_raw s) (tx (cc_raw (r_client R))) = y \<and> prefix y (conn_content dc)
          \<and> (\<forall>w. copier_result (r_up R) = Some (w, None) \<longrightarrow> x = data)
          \<and> (\<forall>w. copier_result (r_down R) = Some (w, None) \<longrightarrow> y = conn_content dc)))"
proof -
  let ?d = "recv_stream (pfx @ replicate 8 0) (s_raw s)"
  let ?Q = "\<lambda>cc inner. length inner = 64 \<and> drop 56 inner = tail \<and> cc_ok cc \<and> cc_content cc = data
    \<and> cc_in_step 0 cc \<and> keeps ?d [] cc \<and> cc_sent 0 cc = [] \<and> (\<exists>oc. cc = DDConn oc)"
  have init: "hd (conn_content c) = hd pfx" "conn_content c \<noteq> []"
    using arrives client(1) by (cases pfx; simp add: client_init_def)+
  have "\<exists>cc inner. handle uf rnd dial now cfg dcs c =
      Some (ProxyRelaying (cc_map (set_deadline None) cc) (conn_put inner dc) s) \<and> ?Q cc inner"
  proof (rule handle_connects [where dial = dial and addr = addr, OF assms(1) init(2) _ _ dc(1) dc(2) dc(3)])
    show "hd (conn_content c) \<notin> set (0x05 # 0x04 # http_bytes)" using client(4) init(1) by simp
    fix p :: pconn assume p: "prepend_ok p" "prepend_content p = conn_content c" "tx (p_conn p) = tx c"
    from dd_session [OF p(1) client(1,2,3) secrets arrives [folded p(2)]] obtain oc inner where
      h: "newObfuscatedClientConn p (Secrets cfg) = Some (Inr (oc, ucast (le_uint32 (seg 4 8 tail)), s, inner))"
      and oc: "length inner = 64" "drop 56 inner = tail" "obfs_content oc = data" "obfs_ok oc"
        "o_conn oc = prepend_skip 64 p" "o_dec oc = ?d" by (elim exE conjE)
    have "tx (raw_conn oc) = []" using p(3) assms(3) by (simp add: raw_conn_def oc(5))
    then have "?Q (DDConn oc) inner"
      using oc(1,2,3,4,6)
      by (simp add: obfs_in_step_def obfs_sent_def keeps_def recv_stream_def aes_ctr.xk_Nil)
    moreover have "client_handshake uf rnd (hd (conn_content c)) p (Secrets cfg) =
        Some (Inr (DDConn oc, ucast (le_uint32 (seg 4 8 tail)), s, inner))"
      using h client(4) init(1) by (simp add: client_handshake_def)
    ultimately show "\<exists>cc inner. client_handshake uf rnd (hd (conn_content c)) p (Secrets cfg) =
        Some (Inr (cc, ucast (le_uint32 (seg 4 8 tail)), s, inner)) \<and> ?Q cc inner" by blast
  qed
  then obtain cc inner where h: "handle uf rnd dial now cfg dcs c =
      Some (ProxyRelaying (cc_map (set_deadline None) cc) (conn_put inner dc) s)" and Q: "?Q cc inner" by blast
  let ?cc = "cc_map (set_deadline None) cc" and ?t = "conn_put inner dc"
  have relay: "\<exists>x y. tx (r_target R) = tx dc @ inner @ x \<and> prefix x data
      \<and> client_decrypt pfx (s_raw s) (tx (cc_raw (r_client R))) = y \<and> prefix y (conn_content dc)
      \<and> (\<forall>w. copier_result (r_up R) = Some (w, None) \<longrightarrow> x = data)
      \<and> (\<forall>w. copier_result (r_down R) = Some (w, None) \<longrightarrow> y = conn_content dc)"
    if r: "relay_reaches client_iface tcp_conn (relay_start ?cc ?t) R" for R
  proof -
    have ok: "cc_ok ?cc" "cc_in_step 0 ?cc" "conn_ok ?t" "conn_content ?t = conn_content dc" "tx ?t = tx dc @ inner"
      "cc_content ?cc = data" "cc_sent 0 ?cc = []" using Q dc(4) by (simp_all add: conn_put_simps)
    obtain x y where xy: "tx (r_target R) = tx dc @ inner @ x" "prefix x data" "cc_sent 0 (r_client R) = y"
      "prefix y (conn_content dc)" "\<forall>w. copier_result (r_up R) = Some (w, None) \<longrightarrow> x = data"
      "\<forall>w. copier_result (r_down R) = Some (w, None) \<longrightarrow> y = conn_content dc"
      using proxy_relay_outcome [OF ok(1,2,3) r] unfolding ok(4,5,6,7) by auto
    have "keeps ?d [] (r_client (relay_start ?cc ?t))" using Q by (simp add: relay_start_def keeps_def)
    from relay_keeps [OF r this] Q have k: "cc_key (r_client R) = ?d" by (simp add: relay_start_def keeps_def)
    have "\<exists>oc. r_client R = DDConn oc"
      using Q by (intro relay_client_preserved [OF r, where P = "\<lambda>c. \<exists>oc. c = DDConn oc"])
        (auto simp add: relay_start_def client_iface_def split: prod.splits)
    then have "client_decrypt pfx (s_raw s) (tx (cc_raw (r_client R))) = y"
      using k xy(3) by (auto simp add: client_decrypt_def obfs_sent_def)
    with xy show ?thesis by blast
  qed
  then show ?thesis
    using h Q by (intro exI [of _ ?cc] exI [of _ ?t] exI [of _ inner]) (simp add: conn_put_simps)
qed

text \<open>The example client of theory Obfuscated, on its way to data centre 2.\<close>

definition example_dial :: "string \<Rightarrow> go_error + conn" where
  "example_dial addr =
     (if addr = ''149.154.167.51:443'' then Inr (new_conn [[8, 9]] EOF) else Inl (ErrText ''no route to host''))"

lemma example_client:
  "length example_pfx = 56" "length example_tail = 8"
  "le_uint32 (seg 0 4 example_tail) \<in> {protoAbridged, protoIntermediate, protoFull}"
  "dc_get dc_new (ucast (le_uint32 (seg 4 8 example_tail))) = Inr ''149.154.167.51:443''"
  "example_dial ''149.154.167.51:443'' = Inr (new_conn [[8, 9]] EOF)"
  "open_writer (new_conn chunks e)" "conn_ok (new_conn [[8, 9]] EOF)" "tx (new_conn chunks e) = []"
  "conn_content (new_conn chunks e) = concat chunks"
proof -
  have tag: "le_uint32 (seg 0 4 example_tail) = protoAbridged" "le_uint32 (seg 4 8 example_tail) = 2"
    by code_simp+
  show "le_uint32 (seg 0 4 example_tail) \<in> {protoAbridged, protoIntermediate, protoFull}" using tag by simp
  show "dc_get dc_new (ucast (le_uint32 (seg 4 8 example_tail))) = Inr ''149.154.167.51:443''"
    unfolding tag by (simp add: dc_get_def dc_new_lookup dcAddrs_def)
qed (simp_all add: example_pfx_def example_tail_def example_dial_def open_writer_def conn_ok_def new_conn_def
      conn_content_def)

theorem handle_serves_dd_witness:
  "\<exists>cc t inner. handle (\<lambda>_ _. False) (Inl EOF, Inl EOF) example_dial 0 (example_config [example_dd]) dc_new
      (new_conn [client_init example_pfx example_tail (s_raw example_dd),
          client_encrypt example_pfx (s_raw example_dd) [1, 2, 3]] EOF) = Some (ProxyRelaying cc t example_dd)
    \<and> drop 56 inner = example_tail \<and> tx t = inner \<and> deadline (cc_raw cc) = None
    \<and> relay_reaches client_iface tcp_conn (relay_start cc t) (relay_start cc t)
    \<and> client_decrypt example_pfx (s_raw example_dd) (tx (cc_raw cc)) \<in> {[], [8], [8, 9]}"
proof -
  let ?raw = "s_raw example_dd"
  let ?init = "client_init example_pfx example_tail ?raw" and ?enc = "client_encrypt example_pfx ?raw [1, 2, 3]"
  have "length ?init = 64" "length ?enc = 3"
    using length_client_init [OF example_client(1,2)] by (simp_all add: client_encrypt_def aes_ctr.xk_length)
  then have "?init \<noteq> []" "?enc \<noteq> []" by (metis list.size(3) zero_neq_numeral)+
  then have ok: "conn_ok (new_conn [?init, ?enc] EOF)" by (simp add: conn_ok_def new_conn_def)
  have hd: "hd example_pfx \<notin> set (0x16 # 0x05 # 0x04 # http_bytes)" by (simp add: example_pfx_def http_bytes_def)
  have ty: "s_type example_dd = SecretTypeDD" by (simp add: example_dd_def)
  have sec: "Secrets (example_config [example_dd]) = [] @ example_dd # []" by (simp add: example_config_def)
  have arr: "conn_content (new_conn [?init, ?enc] EOF) = ?init @ ?enc" by (simp add: example_client(9))
  have none: "\<forall>r \<in> set []. \<not> dd_accepts ?init r" by simp
  from handle_serves_dd [where dial = example_dial and now = 0 and uf = "\<lambda>_ _. False" and rnd = "(Inl EOF, Inl EOF)"
      and earlier = "[]" and later = "[]", OF ok example_client(6) example_client(8) example_client(1,2,3) hd sec ty none arr
      example_client(4,5,6,7)]
  show ?thesis
    using relay_reaches_refl [of client_iface tcp_conn]
    by (simp add: example_client(8,9)) (fastforce simp add: relay_start_def prefix_Cons)
qed

text \<open>C1. An ee client is served end to end: its ClientHello carries its init and names the secret's domain (any
  name if the secret has none), no earlier ee secret accepts it, its encrypted data follow in records cut as
  it likes, and the data centre it names is known and can be dialled. Then the handler reaches the relay with
  the decrypted init sent to the data centre and no deadline left, and at every moment of every interleaving
  the data centre has been sent the init and a prefix of the client's data, and the client the ServerHello
  and records whose complete ones decrypt to a prefix of the answer; all of it when a copy has ended without
  error.\<close>

theorem handle_serves_ee:
  assumes "conn_ok c" "open_writer c" "tx c = []"
    and client: "length pfx = 56" "length tail = 8"
      "le_uint32 (seg 0 4 tail) \<in> {protoAbridged, protoIntermediate, protoFull}"
    and hello: "hello = client_hello (take 32 init) (drop 32 init) suites comps exts"
      "init = client_init pfx tail (s_raw s)"
      "length suites < 65536" "length comps < 256" "length (concat (map encode_ext exts)) < 65536"
      "length hello < 65536"
    and secrets: "Secrets cfg = earlier @ s # later" "s_type s = SecretTypeEE"
      "s_domain s = '''' \<or> equal_fold uf (foldl ext_sni '''' exts) (s_domain s)"
      "\<forall>r \<in> set earlier. \<not> ee_accepts uf init (foldl ext_sni '''' exts) r"
    and arrives: "conn_content c = tlsRecord tlsHandshake v w hello @ recs"
      "split_records recs = (client_encrypt pfx (s_raw s) data, [])"
    and dc: "dc_get dcs (ucast (le_uint32 (seg 4 8 tail))) = Inr addr" "dial addr = Inr dc" "open_writer dc" "conn_ok dc"
  shows "\<exists>cc t inner. handle uf (Inr r1, Inr r2) dial now cfg dcs c = Some (ProxyRelaying cc t s)
    \<and> length inner = 64 \<and> drop 56 inner = tail \<and> tx t = tx dc @ inner \<and> deadline (cc_raw cc) = None
    \<and> (\<forall>R. relay_reaches client_iface tcp_conn (relay_start cc t) R \<longrightarrow>
        (\<exists>x y sent. tx (r_target R) = tx dc @ inner @ x \<and> prefix x data
          \<and> tx (cc_raw (r_client R)) = server_hello_bytes r1 r2 @ sent
          \<and> client_decrypt pfx (s_raw s) (fst (split_records sent)) = y \<and> prefix y (conn_content dc)
          \<and> (\<forall>w. copier_result (r_up R) = Some (w, None) \<longrightarrow> x = data)
          \<and> (\<forall>w. copier_result (r_down R) = Some (w, None) \<longrightarrow> y = conn_content dc)))"
proof -
  let ?d = "recv_stream (pfx @ replicate 8 0) (s_raw s)" and ?p = "server_hello_bytes r1 r2"
  let ?Q = "\<lambda>cc inner. length inner = 64 \<and> drop 56 inner = tail \<and> cc_ok cc \<and> cc_content cc = data
    \<and> cc_in_step (length ?p) cc \<and> keeps ?d ?p cc \<and> cc_sent (length ?p) cc = [] \<and> (\<exists>oc. cc = EEConn oc)"
  have first: "hd (conn_content c) = 0x16" "conn_content c \<noteq> []"
    using arrives(1) by (simp_all add: tlsRecord_def tlsHandshake_def)
  have "\<exists>cc inner. handle uf (Inr r1, Inr r2) dial now cfg dcs c =
      Some (ProxyRelaying (cc_map (set_deadline None) cc) (conn_put inner dc) s) \<and> ?Q cc inner"
  proof (rule handle_connects [where dial = dial and addr = addr, OF assms(1) first(2) _ _ dc(1) dc(2) dc(3)])
    show "hd (conn_content c) \<notin> set (0x05 # 0x04 # http_bytes)" using first(1) by (simp add: http_bytes_def)
    fix p :: pconn assume p: "prepend_ok p" "prepend_content p = conn_content c"
      "open_writer (p_conn p) = open_writer c" "tx (p_conn p) = tx c"
    have ow: "open_writer (p_conn p)" "tx (p_conn p) = []" using p(3,4) assms(2,3) by simp_all
    from ee_session [OF p(1) client hello secrets arrives(1) [folded p(2)] arrives(2) ow, of r1 r2]
    obtain fc inner where
      h: "newFakeTLSClientConn uf (Inr r1, Inr r2) p (Secrets cfg) =
        Some (Inr (fc, ucast (le_uint32 (seg 4 8 tail)), s, inner))"
      and fc: "length inner = 64" "drop 56 inner = tail" "ft_content fc = data" "ft_ok fc"
        "tx (ft_raw fc) = ?p" "f_dec fc = ?d" by (elim exE conjE)
    have "ctr_pos (f_dec fc) = 0" by (simp add: fc(6) recv_stream_def)
    from ft_in_step_start [OF this] fc have "?Q (EEConn fc) inner"
      by (simp add: keeps_def recv_stream_def)
    moreover have "client_handshake uf (Inr r1, Inr r2) (hd (conn_content c)) p (Secrets cfg) =
        Some (Inr (EEConn fc, ucast (le_uint32 (seg 4 8 tail)), s, inner))"
      using h first(1) by (simp add: client_handshake_def)
    ultimately show "\<exists>cc inner. client_handshake uf (Inr r1, Inr r2) (hd (conn_content c)) p (Secrets cfg) =
        Some (Inr (cc, ucast (le_uint32 (seg 4 8 tail)), s, inner)) \<and> ?Q cc inner" by blast
  qed
  then obtain cc inner where h: "handle uf (Inr r1, Inr r2) dial now cfg dcs c =
      Some (ProxyRelaying (cc_map (set_deadline None) cc) (conn_put inner dc) s)" and Q: "?Q cc inner" by blast
  let ?cc = "cc_map (set_deadline None) cc" and ?t = "conn_put inner dc"
  have relay: "\<exists>x y sent. tx (r_target R) = tx dc @ inner @ x \<and> prefix x data
      \<and> tx (cc_raw (r_client R)) = ?p @ sent
      \<and> client_decrypt pfx (s_raw s) (fst (split_records sent)) = y \<and> prefix y (conn_content dc)
      \<and> (\<forall>w. copier_result (r_up R) = Some (w, None) \<longrightarrow> x = data)
      \<and> (\<forall>w. copier_result (r_down R) = Some (w, None) \<longrightarrow> y = conn_content dc)"
    if r: "relay_reaches client_iface tcp_conn (relay_start ?cc ?t) R" for R
  proof -
    have ok: "cc_ok ?cc" "cc_in_step (length ?p) ?cc" "conn_ok ?t" "conn_content ?t = conn_content dc"
      "tx ?t = tx dc @ inner" "cc_content ?cc = data" "cc_sent (length ?p) ?cc = []"
      using Q dc(4) by (simp_all add: conn_put_simps)
    obtain x y where xy: "tx (r_target R) = tx dc @ inner @ x" "prefix x data" "cc_sent (length ?p) (r_client R) = y"
      "prefix y (conn_content dc)" "\<forall>w. copier_result (r_up R) = Some (w, None) \<longrightarrow> x = data"
      "\<forall>w. copier_result (r_down R) = Some (w, None) \<longrightarrow> y = conn_content dc"
      using proxy_relay_outcome [OF ok(1,2,3) r] unfolding ok(4,5,6,7) by auto
    have "keeps ?d ?p (r_client (relay_start ?cc ?t))" using Q by (simp add: relay_start_def keeps_def)
    from relay_keeps [OF r this] Q have k: "cc_key (r_client R) = ?d" "prefix ?p (tx (cc_raw (r_client R)))"
      by (simp_all add: relay_start_def keeps_def)
    from k(2) obtain sent where sent: "tx (cc_raw (r_client R)) = ?p @ sent" by (auto simp add: prefix_def)
    have "\<exists>oc. r_client R = EEConn oc"
      using Q by (intro relay_client_preserved [OF r, where P = "\<lambda>c. \<exists>oc. c = EEConn oc"])
        (auto simp add: relay_start_def client_iface_def split: prod.splits)
    then have "client_decrypt pfx (s_raw s) (fst (split_records sent)) = y"
      using k(1) xy(3) sent by (auto simp add: client_decrypt_def ft_sent_def)
    with xy sent show ?thesis by blast
  qed
  then show ?thesis
    using h Q by (intro exI [of _ ?cc] exI [of _ ?t] exI [of _ inner]) (simp add: conn_put_simps)
qed

theorem handle_serves_ee_witness:
  "\<exists>cc t inner. handle (\<lambda>_ _. False) (Inr (replicate 32 3), Inr (replicate 32 4)) example_dial 0
      (example_config [example_ee]) dc_new
      (new_conn [tlsRecord tlsHandshake 3 1 example_ee_hello, app_record example_data] EOF) =
        Some (ProxyRelaying cc t example_ee)
    \<and> drop 56 inner = example_tail \<and> tx t = inner"
proof -
  let ?c = "new_conn [tlsRecord tlsHandshake 3 1 example_ee_hello, app_record example_data] EOF"
  have ok: "conn_ok ?c" using example_ee_facts(7,8) by (simp add: conn_ok_def new_conn_def)
  have sec: "Secrets (example_config [example_ee]) = [] @ example_ee # []" by (simp add: example_config_def)
  have arr: "conn_content ?c = tlsRecord tlsHandshake 3 1 example_ee_hello @ app_record example_data"
    by (simp add: example_client(9))
  from handle_serves_ee [where dial = example_dial and now = 0 and uf = "\<lambda>_ _. False" and earlier = "[]" and later = "[]"
      and ?r1.0 = "replicate 32 3" and ?r2.0 = "replicate 32 4", OF ok example_client(6) example_client(8)
      example_client(1,2,3) example_ee_hello_def example_init_def _ _ _ example_ee_facts(3) sec example_ee_facts(6)
      disjI2 [OF example_ee_facts(5)] _ arr example_ee_facts(4) example_client(4,5,6,7)]
  show ?thesis by (simp add: example_client(8,9) server_name_data_def) blast
qed

text \<open>C22. The byte that selects the protocol is random in a dd client's init: one that starts with 4 or with the
  first letter of an HTTP method is refused as SOCKS4 or HTTP, though the dd handshake would have accepted it
  on the same bytes.\<close>

theorem handle_misroutes_dd:
  assumes "conn_ok c"
    and client: "length pfx = 56" "length tail = 8"
      "le_uint32 (seg 0 4 tail) \<in> {protoAbridged, protoIntermediate, protoFull}"
      "hd pfx \<in> set (0x04 # http_bytes)"
    and secrets: "Secrets cfg = earlier @ s # later" "s_type s = SecretTypeDD"
      "\<forall>r \<in> set earlier. \<not> dd_accepts (client_init pfx tail (s_raw s)) r"
    and arrives: "conn_content c = client_init pfx tail (s_raw s) @ client_encrypt pfx (s_raw s) data"
  shows "(\<exists>oc inner. newObfuscatedClientConn \<lparr>p_conn = c, p_buf = []\<rparr> (Secrets cfg) =
        Some (Inr (oc, ucast (le_uint32 (seg 4 8 tail)), s, inner)))
    \<and> (\<exists>p c'. handle uf rnd dial now cfg dcs c = Some (Ended (WrongProtocol p) c' None) \<and> tx c' = tx c)"
proof
  let ?p = "\<lparr>p_conn = c, p_buf = []\<rparr>"
  have "prepend_ok ?p" "prepend_content ?p = client_init pfx tail (s_raw s) @ client_encrypt pfx (s_raw s) data"
    using assms(1) arrives by (simp_all add: prepend_ok_def prepend_content_def)
  from dd_session [OF this(1) client(1,2,3) secrets this(2)]
  show "\<exists>oc inner. newObfuscatedClientConn ?p (Secrets cfg) =
      Some (Inr (oc, ucast (le_uint32 (seg 4 8 tail)), s, inner))" by blast
next
  have first: "hd (conn_content c) = hd pfx" "conn_content c \<noteq> []"
    using arrives client(1) by (cases pfx; simp add: client_init_def)+
  obtain p :: pconn where
    p: "handle uf rnd dial now cfg dcs c = dispatch uf rnd dial cfg dcs (p_buf p) (p_conn p)"
      "1 \<le> length (p_buf p)" "p_buf p ! 0 = hd (conn_content c)" "tx (p_conn p) = tx c"
    using handle_peek [OF assms(1) first(2)] by metis
  then show "\<exists>p c'. handle uf rnd dial now cfg dcs c = Some (Ended (WrongProtocol p) c' None) \<and> tx c' = tx c"
    using client(4) first(1) by (auto simp add: dispatch_def http_bytes_def conn_close_def)
qed

theorem handle_misroutes_dd_witness:
  "\<exists>p c'. handle (\<lambda>_ _. False) (Inl EOF, Inl EOF) example_dial 0 (example_config [example_dd]) dc_new
      (new_conn [client_init (0x47 # replicate 55 7) example_tail (s_raw example_dd)] EOF) =
      Some (Ended (WrongProtocol p) c' None)"
proof -
  let ?pfx = "0x47 # replicate 55 7 :: byte list"
  let ?init = "client_init ?pfx example_tail (s_raw example_dd)"
  have len: "length ?pfx = 56" by simp
  have "?init \<noteq> []" by (simp add: client_init_def)
  then have ok: "conn_ok (new_conn [?init] EOF)" by (simp add: conn_ok_def new_conn_def)
  have hd: "hd ?pfx \<in> set (0x04 # http_bytes)" by (simp add: http_bytes_def)
  have ty: "s_type example_dd = SecretTypeDD" by (simp add: example_dd_def)
  have sec: "Secrets (example_config [example_dd]) = [] @ example_dd # []" by (simp add: example_config_def)
  have arr: "conn_content (new_conn [?init] EOF) = ?init @ client_encrypt ?pfx (s_raw example_dd) []"
    by (simp add: example_client(9) client_encrypt_def aes_ctr.xk_Nil)
  have none: "\<forall>r \<in> set []. \<not> dd_accepts ?init r" by simp
  from handle_misroutes_dd [where dial = example_dial and now = 0 and uf = "\<lambda>_ _. False" and rnd = "(Inl EOF, Inl EOF)"
      and dcs = dc_new, OF ok len example_client(2,3) hd sec ty none arr]
  show ?thesis by blast
qed

section \<open>Deadlines\<close>

text \<open>Nothing of the SOCKS5 negotiation touches the deadline.\<close>

definition keeps_deadline :: "(conn, 'a) go \<Rightarrow> bool" where
  "keeps_deadline m \<longleftrightarrow> (\<forall>c r c'. m c = Some (r, c') \<longrightarrow> deadline c' = deadline c)"

lemma read_at_least_loop_deadline:
  assumes "read_at_least_loop rd k mn acc s = Some y"
  shows "rd = conn_read \<longrightarrow> deadline (snd (snd y)) = deadline s"
proof (rule read_at_least_loop.raw_induct [OF _ assms], goal_cases)
  case (1 loop rd k mn acc s y)
  show ?case
  proof
    assume rd: "rd = conn_read"
    show "deadline (snd (snd y)) = deadline s"
    proof (cases "length acc < mn")
      case True
      then obtain bs e s' where r: "conn_read (k - length acc) s = Some (bs, e, s')"
        using 1(2) rd by (cases "conn_read (k - length acc) s") auto
      from conn_read_frame [OF r] 1 True rd r show ?thesis by (cases e) auto
    qed (use 1(2) in auto)
  qed
qed

lemma keeps_deadline_read: "keeps_deadline (go_read conn_read wrap n)" "keeps_deadline (go_drain conn_read n)"
  by (auto simp add: keeps_deadline_def go_read_def go_drain_def read_full_def read_at_least_def
      dest!: read_at_least_loop_deadline split: bind_splits)

lemma keeps_deadline_write: "keeps_deadline (go_write conn_write wrap bs)" "keeps_deadline (go_send conn_write bs)"
  by (auto simp add: keeps_deadline_def go_write_def go_send_def conn_write_def split: if_splits option.splits)

lemma keeps_deadline_bind: "keeps_deadline m \<Longrightarrow> (\<And>a. keeps_deadline (f a)) \<Longrightarrow> keeps_deadline (go_bind m f)"
  unfolding keeps_deadline_def go_bind_def by (force split: bind_splits sum.splits)

lemma keeps_deadline_simple:
  "keeps_deadline (go_return a)" "keeps_deadline (go_fail e)" "keeps_deadline (go_at xs i)" "keeps_deadline (go_cut xs i j)"
  by (auto simp add: keeps_deadline_def go_at_def go_cut_def)

lemmas keeps_deadline_intros = keeps_deadline_read keeps_deadline_write keeps_deadline_bind keeps_deadline_simple

lemma handshake_deadline: "keeps_deadline (socks5Handshake peek)"
  unfolding socks5Handshake_def read_greeting_def read_methods_def read_request_def read_host_def Let_def
  by (intro keeps_deadline_intros conjI impI | simp split del: if_split | split if_split)+

lemma serve_socks_deadline:
  assumes "serve_socks dial peek c = Some (SocksRelaying c' t)"
  shows "deadline c' = deadline c"
proof -
  have "handleSOCKS5 dial peek c = Some (SocksRelay c' t)"
    using assms unfolding serve_socks_def by (cases "handleSOCKS5 dial peek c") (auto split: socks5_outcome.splits)
  then obtain r c1 where hs: "socks5Handshake peek c = Some (r, c1)"
    and out: "(case r of
         Inl err \<Rightarrow> SocksClosed c1
       | Inr target \<Rightarrow>
           (case dial target of
              Inl err \<Rightarrow> (case conn_write (reply 0x04) c1 of (n, e, conn) \<Rightarrow> SocksClosed conn)
            | Inr targetConn \<Rightarrow>
                (case conn_write (reply 0x00) c1 of (n, e, conn) \<Rightarrow> SocksRelay conn targetConn))) = SocksRelay c' t"
    by (auto simp add: handleSOCKS5_def)
  have h: "c' = snd (snd (conn_write (reply 0) c1))"
  proof (cases r)
    case (Inr target)
    with out show ?thesis by (cases "dial target") (auto split: prod.splits)
  qed (use out in simp)
  from hs have "deadline c1 = deadline c" using handshake_deadline [of peek] by (auto simp add: keeps_deadline_def)
  moreover have "deadline (snd (snd (conn_write (reply 0) c1))) = deadline c1"
    by (simp add: conn_write_def split: option.split)
  ultimately show ?thesis using h by simp
qed

text \<open>C23. What becomes of the deadline: a connection of an MTProto client is relayed with none; a SOCKS5
  connection on the main port keeps, through its whole relay, the deadline set when it was accepted, so that
  it is cut \<^verbatim>\<open>TIMEOUT_SEC\<close> seconds after that, in use or not; and on its own port SOCKS5 has whatever deadline
  the fresh connection had, none, even for the negotiation.\<close>

theorem relay_deadlines:
  assumes "conn_ok c"
  shows "(\<forall>cc t s. handle uf rnd dial now cfg dcs c = Some (ProxyRelaying cc t s) \<longrightarrow> deadline (cc_raw cc) = None)
    \<and> (\<forall>c' t. handle uf rnd dial now cfg dcs c = Some (SocksRelaying c' t) \<longrightarrow>
        deadline c' = Some (now + sint (Timeout cfg)))
    \<and> (\<forall>c' t. serve_socks dial [] c = Some (SocksRelaying c' t) \<longrightarrow> deadline c' = deadline c)"
proof (cases "conn_content c = []")
  case True
  with handle_empty [OF assms] serve_socks_deadline show ?thesis by auto
next
  case False
  obtain p :: pconn where
    p: "handle uf rnd dial now cfg dcs c = dispatch uf rnd dial cfg dcs (p_buf p) (p_conn p)"
      "deadline (p_conn p) = Some (now + sint (Timeout cfg))"
    using handle_peek [OF assms False] by metis
  have proxy: "deadline (cc_raw cc) = None"
    if "connect_dc dial dcs cc0 d s0 inner = ProxyRelaying cc t s" for cc0 d s0 inner cc t s
    using that by (auto simp add: connect_dc_def Let_def split: sum.splits prod.splits option.splits)
  have socks: "connect_dc dial dcs cc0 d s0 inner \<noteq> SocksRelaying c' t" for cc0 d s0 inner c' t
    by (auto simp add: connect_dc_def Let_def split: sum.splits prod.splits option.splits)
  have no: "serve_socks dial peek x \<noteq> Some (ProxyRelaying cc t s)" for peek x cc t s
    by (auto simp add: serve_socks_def split: socks5_outcome.splits)
  show ?thesis
    unfolding p(1) using proxy socks no serve_socks_deadline p(2)
    by (auto simp add: dispatch_def split: if_splits bind_splits sum.splits prod.splits)
qed

theorem relay_deadlines_witness:
  "\<exists>c' t. handle (\<lambda>_ _. False) (Inl EOF, Inl EOF) (\<lambda>_. Inr (new_conn [[8, 9]] EOF)) 1000 (example_config []) dc_new
      (new_conn [[5, 1, 0], [5, 1, 0, 1, 149, 154, 167, 51, 1, 187]] EOF) = Some (SocksRelaying c' t)
    \<and> deadline c' = Some (1000 + 120 * 10 ^ 9)"
proof -
  let ?c = "new_conn [[5, 1, 0], [5, 1, 0, 1, 149, 154, 167, 51, 1, 187]] EOF"
  let ?dial = "\<lambda>_. Inr (new_conn [[8, 9]] EOF)"
  have ok: "conn_ok ?c" by (simp add: conn_ok_def new_conn_def)
  have h: "\<exists>c' t. handle (\<lambda>_ _. False) (Inl EOF, Inl EOF) ?dial 1000 (example_config []) dc_new ?c =
      Some (SocksRelaying c' t)"
    by (simp add: handle_def set_deadline_def read_at_least_def read_at_least_loop.simps conn_read_def new_conn_def
        dispatch_def serve_socks_def handleSOCKS5_def socks5Handshake_def read_greeting_def read_methods_def
        read_request_def read_host_def go_bind_def go_read_def go_write_def read_full_def conn_write_def go_copy_def
        select_method_eq socks5_constants Let_def seg_def)
  have t: "sint (Timeout (example_config [])) = 120 * 10 ^ 9" by code_simp
  from relay_deadlines [OF ok, of "\<lambda>_ _. False" "(Inl EOF, Inl EOF)" ?dial 1000 "example_config []" dc_new] h t
  show ?thesis by auto
qed

section \<open>The statistics of a relayed connection\<close>

text \<open>
  \<^verbatim>\<open>ConnOpen\<close> before the relay; then, in the order in which the goroutines get there, the byte counts (as
  \<^verbatim>\<open>int64\<close>) and the deferred \<^verbatim>\<open>ConnClose\<close>.
\<close>

fun relay_stats :: "string \<Rightarrow> relay_event \<Rightarrow> stats \<Rightarrow> stats" where
  "relay_stats name (BytesIn n) s = AddBytesIn (of_nat n) s"
| "relay_stats name (BytesOut n) s = AddBytesOut (of_nat n) s"
| "relay_stats name RelayOver s = ConnClose name s"

definition account :: "string \<Rightarrow> relay_event list \<Rightarrow> stats \<Rightarrow> stats" where
  "account name log s = fold (relay_stats name) log (ConnOpen name s)"

fun in_of :: "relay_event \<Rightarrow> int64" where
  "in_of (BytesIn n) = of_nat n" | "in_of _ = 0"

fun out_of :: "relay_event \<Rightarrow> int64" where
  "out_of (BytesOut n) = of_nat n" | "out_of _ = 0"

fun over_of :: "relay_event \<Rightarrow> int64" where
  "over_of RelayOver = 1" | "over_of _ = 0"

lemma add_bytes_entries:
  "active_of (AddBytesIn n s) m = active_of s m" "total_of (AddBytesIn n s) m = total_of s m"
  "active_of (AddBytesOut n s) m = active_of s m" "total_of (AddBytesOut n s) m = total_of s m"
  "stats_ok (AddBytesIn n s) = stats_ok s" "stats_ok (AddBytesOut n s) = stats_ok s"
  by (cases "perSecret s m"; simp add: active_of_def total_of_def stats_ok_def add_bytes_eq)+

lemma fold_relay_stats:
  "stats_ok s \<Longrightarrow> let s' = fold (relay_stats name) log s in
     stats_ok s' \<and> activeConns s' = activeConns s - sum_mset (image_mset over_of (mset log))
     \<and> totalConns s' = totalConns s
     \<and> bytesIn s' = bytesIn s + sum_mset (image_mset in_of (mset log))
     \<and> bytesOut s' = bytesOut s + sum_mset (image_mset out_of (mset log))
     \<and> active_of s' m = active_of s m - (if m = name then sum_mset (image_mset over_of (mset log)) else 0)
     \<and> total_of s' m = total_of s m"
proof (induction log arbitrary: s)
  case (Cons e log)
  let ?s = "relay_stats name e s"
  have "stats_ok ?s \<and> activeConns ?s = activeConns s - over_of e \<and> totalConns ?s = totalConns s
      \<and> bytesIn ?s = bytesIn s + in_of e \<and> bytesOut ?s = bytesOut s + out_of e
      \<and> active_of ?s m = active_of s m - (if m = name then over_of e else 0) \<and> total_of ?s m = total_of s m"
    using Cons.prems conn_close_effect [OF Cons.prems, of name m]
    by (cases e) (simp_all add: add_bytes_entries, simp_all add: add_bytes_eq)
  with Cons.IH [of ?s] show ?case by (simp add: Let_def)
qed simp

text \<open>C12. Accounting of a connection, in whatever order its goroutines report: when its relay is over, the
  server has one more connection in total and for its secret, as many open as before, and the byte counters
  have grown by exactly the bytes delivered to the data centre and to the client; other secrets are
  untouched.\<close>

theorem relay_accounted:
  assumes "cc_ok c" "cc_in_step t0 c" "conn_ok t" "stats_ok s"
    and "relay_reaches client_iface tcp_conn (relay_start c t) R" "relay_over R"
  shows "\<exists>x y. tx (r_target R) = tx t @ x \<and> cc_sent t0 (r_client R) = cc_sent t0 c @ y
    \<and> (let s' = account name (r_log R) s in
        activeConns s' = activeConns s \<and> totalConns s' = totalConns s + 1
        \<and> bytesIn s' = bytesIn s + of_nat (length x) \<and> bytesOut s' = bytesOut s + of_nat (length y)
        \<and> active_of s' m = active_of s m \<and> total_of s' m = total_of s m + (if m = name then 1 else 0))"
proof -
  note inv = endpoints_relay_inv(1,2) [OF cc_end.endpoint_axioms conn_end.endpoint_axioms, OF assms(1,2,3) TrueI
      assms(5) [unfolded client_iface_iface tcp_conn_iface]]
  obtain x y where xy: "tx (r_target R) = tx t @ x" "cc_sent t0 (r_client R) = cc_sent t0 c @ y"
    "mset (r_log R) = {#BytesIn (length x), BytesOut (length y), RelayOver#}"
    using relay_over_log [OF inv assms(5,6)] by blast
  from fold_relay_stats [of "ConnOpen name s" name "r_log R" m] conn_open_effect [OF assms(4), of name m]
  show ?thesis using xy by (intro exI [of _ x] exI [of _ y]) (simp add: account_def Let_def)
qed

theorem relay_accounted_witness:
  "\<exists>(R :: (client_conn, conn) relay) x (y :: byte list). relay_over R \<and> tx (r_target R) = x
    \<and> bytesIn (account ''alice'' (r_log R) (stats_new 0)) = of_nat (length x)
    \<and> bytesOut (account ''alice'' (r_log R) (stats_new 0)) = of_nat (length y)
    \<and> active_of (account ''alice'' (r_log R) (stats_new 0)) ''alice'' = 0
    \<and> total_of (account ''alice'' (r_log R) (stats_new 0)) ''alice'' = 1"
proof -
  let ?c = "DDConn \<lparr>o_conn = \<lparr>p_conn = new_conn [[1, 2, 3]] EOF, p_buf = []\<rparr>, o_dec = example_ctr, o_enc = example_ctr\<rparr>"
  let ?t = "new_conn [[8, 9]] EOF"
  have ok: "cc_ok ?c" "cc_in_step 0 ?c" "conn_ok ?t" "tx ?t = []"
    by (simp_all add: obfs_ok_def prepend_ok_def conn_ok_def new_conn_def obfs_in_step_def raw_conn_def example_ctr_def)
  have s: "stats_ok (stats_new 0)" "bytesIn (stats_new 0) = 0" "bytesOut (stats_new 0) = 0"
    "active_of (stats_new 0) ''alice'' = 0" "total_of (stats_new 0) ''alice'' = 0"
    by (simp_all add: stats_new_def stats_ok_def active_of_def total_of_def)
  obtain R where R: "relay_reaches client_iface tcp_conn (relay_start ?c ?t) R" "relay_over R"
    using endpoints_relay_completes [OF cc_end.endpoint_axioms conn_end.endpoint_axioms, OF ok(1,2,3) TrueI]
    unfolding client_iface_iface tcp_conn_iface by blast
  from relay_accounted [OF ok(1,2,3) s(1) R, of "''alice''" "''alice''"] obtain x y :: "byte list" where
    xy: "tx (r_target R) = tx ?t @ x"
      "let s' = account ''alice'' (r_log R) (stats_new 0) in
        activeConns s' = activeConns (stats_new 0) \<and> totalConns s' = totalConns (stats_new 0) + 1
        \<and> bytesIn s' = bytesIn (stats_new 0) + of_nat (length x)
        \<and> bytesOut s' = bytesOut (stats_new 0) + of_nat (length y)
        \<and> active_of s' ''alice'' = active_of (stats_new 0) ''alice''
        \<and> total_of s' ''alice'' = total_of (stats_new 0) ''alice'' + (if ''alice'' = ''alice'' then 1 else 0)"
    by blast
  show ?thesis
    using xy R(2) ok(4) s(2,3,4,5) by (intro exI [of _ R] exI [of _ x] exI [of _ y]) (simp add: Let_def)
qed

section \<open>Accepting connections\<close>

text \<open>
  What \<^verbatim>\<open>Accept\<close> returns, call after call; the loops go on after an error and have no way out, so what they have
  done is what they did on a prefix of any sequence of results. \<open>l_log\<close> is what has been logged, \<open>l_started\<close> what
  becomes of the goroutines started, each running \<open>handler\<close>; \<open>None\<close> is a panic, which would end the process.
\<close>

type_synonym 'c accepts = "(go_error + 'c) list"

record 'o listening =
  l_log :: "string list"
  l_started :: "'o option list"

fun accept_loop :: "string \<Rightarrow> ('c \<Rightarrow> 'o option) \<Rightarrow> 'c accepts \<Rightarrow> 'o listening \<Rightarrow> 'o listening" where
  "accept_loop what handler [] l = l"
| "accept_loop what handler (Inl err # rest) l =
     accept_loop what handler rest (l\<lparr>l_log := l_log l @ [what @ '': '' @ err_text err]\<rparr>)"
| "accept_loop what handler (Inr conn # rest) l =
     accept_loop what handler rest (l\<lparr>l_started := l_started l @ [handler conn]\<rparr>)"

text \<open>An accepted connection, and what its handler meets: the random source, the dialler and the clock.\<close>

record world =
  w_rnd :: random_reads
  w_dial :: "string \<Rightarrow> go_error + conn"
  w_now :: int

definition secretTypeName :: "secret_type \<Rightarrow> string" where
  "secretTypeName t = (case t of SecretTypeDD \<Rightarrow> ''dd'' | SecretTypeEE \<Rightarrow> ''ee (fake-TLS)''
     | SecretTypeOther _ \<Rightarrow> ''unknown'')"

definition secret_log_line :: "config \<Rightarrow> nat \<Rightarrow> secret \<Rightarrow> string" where
  "secret_log_line cfg i sec =
     ''  ['' @ dec i @ ''] '' @ s_name sec @ ''  type='' @ secretTypeName (s_type sec)
     @ ''  link: tg://proxy?server=HOST&port='' @ dec_int (Port cfg) @ ''&secret='' @ hex_string sec"

definition listen_addr :: "config \<Rightarrow> int \<Rightarrow> string" where
  "listen_addr cfg port = BindAddr cfg @ '':'' @ dec_int port"

definition listenSOCKS5 :: "(string \<Rightarrow> go_error option) \<Rightarrow> (world \<times> conn) accepts \<Rightarrow> config \<Rightarrow> handled listening" where
  "listenSOCKS5 bindErr accepted cfg =
     (let addr = listen_addr cfg (Socks5Port cfg)
      in case bindErr addr of
           Some err \<Rightarrow> \<lparr>l_log = [''socks5 listen '' @ addr @ '': '' @ err_text err], l_started = []\<rparr>
         | None \<Rightarrow> accept_loop ''socks5 accept'' (\<lambda>(w, c). serve_socks (w_dial w) [] c) accepted
             \<lparr>l_log = [''SOCKS5 listening on '' @ addr], l_started = []\<rparr>)"

text \<open>\<^verbatim>\<open>Listen\<close>: an error if the port cannot be bound; else its own loop, and the SOCKS5 listener if there is one.\<close>

definition Listen :: "(string \<Rightarrow> string \<Rightarrow> bool) \<Rightarrow> dc_list \<Rightarrow> (string \<Rightarrow> go_error option) \<Rightarrow> (world \<times> conn) accepts \<Rightarrow>
    (world \<times> conn) accepts \<Rightarrow> config \<Rightarrow> go_error + handled listening \<times> handled listening option" where
  "Listen uf dcs bindErr accepted socks_accepted cfg =
     (let addr = listen_addr cfg (Port cfg)
      in case bindErr addr of
           Some err \<Rightarrow> Inl (ErrWrap (''listen '' @ addr) err)
         | None \<Rightarrow>
             let log = (''MTProxy listening on '' @ addr @ '' ('' @ dec (length (Secrets cfg)) @ '' secrets)'')
               # map (\<lambda>(i, sec). secret_log_line cfg i sec) (List.enumerate 0 (Secrets cfg));
                 socks = (if Socks5Port cfg \<noteq> 0 then Some (listenSOCKS5 bindErr socks_accepted cfg) else None)
             in Inr (accept_loop ''accept'' (\<lambda>(w, c). handle uf (w_rnd w) (w_dial w) (w_now w) cfg dcs c) accepted
                       \<lparr>l_log = log, l_started = []\<rparr>, socks))"

lemma accept_loop_started:
  "l_started (accept_loop what h as l) = l_started l @ map h [c. Inr c \<leftarrow> as]"
  by (induction what h as l rule: accept_loop.induct) simp_all

lemma accept_loop_log:
  "l_log (accept_loop what h as l) = l_log l @ map (\<lambda>e. what @ '': '' @ err_text e) [e. Inl e \<leftarrow> as]"
  by (induction what h as l rule: accept_loop.induct) simp_all

text \<open>Which connections end up in the SOCKS5 server, on the main port and on its own.\<close>

definition is_socks :: "handled \<Rightarrow> bool" where
  "is_socks r = (case r of SocksOver c \<Rightarrow> True | SocksRelaying c t \<Rightarrow> True | _ \<Rightarrow> False)"

definition starts_socks :: "conn \<Rightarrow> bool" where
  "starts_socks c \<longleftrightarrow> conn_content c \<noteq> [] \<and> hd (conn_content c) = 5"

lemma serve_socks_is_socks:
  assumes "conn_ok c"
  shows "\<exists>r. serve_socks dial peek c = Some r \<and> is_socks r"
proof -
  obtain r where r: "serve_socks dial peek c = Some r" using serve_socks_returns [OF assms] by blast
  then obtain out where "r = (case out of SocksClosed c \<Rightarrow> SocksOver (conn_close c) | SocksRelay c t \<Rightarrow> SocksRelaying c t)"
    by (auto simp only: serve_socks_def map_option_eq_Some)
  then have "is_socks r" by (simp add: is_socks_def split: socks5_outcome.split)
  with r show ?thesis by blast
qed

lemma handle_is_socks:
  assumes "conn_ok c"
  shows "\<exists>r. handle uf rnd dial now cfg dcs c = Some r \<and> (is_socks r \<longleftrightarrow> starts_socks c)"
proof (cases "conn_content c = []")
  case True
  with handle_empty [OF assms] show ?thesis by (simp add: is_socks_def starts_socks_def)
next
  case False
  obtain p :: pconn where p: "handle uf rnd dial now cfg dcs c = dispatch uf rnd dial cfg dcs (p_buf p) (p_conn p)"
    "1 \<le> length (p_buf p)" "p_buf p ! 0 = hd (conn_content c)" "prepend_ok p"
    using handle_peek [OF assms False] by metis
  obtain r where r: "handle uf rnd dial now cfg dcs c = Some r" using handle_returns [OF assms] by blast
  have no: "\<not> is_socks (connect_dc dial dcs cc d s inner)" for cc d s inner
    by (simp add: connect_dc_def Let_def is_socks_def split: sum.split prod.split option.split)
  have "is_socks r \<longleftrightarrow> starts_socks c"
  proof (cases "hd (conn_content c) = 5")
    case True
    have "conn_ok (p_conn p)" using p(4) by (simp add: prepend_ok_def)
    from serve_socks_is_socks [OF this, of dial "p_buf p"] True p(1,2,3) r False show ?thesis
      by (auto simp add: dispatch_def starts_socks_def)
  next
    case other: False
    then show ?thesis
      using p(1,2,3) r no
      by (auto simp add: dispatch_def starts_socks_def is_socks_def split: if_splits bind_splits sum.splits prod.splits)
  qed
  with r show ?thesis by blast
qed

text \<open>On the dedicated port nothing but SOCKS5 is spoken: any other client is closed without a byte.\<close>

lemma serve_socks_other:
  assumes "conn_ok c" "\<not> starts_socks c"
  shows "\<exists>c'. serve_socks dial [] c = Some (SocksOver c') \<and> tx c' = tx c \<and> closed c'"
proof (cases "length (conn_content c) < 2")
  case True
  with conn_src.go_read_short [OF assms(1) True] show ?thesis
    by (simp add: serve_socks_def handleSOCKS5_def socks5Handshake_def read_greeting_def go_bind_def conn_close_def)
next
  case False
  then obtain a b rest where ab: "conn_content c = a # b # rest"
    by (cases "conn_content c"; cases "tl (conn_content c)") auto
  with assms(2) have "a \<noteq> 5" by (simp add: starts_socks_def)
  moreover have "go_read conn_read wrap 2 c = Some (Inr [a, b], conn_skip 2 c)" for wrap
    using conn_src.go_read_enough [OF assms(1), of 2] ab by simp
  ultimately show ?thesis
    by (simp add: serve_socks_def handleSOCKS5_def socks5Handshake_def read_greeting_def go_bind_def conn_close_def
        socks5_constants)
qed

text \<open>C31. Once the port is bound, every connection accepted, before or after any number of failing accepts, is
  served by a goroutine of its own, in order, and none of them can panic and take the process down. On the main
  port a connection is served as SOCKS5 exactly if its first byte is 5. The second listener exists exactly when
  a SOCKS5 port is configured; there every connection is served as SOCKS5, so that any client of another protocol
  (an MTProto client in particular) is closed without a byte sent to it; if that port cannot be bound only that
  listener is missing. The start-up message of each secret ends with the textual form of that secret.\<close>

theorem listen_serves_all:
  assumes "bindErr (listen_addr cfg (Port cfg)) = None"
    and "\<forall>w c. Inr (w, c) \<in> set as \<union> set socks_as \<longrightarrow> conn_ok c"
  shows "\<exists>l socks. Listen uf dcs bindErr as socks_as cfg = Inr (l, socks)
    \<and> list_all2 (\<lambda>(w, c) g. \<exists>r. g = Some r \<and> (is_socks r \<longleftrightarrow> starts_socks c)) [x. Inr x \<leftarrow> as] (l_started l)
    \<and> (socks = None \<longleftrightarrow> Socks5Port cfg = 0)
    \<and> (\<forall>m. socks = Some m \<longrightarrow>
        (if bindErr (listen_addr cfg (Socks5Port cfg)) = None
         then list_all2 (\<lambda>(w, c) g. \<exists>r. g = Some r \<and> is_socks r
             \<and> (\<not> starts_socks c \<longrightarrow> (\<exists>c'. r = SocksOver c' \<and> tx c' = tx c \<and> closed c'))) [x. Inr x \<leftarrow> socks_as] (l_started m)
         else l_started m = []))
    \<and> (\<forall>i < length (Secrets cfg). suffix (hex_string (Secrets cfg ! i)) (l_log l ! Suc i))"
proof -
  let ?log = "(''MTProxy listening on '' @ listen_addr cfg (Port cfg) @ '' ('' @ dec (length (Secrets cfg)) @ '' secrets)'')
    # map (\<lambda>(i, sec). secret_log_line cfg i sec) (List.enumerate 0 (Secrets cfg))"
  let ?main = "\<lambda>(w, c). handle uf (w_rnd w) (w_dial w) (w_now w) cfg dcs c"
  let ?socks = "\<lambda>(w, c). serve_socks (w_dial w) [] c"
  let ?l = "accept_loop ''accept'' ?main as \<lparr>l_log = ?log, l_started = []\<rparr>"
  have mem: "Inr x \<in> set xs" if "x \<in> set [x. Inr x \<leftarrow> xs]" for x and xs :: "(world \<times> conn) accepts"
    using that by (induction xs) (auto split: sum.splits)
  have link: "suffix (hex_string (Secrets cfg ! i)) (l_log ?l ! Suc i)" if "i < length (Secrets cfg)" for i
    using that by (simp add: accept_loop_log nth_append nth_enumerate_eq secret_log_line_def suffix_def)
  have main: "list_all2 (\<lambda>(w, c) g. \<exists>r. g = Some r \<and> (is_socks r \<longleftrightarrow> starts_socks c)) [x. Inr x \<leftarrow> as]
      (map ?main [x. Inr x \<leftarrow> as])"
    unfolding list_all2_map2
  proof (rule list.rel_refl_strong)
    fix x assume x: "x \<in> set [x. Inr x \<leftarrow> as]"
    obtain w c where wc: "x = (w, c)" by (cases x)
    have "conn_ok c" using mem [OF x] assms(2) wc by blast
    from handle_is_socks [OF this, of uf "w_rnd w" "w_dial w" "w_now w" cfg dcs] wc
    show "(case x of (w, c) \<Rightarrow> \<lambda>g. \<exists>r. g = Some r \<and> (is_socks r \<longleftrightarrow> starts_socks c)) (?main x)" by simp
  qed
  have socks: "list_all2 (\<lambda>(w, c) g. \<exists>r. g = Some r \<and> is_socks r
      \<and> (\<not> starts_socks c \<longrightarrow> (\<exists>c'. r = SocksOver c' \<and> tx c' = tx c \<and> closed c'))) [x. Inr x \<leftarrow> socks_as]
      (map ?socks [x. Inr x \<leftarrow> socks_as])"
    unfolding list_all2_map2
  proof (rule list.rel_refl_strong)
    fix x assume x: "x \<in> set [x. Inr x \<leftarrow> socks_as]"
    obtain w c where wc: "x = (w, c)" by (cases x)
    have ok: "conn_ok c" using mem [OF x] assms(2) wc by blast
    obtain r where "serve_socks (w_dial w) [] c = Some r" "is_socks r" using serve_socks_is_socks [OF ok] by blast
    then show "(case x of (w, c) \<Rightarrow> \<lambda>g. \<exists>r. g = Some r \<and> is_socks r
        \<and> (\<not> starts_socks c \<longrightarrow> (\<exists>c'. r = SocksOver c' \<and> tx c' = tx c \<and> closed c'))) (?socks x)"
      using serve_socks_other [OF ok, of "w_dial w"] wc by auto
  qed
  show ?thesis
    using assms(1) main socks link by (simp add: Listen_def Let_def accept_loop_started listenSOCKS5_def split: option.split)
qed

theorem listen_serves_all_witness:
  "\<exists>l m. Listen (\<lambda>_ _. False) dc_new (\<lambda>_. None)
      [Inl EOF, Inr (\<lparr>w_rnd = (Inl EOF, Inl EOF), w_dial = (\<lambda>_. Inl EOF), w_now = 0\<rparr>, new_conn [[5], [1]] EOF)]
      [Inr (\<lparr>w_rnd = (Inl EOF, Inl EOF), w_dial = (\<lambda>_. Inl EOF), w_now = 0\<rparr>, new_conn [[0x16, 3]] EOF)]
      ((example_config [])\<lparr>Socks5Port := 1080\<rparr>) = Inr (l, Some m)
    \<and> (\<exists>r. l_started l = [Some r] \<and> is_socks r) \<and> (\<exists>c'. l_started m = [Some (SocksOver c')] \<and> tx c' = [])"
proof -
  let ?w = "\<lparr>w_rnd = (Inl EOF, Inl EOF), w_dial = (\<lambda>_. Inl EOF), w_now = 0\<rparr>"
  let ?as = "[Inl EOF, Inr (?w, new_conn [[5], [1]] EOF)]" and ?ss = "[Inr (?w, new_conn [[0x16, 3]] EOF)]"
  let ?cfg = "(example_config [])\<lparr>Socks5Port := 1080\<rparr>"
  have ok: "\<forall>w c. Inr (w, c) \<in> set ?as \<union> set ?ss \<longrightarrow> conn_ok c"
    by (auto simp add: conn_ok_def new_conn_def)
  have first: "starts_socks (new_conn [[5], [1]] EOF)" "\<not> starts_socks (new_conn [[0x16, 3]] EOF)" "tx (new_conn [[0x16, 3]] EOF) = []"
    by (simp_all add: starts_socks_def conn_content_def new_conn_def)
  have port: "Socks5Port ?cfg \<noteq> 0" by (simp add: example_config_def)
  have list: "[x. Inr x \<leftarrow> ?as] = [(?w, new_conn [[5], [1]] EOF)]" "[x. Inr x \<leftarrow> ?ss] = [(?w, new_conn [[0x16, 3]] EOF)]"
    by simp_all
  from listen_serves_all [where bindErr = "\<lambda>_. None" and cfg = ?cfg and uf = "\<lambda>_ _. False" and dcs = dc_new
      and as = ?as and socks_as = ?ss, OF refl ok] obtain l socks where
    l: "Listen (\<lambda>_ _. False) dc_new (\<lambda>_. None) ?as ?ss ?cfg = Inr (l, socks)" "socks = None \<longleftrightarrow> Socks5Port ?cfg = 0"
      "list_all2 (\<lambda>(w, c) g. \<exists>r. g = Some r \<and> (is_socks r \<longleftrightarrow> starts_socks c)) [(?w, new_conn [[5], [1]] EOF)] (l_started l)"
      "\<forall>m. socks = Some m \<longrightarrow> list_all2 (\<lambda>(w, c) g. \<exists>r. g = Some r \<and> is_socks r
        \<and> (\<not> starts_socks c \<longrightarrow> (\<exists>c'. r = SocksOver c' \<and> tx c' = tx c \<and> closed c'))) [(?w, new_conn [[0x16, 3]] EOF)] (l_started m)"
    unfolding list if_P [OF refl] by (elim exE conjE)
  obtain m where m: "socks = Some m" using l(2) port by (cases socks) simp_all
  have "\<exists>r. l_started l = [Some r] \<and> is_socks r" using l(3) first by (auto simp add: list_all2_Cons1)
  moreover have "\<exists>c'. l_started m = [Some (SocksOver c')] \<and> tx c' = []"
    using l(4) m first by (auto simp add: list_all2_Cons1)
  ultimately show ?thesis using l(1) m by blast
qed

end
