(* ===== verification/Startup.thy ===== *)
theory Startup
  imports Server Hysteria2
begin

text \<open>
  \<^verbatim>\<open>cmd/mtproxy/main.go\<close> and \<^verbatim>\<open>ListenHysteria2\<close> of \<^verbatim>\<open>proxy/hysteria2.go\<close>: what is started, in which order and
  under which conditions, and when the process gives up. Certificates, UDP sockets and QUIC listeners are
  values of parameter types, what the libraries return is a parameter.
\<close>

section \<open>The Hysteria2 listener\<close>

text \<open>
  What \<^verbatim>\<open>ListenHysteria2\<close> calls: loading a key pair, generating a certificate, binding the UDP socket, listening
  on it for QUIC with the TLS configuration, and what \<^verbatim>\<open>Accept\<close> returns, call after call: an error, or a
  connection, that is a dialler for its handler and what its \<^verbatim>\<open>AcceptStream\<close> returns. The last three fields are
  the methods of a stream.
\<close>

record ('cert, 'udp, 's) hy2_libs =
  load_key_pair :: "string \<Rightarrow> string \<Rightarrow> go_error + 'cert"
  self_signed :: "go_error + 'cert"
  listen_packet :: "string \<Rightarrow> go_error + 'udp"
  quic_listen :: "'udp \<Rightarrow> 'cert \<Rightarrow> string list \<Rightarrow> go_error option"
  quic_accepts :: "((string \<Rightarrow> go_error + conn) \<times> 's accept_results) accepts"
  stream_read :: "'s reader"
  stream_write :: "'s writer"
  stream_close :: "'s \<Rightarrow> 's"

definition ListenHysteria2 :: "('cert, 'udp, 's) hy2_libs \<Rightarrow> string \<Rightarrow> int \<Rightarrow> string \<Rightarrow> string \<Rightarrow> string \<Rightarrow>
    go_error + 's hy2_result listening" where
  "ListenHysteria2 libs bindAddr port password certFile keyFile =
     (let addr = bindAddr @ '':'' @ dec_int port;
          tlsCert = (if certFile \<noteq> '''' \<and> keyFile \<noteq> '''' then load_key_pair libs certFile keyFile
                     else self_signed libs)
      in case tlsCert of
           Inl err \<Rightarrow> Inl (ErrWrap ''hysteria2 tls'' err)
         | Inr cert \<Rightarrow>
             (case listen_packet libs addr of
                Inl err \<Rightarrow> Inl (ErrWrap ''hysteria2 udp listen'' err)
              | Inr udpConn \<Rightarrow>
                  (case quic_listen libs udpConn cert [''h3'', ''hysteria''] of
                     Some err \<Rightarrow> Inl (ErrWrap ''hysteria2 listen'' err)
                   | None \<Rightarrow>
                       Inr (accept_loop ''hysteria2 accept''
                         (\<lambda>(dial, accepted). hy2HandleConn dial (stream_read libs) (stream_write libs) (stream_close libs)
                            password accepted)
                         (quic_accepts libs)
                         \<lparr>l_log = [''Hysteria2 listening on '' @ addr @ '' (UDP)''], l_started = []\<rparr>))))"

section \<open>main\<close>

text \<open>
  The steps of \<^verbatim>\<open>main\<close>, in order. \<open>Hysteria2Started\<close> is a goroutine: it carries what the listener does, or the
  error with which it makes the process exit. \<open>ProxyListening\<close> carries what the two loops of the proxy do and
  does not return; each \<open>Fatal\<close> ends the process.
\<close>

datatype 's main_step =
    FatalConfig config_error
  | StatsServed string
  | FatalNoPassword
  | Hysteria2Started int string "go_error + 's hy2_result listening"
  | ProxyListening "handled listening" "handled listening option"
  | FatalServer go_error

text \<open>What the process meets outside the Hysteria2 libraries.\<close>

record surroundings =
  equal_fold :: "string \<Rightarrow> string \<Rightarrow> bool"
  bind_error :: "string \<Rightarrow> go_error option"
  main_accepts :: "(world \<times> conn) accepts"
  socks_accepts :: "(world \<times> conn) accepts"

definition run_server :: "surroundings \<Rightarrow> config \<Rightarrow> 's main_step" where
  "run_server sur cfg =
     (case Listen (equal_fold sur) dc_new (bind_error sur) (main_accepts sur) (socks_accepts sur) cfg of
        Inl err \<Rightarrow> FatalServer err
      | Inr (l, socks) \<Rightarrow> ProxyListening l socks)"

definition start_hysteria2 :: "('cert, 'udp, 's) hy2_libs \<Rightarrow> config \<Rightarrow> 's main_step" where
  "start_hysteria2 libs cfg =
     Hysteria2Started (Hysteria2Port cfg) (Hysteria2Password cfg)
       (map_sum (ErrWrap ''hysteria2'') id
         (ListenHysteria2 libs (BindAddr cfg) (Hysteria2Port cfg) (Hysteria2Password cfg)
           (Hysteria2CertFile cfg) (Hysteria2KeyFile cfg)))"

definition main_steps :: "(string \<Rightarrow> string) \<Rightarrow> env \<Rightarrow> ('cert, 'udp, 's) hy2_libs \<Rightarrow> surroundings \<Rightarrow> 's main_step list" where
  "main_steps ul env libs sur =
     (case load ul env of
        Inl err \<Rightarrow> [FatalConfig err]
      | Inr cfg \<Rightarrow>
          StatsServed (StatsAddr cfg) #
          (if Hysteria2Port cfg \<noteq> 0
           then (if Hysteria2Password cfg = '''' then [FatalNoPassword]
                 else [start_hysteria2 libs cfg, run_server sur cfg])
           else [run_server sur cfg]))"

section \<open>Properties\<close>

text \<open>C30. Nothing at all is started without a valid configuration, not even the statistics server: then the only step
  is the fatal one, with the error of \<^verbatim>\<open>Load\<close>. A Hysteria2 listener is started only with the configured,
  non-empty password on a configured port; with a port and no password the process ends before the proxy
  listens; the proxy listens only with at least one secret; and after a fatal step nothing more is started.\<close>

theorem main_guards:
  fixes libs :: "('cert, 'udp, 's) hy2_libs"
  shows "let steps = main_steps ul env libs sur in
    (\<forall>err. load ul env = Inl err \<longrightarrow> steps = [FatalConfig err])
    \<and> (\<forall>cfg. load ul env = Inr cfg \<longrightarrow> Secrets cfg \<noteq> [] \<and> StatsServed (StatsAddr cfg) = hd steps
        \<and> (env ''HYSTERIA2_PASSWORD'' = '''' \<and> Hysteria2Port cfg \<noteq> 0 \<longrightarrow> last steps = FatalNoPassword))
    \<and> (\<forall>port pw r. Hysteria2Started port pw r \<in> set steps \<longrightarrow>
        pw \<noteq> '''' \<and> port \<noteq> 0 \<and> pw = env ''HYSTERIA2_PASSWORD'')
    \<and> (\<forall>i < length steps. (\<exists>e. steps ! i = FatalConfig e) \<or> steps ! i = FatalNoPassword
        \<or> (\<exists>e. steps ! i = FatalServer e) \<longrightarrow> Suc i = length steps)"
proof (cases "load ul env")
  case (Inl err)
  then show ?thesis by (simp add: main_steps_def Let_def)
next
  case (Inr cfg)
  have secrets: "Secrets cfg \<noteq> []" and pw: "Hysteria2Password cfg = env_str env ''HYSTERIA2_PASSWORD'' ''''"
    using Inr by (auto simp add: load_def Let_def split: if_splits sum.splits)
  have server: "(\<exists>l socks. (run_server sur cfg :: 's main_step) = ProxyListening l socks)
      \<or> (\<exists>e. (run_server sur cfg :: 's main_step) = FatalServer e)"
    by (auto simp add: run_server_def split: sum.split)
  have steps: "main_steps ul env libs sur = StatsServed (StatsAddr cfg) #
      (if Hysteria2Port cfg \<noteq> 0
       then (if Hysteria2Password cfg = '''' then [FatalNoPassword]
             else [start_hysteria2 libs cfg, run_server sur cfg])
       else [run_server sur cfg])"
    using Inr by (simp add: main_steps_def)
  show ?thesis
    unfolding steps Let_def using secrets pw Inr server
    by (auto simp add: start_hysteria2_def env_str_def nth_Cons split: if_splits nat.splits)
qed

text \<open>An environment with one secret and Hysteria2 on port 8443, and libraries that all succeed.\<close>

definition example_env :: env where
  "example_env k =
     (if k = ''SECRETS'' then ''dd000102030405060708090a0b0c0d0e0f''
      else if k = ''HYSTERIA2_PORT'' then ''8443''
      else if k = ''HYSTERIA2_PASSWORD'' then ''pw'' else '''')"

definition example_libs :: "(unit, unit, conn) hy2_libs" where
  "example_libs = \<lparr>load_key_pair = (\<lambda>c k. Inr ()), self_signed = Inr (), listen_packet = (\<lambda>a. Inr ()),
     quic_listen = (\<lambda>u c p. None),
     quic_accepts = [Inl EOF, Inr ((\<lambda>_. Inl EOF), [Inr (example_auth ''pw''), Inr (new_conn [] EOF)])],
     stream_read = conn_read, stream_write = conn_write, stream_close = conn_close_write\<rparr>"

definition example_surroundings :: surroundings where
  "example_surroundings =
     \<lparr>equal_fold = (\<lambda>_ _. False), bind_error = (\<lambda>_. None), main_accepts = [], socks_accepts = []\<rparr>"

definition example_loaded :: config where
  "example_loaded =
     (example_config [\<lparr>s_raw = map of_nat [0..<16], s_type = SecretTypeDD, s_domain = '''', s_name = ''dd000102''\<rparr>])
       \<lparr>Hysteria2Port := 8443, Hysteria2Password := ''pw''\<rparr>"

lemma example_load: "load (\<lambda>s. s) example_env = Inr example_loaded"
  by code_simp

theorem main_guards_witness:
  "length (main_steps (\<lambda>s. s) example_env example_libs example_surroundings) = 3
   \<and> hd (main_steps (\<lambda>s. s) example_env example_libs example_surroundings) = StatsServed '':8080''
   \<and> main_steps (\<lambda>s. s) (\<lambda>_. '''') example_libs example_surroundings = [FatalConfig SecretsRequired]"
proof -
  have cfg: "Hysteria2Port example_loaded \<noteq> 0" "Hysteria2Password example_loaded \<noteq> ''''" "StatsAddr example_loaded = '':8080''"
    by (simp_all add: example_loaded_def example_config_def)
  have none: "load (\<lambda>s. s) (\<lambda>_. '''') = Inl SecretsRequired" by (simp add: load_def)
  have "hd (main_steps (\<lambda>s. s) example_env example_libs example_surroundings) = StatsServed '':8080''"
    using main_guards [of "\<lambda>s. s" example_env example_libs example_surroundings] example_load cfg(3)
    unfolding Let_def by metis
  moreover have "main_steps (\<lambda>s. s) (\<lambda>_. '''') example_libs example_surroundings = [FatalConfig SecretsRequired]"
    using main_guards [of "\<lambda>s. s" "\<lambda>_. ''''" example_libs example_surroundings] none
    unfolding Let_def by metis
  ultimately show ?thesis by (simp add: main_steps_def example_load cfg(1,2))
qed

text \<open>C32. The password of the environment guards the proxy behind Hysteria2, from \<^verbatim>\<open>main\<close> to the streams: if the
  process handles any stream of any QUIC connection after that connection's first, then that first stream
  carried exactly the value of \<^verbatim>\<open>HYSTERIA2_PASSWORD\<close>, which is not empty, length-prefixed; and every
  connection accepted, before or after failing accepts, has been handled so.\<close>

theorem main_hysteria2_guarded:
  fixes libs :: "('cert, 'udp, 's) hy2_libs"
  assumes "duplex (stream_read libs) content final skip ok (stream_write libs) sent acc"
    and "\<forall>dial accepted t. Inr (dial, accepted) \<in> set (quic_accepts libs) \<and> Inr t \<in> set accepted \<longrightarrow> ok t"
    and "Hysteria2Started port pw (Inr l) \<in> set (main_steps ul env libs sur)"
  shows "env ''HYSTERIA2_PASSWORD'' \<noteq> ''''
    \<and> list_all2 (\<lambda>(dial, accepted) g. \<exists>r. g = Some r
        \<and> (h_streams r \<noteq> [] \<longrightarrow> (\<exists>a rest more. accepted = Inr a # rest
            \<and> content a = hy2AppendStr [] (env ''HYSTERIA2_PASSWORD'') @ more)))
      [x. Inr x \<leftarrow> quic_accepts libs] (l_started l)"
proof -
  obtain cfg where cfg: "load ul env = Inr cfg"
    using assms(3) by (cases "load ul env") (simp_all add: main_steps_def)
  have pw: "Hysteria2Password cfg = env ''HYSTERIA2_PASSWORD''"
    using cfg by (auto simp add: load_def Let_def env_str_def split: if_splits sum.splits)
  have no: "Hysteria2Started port pw x \<noteq> run_server sur cfg" for x :: "go_error + 's hy2_result listening"
    by (simp add: run_server_def split: sum.split prod.split)
  let ?h = "\<lambda>(dial, accepted). hy2HandleConn dial (stream_read libs) (stream_write libs) (stream_close libs)
      (env ''HYSTERIA2_PASSWORD'') accepted"
  have start: "start_hysteria2 libs cfg = Hysteria2Started port pw (Inr l)" and nonempty: "env ''HYSTERIA2_PASSWORD'' \<noteq> ''''"
    using assms(3) cfg no pw by (auto simp add: main_steps_def split: if_splits)
  then have l: "l_started l = map ?h [x. Inr x \<leftarrow> quic_accepts libs]"
    by (auto simp add: start_hysteria2_def ListenHysteria2_def Let_def accept_loop_started pw
        split: sum.splits option.splits)
  have mem: "Inr x \<in> set xs" if "x \<in> set [x. Inr x \<leftarrow> xs]" for x and xs :: "'x accepts"
    using that by (induction xs) (auto split: sum.splits)
  have "list_all2 (\<lambda>(dial, accepted) g. \<exists>r. g = Some r
        \<and> (h_streams r \<noteq> [] \<longrightarrow> (\<exists>a rest more. accepted = Inr a # rest
            \<and> content a = hy2AppendStr [] (env ''HYSTERIA2_PASSWORD'') @ more)))
      [x. Inr x \<leftarrow> quic_accepts libs] (map ?h [x. Inr x \<leftarrow> quic_accepts libs])"
    unfolding list_all2_map2
  proof (rule list.rel_refl_strong)
    fix x assume x: "x \<in> set [x. Inr x \<leftarrow> quic_accepts libs]"
    obtain dial accepted where da: "x = (dial, accepted)" by (cases x)
    have ok: "\<forall>t. Inr t \<in> set accepted \<longrightarrow> ok t" using mem [OF x] assms(2) da by blast
    obtain r where "hy2HandleConn dial (stream_read libs) (stream_write libs) (stream_close libs)
        (env ''HYSTERIA2_PASSWORD'') accepted = Some r"
      using handle_conn_returns [OF assms(1) ok] by blast
    with handled_after_auth [OF assms(1) ok this] da
    show "(case x of (dial, accepted) \<Rightarrow> \<lambda>g. \<exists>r. g = Some r
        \<and> (h_streams r \<noteq> [] \<longrightarrow> (\<exists>a rest more. accepted = Inr a # rest
            \<and> content a = hy2AppendStr [] (env ''HYSTERIA2_PASSWORD'') @ more))) (?h x)" by auto
  qed
  with l nonempty show ?thesis by simp
qed

theorem main_hysteria2_guarded_witness:
  "\<exists>l r. Hysteria2Started 8443 ''pw'' (Inr l) \<in> set (main_steps (\<lambda>s. s) example_env example_libs example_surroundings)
    \<and> l_started l = [Some r] \<and> h_streams r \<noteq> []
    \<and> (\<exists>more. conn_content (example_auth ''pw'') = hy2AppendStr [] ''pw'' @ more)"
proof -
  have libs: "stream_read example_libs = conn_read" "stream_write example_libs = conn_write"
    "quic_accepts example_libs = [Inl EOF, Inr ((\<lambda>_. Inl EOF), [Inr (example_auth ''pw''), Inr (new_conn [] EOF)])]"
    by (simp_all add: example_libs_def)
  have cfg: "Hysteria2Port example_loaded = 8443" "Hysteria2Password example_loaded = ''pw''"
    by (simp_all add: example_loaded_def)
  obtain s' where auth: "hy2HandleAuth conn_read conn_write ''pw'' (example_auth ''pw'') = Some (Inr True, s')"
    using conn_duplex.handle_auth [OF example_auth_facts(1,2,4), of "''pw''" "''pw''"] by auto
  have "\<exists>l. ListenHysteria2 example_libs (BindAddr example_loaded) 8443 ''pw'' (Hysteria2CertFile example_loaded)
        (Hysteria2KeyFile example_loaded) = Inr l
      \<and> l_started l = [hy2HandleConn (\<lambda>_. Inl EOF) conn_read conn_write conn_close_write ''pw''
        [Inr (example_auth ''pw''), Inr (new_conn [] EOF)]]"
    by (simp add: ListenHysteria2_def example_libs_def Let_def accept_loop_started)
  then obtain l where l: "ListenHysteria2 example_libs (BindAddr example_loaded) 8443 ''pw'' (Hysteria2CertFile example_loaded)
        (Hysteria2KeyFile example_loaded) = Inr l"
      "l_started l = [hy2HandleConn (\<lambda>_. Inl EOF) conn_read conn_write conn_close_write ''pw''
        [Inr (example_auth ''pw''), Inr (new_conn [] EOF)]]" by blast
  obtain r where r: "hy2HandleConn (\<lambda>_. Inl EOF) conn_read conn_write conn_close_write ''pw''
        [Inr (example_auth ''pw''), Inr (new_conn [] EOF)] = Some r" "h_streams r \<noteq> []"
    using auth by (auto simp add: hy2HandleConn_def)
  have lr: "start_hysteria2 example_libs example_loaded = Hysteria2Started 8443 ''pw'' (Inr l)"
    "l_started l = [Some r]" "h_streams r \<noteq> []"
    using l r by (simp_all add: start_hysteria2_def cfg)
  then have started: "Hysteria2Started 8443 ''pw'' (Inr l) \<in> set (main_steps (\<lambda>s. s) example_env example_libs example_surroundings)"
    by (simp add: main_steps_def example_load cfg)
  have ok: "\<forall>dial accepted t. Inr (dial, accepted) \<in> set (quic_accepts example_libs) \<and> Inr t \<in> set accepted \<longrightarrow> conn_ok t"
    using example_auth_facts(1) by (auto simp add: libs new_conn_def conn_ok_def)
  have pw: "example_env ''HYSTERIA2_PASSWORD'' = ''pw''" by (simp add: example_env_def)
  have "\<exists>a rest more. [Inr (example_auth ''pw''), Inr (new_conn [] EOF)] = Inr a # rest
      \<and> conn_content a = hy2AppendStr [] ''pw'' @ more"
    using main_hysteria2_guarded [OF conn_duplex.duplex_axioms [folded libs(1,2)], OF ok started] lr(2,3)
    by (simp add: libs(3) pw)
  with started lr show ?thesis by auto
qed

end
