(* ===== verification/Relays.thy ===== *)
theory Relays
  imports Server Hy2Client
begin

text \<open>
  The four relays of the program as instances of theory Relay, and a SOCKS5 connection from the first byte to
  the relay. Only the server's relay for MTProto clients reports to the statistics; in the others the log of
  the relay has no counterpart in the code.
\<close>

section \<open>The instances\<close>

text \<open>The relay of \<^verbatim>\<open>handle\<close>: an MTProto client and a data centre.\<close>

definition proxy_relay_step :: "(client_conn, conn) relay \<Rightarrow> (client_conn, conn) relay \<Rightarrow> bool" where
  "proxy_relay_step = relay_step client_iface tcp_conn"

text \<open>That of \<^verbatim>\<open>handleSOCKS5\<close>: two TCP connections.\<close>

definition socks5_relay_step :: "(conn, conn) relay \<Rightarrow> (conn, conn) relay \<Rightarrow> bool" where
  "socks5_relay_step = relay_step tcp_conn tcp_conn"

text \<open>
  That of \<^verbatim>\<open>hy2HandleTCP\<close>: a QUIC stream, closed by \<^verbatim>\<open>hy2HandleStream\<close>, and the dialled connection, which is
  closed first.
\<close>

definition hy2_relay_step :: "'s reader \<Rightarrow> 's writer \<Rightarrow> ('s \<Rightarrow> 's) \<Rightarrow> ('s, conn) relay \<Rightarrow> ('s, conn) relay \<Rightarrow> bool" where
  "hy2_relay_step rd wr cl = relay_step (iface rd wr cl (\<lambda>s. s)) tcp_conn"

text \<open>
  \<^verbatim>\<open>relay\<close> of the Android client: the application's connection and the QUIC stream, closed in the reverse order
  of their deferred calls; no direction is closed on its own.
\<close>

definition local_relay_step :: "'s reader \<Rightarrow> 's writer \<Rightarrow> ('s \<Rightarrow> 's) \<Rightarrow> (conn, 's) relay \<Rightarrow> (conn, 's) relay \<Rightarrow> bool" where
  "local_relay_step rd wr cl = relay_step (iface conn_read conn_write conn_close (\<lambda>c. c)) (iface rd wr cl (\<lambda>s. s))"

text \<open>A TCP connection that is never closed for writing only is an endpoint too.\<close>

interpretation local_end: endpoint conn_read conn_content conn_final "\<lambda>c. length (conn_content c)" conn_ok
  conn_write tx "\<lambda>_. True" conn_close "\<lambda>c. c"
proof
  fix s s' :: conn and bs n e assume "conn_write bs s = (n, e, s')"
  from conn_end.write_src [OF this]
  show "src_stable conn_content conn_final conn_ok s s' \<and> (conn_ok s \<longrightarrow> length (conn_content s') \<le> length (conn_content s))" .
next
  fix s :: conn
  show "src_stable conn_content conn_final conn_ok s (conn_close s)
      \<and> (conn_ok s \<longrightarrow> length (conn_content (conn_close s)) \<le> length (conn_content s))"
    by (rule conn_end.close_src)
qed (auto simp add: src_stable_def snk_stable_def conn_close_def dest!: conn_read_frame)

lemma hy2_relay_delivers:
  assumes "endpoint rd content final rank ok wr sent okw cl (\<lambda>s. s)" "ok s" "okw s" "conn_ok t"
    and "(hy2_relay_step rd wr cl)\<^sup>*\<^sup>* (relay_start s t) R"
  shows "\<exists>x y. tx (r_target R) = tx t @ x \<and> prefix x (content s)
    \<and> sent (r_client R) = sent s @ y \<and> prefix y (conn_content t)"
proof -
  have r: "relay_reaches (iface rd wr cl (\<lambda>s. s)) (iface conn_read conn_write conn_close conn_close_write) (relay_start s t) R"
    using assms(5) by (simp add: relay_reaches_def hy2_relay_step_def tcp_conn_iface)
  note inv = endpoints_relay_inv(1,2) [OF assms(1) conn_end.endpoint_axioms, OF assms(2,3,4) TrueI r]
  show ?thesis using link_inv_result [OF inv(1)] link_inv_result [OF inv(2)] by blast
qed

lemma local_relay_delivers:
  assumes "endpoint rd content final rank ok wr sent okw cl (\<lambda>s. s)" "ok s" "okw s" "conn_ok app"
    and "(local_relay_step rd wr cl)\<^sup>*\<^sup>* (relay_start app s) R"
  shows "\<exists>x y. sent (r_target R) = sent s @ x \<and> prefix x (conn_content app)
    \<and> tx (r_client R) = tx app @ y \<and> prefix y (content s)"
proof -
  have r: "relay_reaches (iface conn_read conn_write conn_close (\<lambda>c. c)) (iface rd wr cl (\<lambda>s. s)) (relay_start app s) R"
    using assms(5) by (simp add: relay_reaches_def local_relay_step_def)
  note inv = endpoints_relay_inv(1,2) [OF local_end.endpoint_axioms assms(1), OF assms(4) TrueI assms(2,3) r]
  show ?thesis using link_inv_result [OF inv(1)] link_inv_result [OF inv(2)] by blast
qed

section \<open>SOCKS5 on the main port\<close>

lemma socks5_relay_outcome:
  assumes "conn_ok c" "conn_ok t" "socks5_relay_step\<^sup>*\<^sup>* (relay_start c t) R"
  shows "\<exists>x y. tx (r_target R) = tx t @ x \<and> prefix x (conn_content c)
    \<and> tx (r_client R) = tx c @ y \<and> prefix y (conn_content t)
    \<and> (\<forall>w. copier_result (r_up R) = Some (w, None) \<longrightarrow> x = conn_content c)
    \<and> (\<forall>w. copier_result (r_down R) = Some (w, None) \<longrightarrow> y = conn_content t)"
proof -
  have r: "relay_reaches (iface conn_read conn_write conn_close conn_close_write)
      (iface conn_read conn_write conn_close conn_close_write) (relay_start c t) R"
    using assms(3) by (simp add: relay_reaches_def socks5_relay_step_def tcp_conn_iface)
  note inv = endpoints_relay_inv(1,2) [OF conn_end.endpoint_axioms conn_end.endpoint_axioms, OF assms(1) TrueI assms(2) TrueI r]
  obtain x where x: "tx (r_target R) = tx t @ x" "prefix x (conn_content c)"
    "\<forall>w e. copier_result (r_up R) = Some (w, e) \<longrightarrow> w = length x \<and> (e = None \<longrightarrow> x = conn_content c \<and> conn_final c = EOF)"
    using link_inv_result [OF inv(1)] by (elim exE conjE)
  obtain y where y: "tx (r_client R) = tx c @ y" "prefix y (conn_content t)"
    "\<forall>w e. copier_result (r_down R) = Some (w, e) \<longrightarrow> w = length y \<and> (e = None \<longrightarrow> y = conn_content t \<and> conn_final t = EOF)"
    using link_inv_result [OF inv(2)] by (elim exE conjE)
  have "\<forall>w. copier_result (r_up R) = Some (w, None) \<longrightarrow> x = conn_content c"
    "\<forall>w. copier_result (r_down R) = Some (w, None) \<longrightarrow> y = conn_content t"
    using x(3) y(3) by blast+
  with x(1,2) y(1,2) show ?thesis by blast
qed

text \<open>C9. A SOCKS5 client on the main port is served end to end, however its bytes are cut, if it offers at
  least two methods, no authentication among them (so that the four bytes the server may peek are part of the
  greeting): the handler dials exactly the requested address and answers with success; at every moment of
  every interleaving of the relay the target has been sent a prefix of the data that followed the request, and
  the client the two answers and a prefix of the target's bytes.\<close>

theorem handle_serves_socks5:
  assumes "conn_ok c" "open_writer c" "tx c = []"
    and "addr_ok a" "2 \<le> length ms" "length ms < 256" "0 \<in> set ms"
    and "conn_content c = encode_greeting ms @ encode_request 1 rsv a port @ data"
    and "dial (addr_host a @ '':'' @ dec (unat port)) = Inr t" "conn_ok t"
  shows "\<exists>c'. handle uf rnd dial now cfg dcs c = Some (SocksRelaying c' t) \<and> tx c' = [5, 0] @ reply 0
    \<and> (\<forall>R. socks5_relay_step\<^sup>*\<^sup>* (relay_start c' t) R \<longrightarrow>
        (\<exists>x y. tx (r_target R) = tx t @ x \<and> prefix x data
          \<and> tx (r_client R) = [5, 0] @ reply 0 @ y \<and> prefix y (conn_content t)
          \<and> (\<forall>w. copier_result (r_up R) = Some (w, None) \<longrightarrow> x = data)
          \<and> (\<forall>w. copier_result (r_down R) = Some (w, None) \<longrightarrow> y = conn_content t)))"
proof -
  have first: "hd (conn_content c) = 5" "conn_content c \<noteq> []" using assms(8) by (simp_all add: encode_greeting_def)
  obtain n and p :: pconn where p: "n \<le> 4" "p_buf p = take n (conn_content c)"
    "handle uf rnd dial now cfg dcs c = dispatch uf rnd dial cfg dcs (p_buf p) (p_conn p)"
    "1 \<le> length (p_buf p)" "p_buf p ! 0 = hd (conn_content c)"
    "prepend_content p = conn_content c" "prepend_ok p" "tx (p_conn p) = tx c" "open_writer (p_conn p) = open_writer c"
    using handle_peek [OF assms(1) first(2)] by metis
  have ok: "conn_ok (p_conn p)" "open_writer (p_conn p)" "tx (p_conn p) = []"
    using p(7,8,9) assms(2,3) by (simp_all add: prepend_ok_def)
  have content: "p_buf p @ conn_content (p_conn p) = encode_greeting ms @ encode_request 1 rsv a port @ data"
    using p(6) assms(8) by (simp add: prepend_content_def)
  have len: "length (p_buf p) \<le> length (encode_greeting ms)" using p(1,2) assms(5) by (simp add: encode_greeting_def)
  from socks5_connect [OF ok(1,2) assms(4,6,7) content len] obtain c1 where
    c1: "socks5Handshake (p_buf p) (p_conn p) = Some (Inr (addr_host a @ '':'' @ dec (unat port)), c1)"
      "conn_content c1 = data" "tx c1 = [5, 0]" "conn_ok c1" "open_writer c1" using ok(3) by auto
  let ?c = "conn_put (reply 0) c1"
  have "handle uf rnd dial now cfg dcs c = Some (SocksRelaying ?c t)"
    using p(3,4,5) first(1) c1 assms(9) by (simp add: dispatch_def serve_socks_def handleSOCKS5_def go_write_open)
  moreover have "tx ?c = [5, 0] @ reply 0" "conn_ok ?c" "conn_content ?c = data" using c1 by (simp_all add: conn_put_simps)
  ultimately show ?thesis
    using socks5_relay_outcome [of ?c t] assms(10) by (intro exI [of _ ?c]) simp
qed

theorem handle_serves_socks5_witness:
  "\<exists>c'. handle (\<lambda>_ _. False) (Inl EOF, Inl EOF) (\<lambda>a. if a = ''hi:443'' then Inr (new_conn [[8]] EOF) else Inl EOF) 0
      (example_config []) dc_new (new_conn [[5, 2, 2, 0, 5, 1], [0, 3, 2, 104, 105, 1, 187, 9]] EOF) =
      Some (SocksRelaying c' (new_conn [[8]] EOF))
    \<and> tx c' = [5, 0, 5, 0, 0, 1, 0, 0, 0, 0, 0, 0]"
proof -
  let ?c = "new_conn [[5, 2, 2, 0, 5, 1], [0, 3, 2, 104, 105, 1, 187, 9]] EOF"
  let ?dial = "\<lambda>a. if a = ''hi:443'' then Inr (new_conn [[8]] EOF) else Inl EOF"
  have p: "put_uint16 443 = [1, 187]" "bytes_of_string ''hi'' = [104, 105]" by code_simp+
  have d: "addr_host (AddrDomain ''hi'') @ '':'' @ dec (unat (443 :: uint16)) = ''hi:443''" by code_simp
  have c: "conn_ok ?c" "open_writer ?c" "tx ?c = []" "conn_ok (new_conn [[8]] EOF)"
    "conn_content ?c = encode_greeting [2, 0] @ encode_request 1 0 (AddrDomain ''hi'') 443 @ [9]"
    by (simp_all add: new_conn_def conn_ok_def open_writer_def conn_content_def encode_greeting_def encode_request_def
        encode_addr_def p)
  have a: "addr_ok (AddrDomain ''hi'')" "2 \<le> length [2, 0 :: byte]" "length [2, 0 :: byte] < 256" "0 \<in> set [2, 0 :: byte]"
    by (simp_all add: addr_ok_def)
  have dial: "?dial (addr_host (AddrDomain ''hi'') @ '':'' @ dec (unat (443 :: uint16))) = Inr (new_conn [[8]] EOF)"
    unfolding d by simp
  from handle_serves_socks5 [where dial = ?dial and now = 0 and uf = "\<lambda>_ _. False" and rnd = "(Inl EOF, Inl EOF)"
      and cfg = "example_config []" and dcs = dc_new, OF c(1,2,3) a c(5) dial c(4)]
  show ?thesis by (simp add: reply_def) blast
qed

section \<open>A Hysteria2 connection to its end\<close>

text \<open>C29. A QUIC connection comes to its end. Its handler has returned, and has closed the connection, as soon as
  an \<^verbatim>\<open>AcceptStream\<close> has failed, which is how the end of a connection shows (it does not spin on the error), or
  if the client cannot authenticate, with code 1 and without handling a stream; otherwise it is waiting for
  the next stream. Every stream handler closes its stream or comes to a relay, and no relay runs for ever, so
  nothing a client sends makes the server panic or keeps a goroutine of its busy without end.\<close>

theorem hy2_conn_returns:
  assumes "duplex rd content final skip ok wr sent acc"
    and "endpoint rd content final rank ok wr sent (\<lambda>_. True) cl (\<lambda>s. s)"
    and "\<forall>t. Inr t \<in> set accepted \<longrightarrow> ok t" "\<forall>addr t. dial addr = Inr t \<longrightarrow> conn_ok t"
  shows "\<exists>r. hy2HandleConn dial rd wr cl password accepted = Some r
    \<and> ((\<exists>e. Inl e \<in> set accepted) \<longrightarrow> h_close r \<noteq> [])
    \<and> (h_close r \<noteq> [] \<longrightarrow> last (h_close r) = (0, ''done'')
        \<and> ((\<exists>e. Inl e \<in> set accepted) \<or> h_streams r = [] \<and> fst (hd (h_close r)) = 1))
    \<and> (\<forall>g \<in> set (h_streams r). (\<exists>s. g = Some (Hy2Closed s))
        \<or> (\<exists>s t. g = Some (Hy2Relay s t)
            \<and> \<not> (\<exists>f. f 0 = relay_start s t \<and> (\<forall>i. hy2_relay_step rd wr cl (f i) (f (Suc i))))))"
proof -
  obtain r ts where r: "hy2HandleConn dial rd wr cl password accepted = Some r"
    "set (h_streams r) = hy2HandleStream dial rd wr ` ts" "\<forall>t \<in> ts. ok t"
    "h_close r = [] \<longrightarrow> (\<forall>e. Inl e \<notin> set accepted)"
    "h_close r \<noteq> [] \<longrightarrow> last (h_close r) = (0, ''done'')
        \<and> ((\<exists>e. Inl e \<in> set accepted) \<or> h_streams r = [] \<and> fst (hd (h_close r)) = 1)"
    using handle_conn_returns [OF assms(1,3), of dial cl password] by blast
  have "(\<exists>s. g = Some (Hy2Closed s)) \<or> (\<exists>s t. g = Some (Hy2Relay s t)
      \<and> \<not> (\<exists>f. f 0 = relay_start s t \<and> (\<forall>i. hy2_relay_step rd wr cl (f i) (f (Suc i)))))"
    if "g \<in> set (h_streams r)" for g
  proof -
    obtain x where x: "g = hy2HandleStream dial rd wr x" "ok x" using \<open>g \<in> set (h_streams r)\<close> r(2,3) by auto
    obtain s where s: "ok s" "g = Some (Hy2Closed s) \<or> (\<exists>addr t. dial addr = Inr t \<and> g = Some (Hy2Relay s t))"
      using duplex.handle_stream_returns [OF assms(1) x(2), of dial] x(1) by blast
    then consider "g = Some (Hy2Closed s)" | t where "conn_ok t" "g = Some (Hy2Relay s t)"
      using assms(4) by blast
    then show ?thesis
    proof cases
      case 2
      have "\<not> (\<exists>f. f 0 = relay_start s t \<and> (\<forall>i. hy2_relay_step rd wr cl (f i) (f (Suc i))))"
        unfolding hy2_relay_step_def tcp_conn_iface
        by (rule endpoints_no_infinite_run [OF assms(2) conn_end.endpoint_axioms, OF s(1) TrueI 2(1) TrueI])
      with 2(2) show ?thesis by blast
    qed blast
  qed
  with r(1,4,5) show ?thesis by blast
qed

theorem hy2_conn_returns_witness:
  "\<exists>r. hy2HandleConn (\<lambda>_. Inr (new_conn [[7]] EOF)) conn_read conn_write conn_close ''pw''
      [Inr (example_auth ''pw''), Inr (new_conn [[9]] EOF), Inl EOF, Inr (new_conn [[1]] EOF)] = Some r
    \<and> last (h_close r) = (0, ''done'') \<and> h_close r \<noteq> []"
proof -
  have ok: "\<forall>t. Inr t \<in> set [Inr (example_auth ''pw''), Inr (new_conn [[9]] EOF), Inl EOF, Inr (new_conn [[1]] EOF)]
      \<longrightarrow> conn_ok t"
    using example_auth_facts(1) by (auto simp add: new_conn_def conn_ok_def)
  have dial: "\<forall>addr t. (\<lambda>_ :: string. Inr (new_conn [[7]] EOF) :: go_error + conn) addr = Inr t \<longrightarrow> conn_ok t"
    by (auto simp add: new_conn_def conn_ok_def)
  from hy2_conn_returns [OF conn_duplex.duplex_axioms local_end.endpoint_axioms, OF ok dial, of "''pw''"] show ?thesis
    by fastforce
qed

end
