(* ===== verification/Spec2Isabelle.thy ===== *)
theory Spec2Isabelle
  imports Prelude GoIO Crypto Crypto_Check DcList Config Stats Prepend Obfuscated FakeTLS Socks5 Hysteria2
    Hy2Client Relay ClientConn Server Startup Relays
begin

text \<open>
  The Telegram proxy \<^verbatim>\<open>mtproxy\<close> and its Android client, modelled from the Go sources.

  The program. \<^verbatim>\<open>cmd/mtproxy/main.go\<close> loads the configuration from the environment (\<^verbatim>\<open>config/config.go\<close>), serves
  the counters of \<^verbatim>\<open>stats/stats.go\<close> over HTTP, optionally starts a Hysteria2 listener
  (\<^verbatim>\<open>proxy/hysteria2.go\<close>), and runs the proxy (\<^verbatim>\<open>proxy/server.go\<close>). One goroutine handles each TCP connection:
  it peeks at up to four bytes, tells the protocol from the first, and either refuses the connection, serves
  it as SOCKS5 (\<^verbatim>\<open>proxy/socks5.go\<close>), or performs the handshake of one of two MTProto transports,
  obfuscated \<^verbatim>\<open>dd\<close> (\<^verbatim>\<open>proxy/obfuscated.go\<close>) or fake-TLS \<^verbatim>\<open>ee\<close> (\<^verbatim>\<open>proxy/faketls.go\<close>). The handshake finds the
  secret the client holds and the data centre it asks for; the address comes from \<^verbatim>\<open>dc/list.go\<close>. The handler
  dials it, forwards the decrypted 64-byte init and relays both directions until one of them ends.
  \<^verbatim>\<open>android/go/hysteria2.go\<close> is the other end of the Hysteria2 listener: a local SOCKS5 server that carries each
  connection over a QUIC stream.

  Conventions. A result of type \<open>'a option\<close> is \<open>None\<close> when the Go code would panic (an index or a slice out of
  range: \<open>go_index\<close>, \<open>go_slice\<close>, \<open>go_at\<close>, \<open>go_cut\<close>) or never return; an error the code returns is a value, on the
  left of a sum. Bytes, ports, lengths on the wire and counters are words of their width, so conversions and sums wrap as in Go; \<^verbatim>\<open>int\<close>s that
  only count bytes in memory are \<open>nat\<close>. Strings are lists of 8-bit characters, as Go's are. A socket
  (\<open>conn\<close> in GoIO) is the chunks that will still arrive with the error after them, the bytes sent,
  an optional limit at which writes begin to fail, its deadline and whether it has been closed; a reader is
  a function of its buffer size and state that returns at most that many bytes. How the peer cuts its stream
  into chunks is therefore arbitrary in every statement about a connection.

  The theories, in the order of the imports.

  \<^item> Prelude: bytes, slices with bounds checks, \<^verbatim>\<open>encoding/binary\<close>, decimal formatting, \<^verbatim>\<open>strings\<close>; the
    collections \<open>wire\<close> and \<open>io_simps\<close>.
  \<^item> GoIO: errors and \<^verbatim>\<open>errors.Is\<close>, sockets, \<^verbatim>\<open>io.ReadAtLeast\<close>, \<^verbatim>\<open>io.ReadFull\<close>, \<^verbatim>\<open>io.Copy\<close>. The locale
    \<open>byte_source\<close> states what the loops need of a reader, \<open>exact_source\<close> that the bytes taken determine its state,
    \<open>byte_sink\<close> what they need of a writer, \<open>relay_direction\<close> joins the two, and \<open>duplex\<close> is the contract of a stream used for
    requests and answers. Each is interpreted on the socket here, and on the other readers and writers of the
    program where those are defined. The loops are \<open>partial_function\<close>s without fuel; that they return is
    proved inside the locales, with the data still to come, or the rank of the source, as the measure.
  \<^item> Crypto, Crypto\_Check: SHA-256, AES-256 and CTR mode, executable, with published vectors evaluated by the
    kernel. The locale \<open>stream_cipher\<close> has the two laws the transports rest on.
  \<^item> DcList, Config, Stats: the table of data centres; secrets, their textual form and \<^verbatim>\<open>Load\<close>; the counters, as
    sequences of atomic actions on a heap of entries, interleaved between goroutines by \<open>sys_step\<close>.
  \<^item> Prepend, Obfuscated, FakeTLS: \<^verbatim>\<open>prependConn\<close> and \<^verbatim>\<open>isConnClosedErr\<close>; the two transports, each with
    its handshake and its connection.
  \<^item> Socks5, Hysteria2, Hy2Client: the two protocol servers and the client, with the client's life cycle as
    the step relation \<open>life_step\<close>.
  \<^item> Relay: the relay as a step relation. Its state holds both connections, the position of each of the two
    goroutines (before a read, between a read and its write, copied, signalled), that of the function waiting
    for them, and the log of what they report; \<open>relay_step\<close> is one read, write, signal or close. The locale
    \<open>endpoint\<close> is what a relay needs of a connection, \<open>relay_pair\<close> proves the relay of two endpoints.
  \<^item> ClientConn, Server, Startup, Relays: the two transports as one connection type; the handler of a connection
    and the accept loops; the steps of \<^verbatim>\<open>main\<close> and the Hysteria2 listener; the four relays of the program as
    instances of theory Relay.

  What the lemmas show.

  \<^item> Components. Whatever a configuration accepts is well formed, and secrets survive rendering and parsing.
    The dd and ee handshakes are characterised on every branch: which secret is chosen, which errors arise, and
    that neither panics nor hangs for any input. The parser of the ClientHello recovers what a well-formed
    message carries. Both transports are transparent: what one end writes the other reads, for any cut into
    chunks or records. The SOCKS5 and Hysteria2 exchanges are computed on every branch, and do not depend on
    chunks.
  \<^item> Interleavings. For two endpoints a relay has at every moment delivered prefixes of both streams, reports
    exact counts, cannot run for ever, and is never stuck before its end; its first goroutine on its own is
    \<^verbatim>\<open>io.Copy\<close>, the report of its count, \<^verbatim>\<open>CloseWrite\<close> and the signal. The counters are exact under every interleaving of the goroutines that touch them. At most
    one session of the Android client is live.
  \<^item> Compositions. The handler always reaches one of its ends or a relay. A client that holds a configured
    secret is served from its first byte to the relay, in either transport, with the right init forwarded and
    the right streams delivered; likewise a SOCKS5 client, and an application behind the Android client, for
    which client and server agree on the target. Every accepted connection is served by the handler of its port,
    and none of the handlers can panic. Nothing is started without a valid configuration, and the password of the
    environment guards every stream of the Hysteria2 listener.
  \<^item> Defects. Some theorems state behaviour the code is not meant to have: a dd init that starts with a byte of
    another protocol is refused (\<open>handle_misroutes_dd\<close>), a half-closed client may lose the answer
    (\<open>half_close_loses_answer\<close>), a pipelined SOCKS5 request loses a byte
    (\<open>socks5_pipelined_request_refused\<close>), the timeout wraps around (\<open>load_timeout\<close>) and is a deadline
    (\<open>relay_deadlines\<close>), and documentation and code disagree on secrets
    (\<open>key_length\<close>, \<open>plain_secret_prefix_clash\<close>).

  Parameters. Code outside the repository, and the environment, is an argument of the definitions that use
  it: dialling (\<open>dial\<close>), binding a port (\<open>bindErr\<close>), the results of the \<^verbatim>\<open>Accept\<close> and \<^verbatim>\<open>AcceptStream\<close> calls (a finite list, any
  prefix of what happens), the random source, the clock, the environment variables, the Unicode part of
  \<^verbatim>\<open>strings.ToLower\<close> and \<^verbatim>\<open>strings.EqualFold\<close>, the libraries behind the Hysteria2 listener (\<open>hy2_libs\<close>). A QUIC
  stream is any state with a reader and a writer; theorems about it assume \<open>duplex\<close> or \<open>endpoint\<close>, which the
  socket satisfies.

  Bounds. The copy buffer has 32768 bytes, as in \<^verbatim>\<open>io.Copy\<close>; a fake-TLS connection writes records of at most
  16384 bytes, and the size of a record that is read is bounded by its 16-bit length. Statements about the
  wire formats name the lengths at which a 16-bit field would wrap. There is no fuel: the accept loops run on
  the list of results their calls have returned so far, and are waiting in the next call at its end.

  Not modelled. \<^verbatim>\<open>generateSelfSignedCert\<close> only calls the certificate libraries; its result is the parameter
  \<open>self_signed\<close>. Of \<^verbatim>\<open>net/http\<close> only the routing of the two paths and the text of the page are modelled. The
  QUIC and TLS settings passed to the libraries, the closing codes of QUIC connections, debug logging and the
  usage text are left out, and so are the passing of time (a deadline is recorded, its expiry is an error the
  reader returns), the Kotlin application and the build files.
\<close>

end
